(* ===== verification/Awp_Prelude.thy ===== *)
theory Awp_Prelude
  imports Main "HOL-Library.Word" "HOL-Library.Monad_Syntax"
begin

text \<open>
  Shared vocabulary of the development: the machine types of the C sources, the errno
  codes the public API returns, C strings as byte lists, the collections of lemmas that
  the component proofs pass to the simplifier, and the generic facts on words and lists
  that several components use.
\<close>

unbundle bit_operations_syntax

section \<open>Machine types\<close>

type_synonym u8 = "8 word"
type_synonym u32 = "32 word"
type_synonym u64 = "64 word"

text \<open>
  \<open>size_t\<close>, \<open>uint64_t\<close>, \<open>uintptr_t\<close> and \<open>atomic_uint_fast64_t\<close> are 64 bits wide (the
  library is qualified for 64-bit hosts only, \<open>awp.h\<close>); \<open>int\<close> return codes and
  counters that are only incremented and decremented in pairs are HOL integers.
\<close>

section \<open>Error codes\<close>

text \<open>The errno values the sources return negated (Linux numbering).\<close>

definition E2BIG :: int where "E2BIG = 7"
definition EAGAIN :: int where "EAGAIN = 11"
definition ENOMEM :: int where "ENOMEM = 12"
definition EINVAL :: int where "EINVAL = 22"
definition EDEADLK :: int where "EDEADLK = 35"

lemmas errno_defs = E2BIG_def EAGAIN_def ENOMEM_def EINVAL_def EDEADLK_def

section \<open>C strings\<close>

text \<open>A C string is the memory from its first byte on; its content ends at the first NUL.\<close>

type_synonym cstr = "u8 list"

definition content :: "cstr \<Rightarrow> u8 list" where
  "content s = takeWhile (\<lambda>b. b \<noteq> 0) s"

definition strlen :: "cstr \<Rightarrow> u64" where
  "strlen s = of_nat (length (content s))"

definition streq :: "cstr \<Rightarrow> cstr \<Rightarrow> bool" where
  "streq s t \<longleftrightarrow> content s = content t"

text \<open>\<open>memcpy(dst, src, n)\<close> onto a buffer that is modelled as a byte list.\<close>

definition memcpy :: "u8 list \<Rightarrow> u8 list \<Rightarrow> nat \<Rightarrow> u8 list" where
  "memcpy dst src n = take n src @ drop n dst"

lemma length_memcpy [simp]:
  "n \<le> length src \<Longrightarrow> n \<le> length dst \<Longrightarrow> length (memcpy dst src n) = length dst"
  by (simp add: memcpy_def)

lemma take_memcpy [simp]: "n \<le> length src \<Longrightarrow> take n (memcpy dst src n) = take n src"
  by (simp add: memcpy_def)

lemma content_nonzero: "b \<in> set (content s) \<Longrightarrow> b \<noteq> 0"
  by (auto simp: content_def dest: set_takeWhileD)

lemma content_take: "take (length (content s)) s = content s"
  by (simp add: content_def takeWhile_eq_take [symmetric])

lemma content_length_le: "length (content s) \<le> length s"
  by (simp add: content_def length_takeWhile_le)

text \<open>The bytes of a literal, the conversion \<open>%d\<close> of a number that is not negative, and \<open>snprintf\<close> of
  given text into a buffer.\<close>

definition c_bytes :: "string \<Rightarrow> u8 list" where
  "c_bytes s = map of_char s"

fun decimal :: "nat \<Rightarrow> u8 list" where
  "decimal n = (if n < 10 then [48 + of_nat n] else decimal (n div 10) @ [48 + of_nat (n mod 10)])"

declare decimal.simps [simp del]

definition snprintf :: "u8 list \<Rightarrow> u8 list \<Rightarrow> u8 list" where
  "snprintf buf s = (let s = take (length buf - 1) s in (s @ drop (length s) buf)[length s := 0])"

text \<open>
  Copying a string of length \<open>n\<close> and terminating it at \<open>n\<close> leaves a buffer whose content is
  the string: the idiom of every label copy in \<open>pool.c\<close>.
\<close>

lemma content_copy:
  assumes "length xs < length buf" and "\<forall>b\<in>set xs. b \<noteq> 0"
  shows "content ((xs @ drop (length xs) buf)[length xs := 0]) = xs"
proof -
  obtain z zs where z: "drop (length xs) buf = z # zs"
    using assms(1) by (metis Cons_nth_drop_Suc)
  have "(xs @ drop (length xs) buf)[length xs := 0] = xs @ 0 # zs"
    by (simp add: z list_update_append)
  then show ?thesis
    using assms(2) by (simp add: content_def takeWhile_append)
qed

section \<open>Collections\<close>

named_theorems ring_ops \<open>definitions of the ring operations\<close>
named_theorems life_simps \<open>effects of the pool operations on the lifecycle fields\<close>
named_theorems inv_intros \<open>preservation of the component invariants\<close>

section \<open>Words\<close>

lemma unat_of_nat_small64 [simp]: "n < 2 ^ 64 \<Longrightarrow> unat (of_nat n :: u64) = n"
  by (simp add: unat_of_nat take_bit_nat_eq_self)

lemma of_nat_eq64: "m < 2 ^ 64 \<Longrightarrow> n < 2 ^ 64 \<Longrightarrow> (of_nat m :: u64) = of_nat n \<longleftrightarrow> m = n"
  by (metis unat_of_nat_small64)

text \<open>The ring's index computation \<open>pos & mask\<close> is a remainder.\<close>

lemma unat_and_mask64: "unat (w AND (2 ^ k - 1) :: u64) = unat w mod 2 ^ k"
proof -
  have "w AND (2 ^ k - 1) = take_bit k w"
    by (simp add: take_bit_eq_mask mask_eq_decr_exp)
  then show ?thesis
    by (simp add: unsigned_take_bit_eq take_bit_nat_def)
qed

text \<open>Positions below \<open>2 ^ 63\<close> read the same as \<open>size_t\<close> and as \<open>intptr_t\<close>.\<close>

lemma sint_small64: "unat w < 2 ^ 63 \<Longrightarrow> sint (w :: u64) = int (unat w)"
proof -
  assume a: "unat w < 2 ^ 63"
  have u: "uint w = int (unat w)" by simp
  have "int (unat w) < int (2 ^ 63)" using a by (simp only: of_nat_less_iff)
  then have b: "uint w < 2 ^ 63" unfolding u by simp
  have "sint w = signed_take_bit 63 (uint w)" by (simp add: sint_uint)
  also have "\<dots> = uint w"
    by (rule signed_take_bit_int_eq_self) (use b in \<open>auto intro: order_trans [OF _ uint_ge_0]\<close>)
  finally show ?thesis by simp
qed

text \<open>Widening casts keep the value; narrowing ones keep what fits.\<close>

lemma unat_lt32: "unat (n :: u32) < 2 ^ 32"
  using unsigned_less [of n, where 'a = nat] by simp

lemma unat_lt64: "unat (n :: u64) < 2 ^ 64"
  using unsigned_less [of n, where 'a = nat] by simp

lemma unat_ucast_up64 [simp]: "unat (ucast (n :: u32) :: u64) = unat n"
  using unat_lt32 [of n] by (simp add: unsigned_ucast_eq take_bit_nat_eq_self)

lemma unat_ucast_down32: "unat n < 2 ^ 32 \<Longrightarrow> unat (ucast (n :: u64) :: u32) = unat n"
  by (simp add: unsigned_ucast_eq take_bit_nat_eq_self)

section \<open>Sums\<close>

text \<open>A sum over threads of which one has moved.\<close>

lemma sum_change:
  fixes f g :: "nat \<Rightarrow> 'a::comm_monoid_add"
  assumes "t < n" and "\<And>i. i \<noteq> t \<Longrightarrow> g i = f i"
  shows "sum g {..<n} + f t = sum f {..<n} + g t"
proof -
  have "sum g ({..<n} - {t}) = sum f ({..<n} - {t})" by (rule sum.cong) (use assms(2) in auto)
  then show ?thesis
    using sum.remove [of "{..<n}" t f] sum.remove [of "{..<n}" t g] assms(1) by (simp add: ac_simps)
qed

section \<open>Residues\<close>

text \<open>Two congruent positions within one capacity of each other are equal.\<close>

lemma cong_window:
  fixes a b c :: nat
  assumes "a mod c = b mod c" and "a < b + c" and "b < a + c"
  shows "a = b"
proof (rule ccontr)
  assume "a \<noteq> b"
  then consider "a < b" | "b < a" by linarith
  then show False
  proof cases
    case 1
    then have "c dvd b - a" using assms(1) by (metis mod_eq_dvd_iff_nat less_imp_le)
    then show False using 1 assms(3) by (auto dest: dvd_imp_le)
  next
    case 2
    then have "c dvd a - b" using assms(1) by (metis mod_eq_dvd_iff_nat less_imp_le)
    then show False using 2 assms(2) by (auto dest: dvd_imp_le)
  qed
qed

lemma cong_step:
  fixes a b c :: nat
  assumes "a mod c = b mod c" and "a < b"
  shows "a + c \<le> b"
proof -
  have "c dvd b - a" using assms by (metis mod_eq_dvd_iff_nat less_imp_le)
  then show ?thesis using assms(2) by (auto dest: dvd_imp_le)
qed

end
