(* ===== verification/Awp_Types.thy ===== *)
theory Awp_Types
  imports Awp_Prelude
begin

text \<open>
  The data of the library, as \<open>include/awp/awp.h\<close> and \<open>src/internal.h\<close> declare it: frames,
  configuration, ring cells and rings, the frame pool, workers and the pool. Each C struct is
  a record and each C enum a datatype; a field keeps its C name behind a one-letter tag of
  its struct. Mutexes and padding carry no data and have no field; a condition variable is
  the list of the threads blocked on it.
\<close>

section \<open>Frames\<close>

definition AWP_FEED_MAX :: u64 where "AWP_FEED_MAX = 64"
definition AWP_SYMBOL_MAX :: u64 where "AWP_SYMBOL_MAX = 64"
definition AWP_PAYLOAD_MAX :: u64 where "AWP_PAYLOAD_MAX = 4096"
definition AWP_FRAME_BROADCAST :: u32 where "AWP_FRAME_BROADCAST = 1"
definition AWP_RING_CAP_MAX :: u32 where "AWP_RING_CAP_MAX = 2 ^ 24"

lemmas limit_defs = AWP_FEED_MAX_def AWP_SYMBOL_MAX_def AWP_PAYLOAD_MAX_def

record awp_frame =
  f_feed :: "u8 list"
  f_symbol :: "u8 list"
  f_payload :: "u8 list"
  f_payload_len :: u64
  f_seq :: u64
  f_submit_ns :: u64
  f_shard :: u32
  f_flags :: u32

text \<open>A frame after \<open>memset(f, 0, sizeof *f)\<close> or in \<open>calloc\<close>ed storage.\<close>

definition zero_frame :: awp_frame where
  "zero_frame =
     \<lparr>f_feed = replicate 65 0, f_symbol = replicate 65 0, f_payload = replicate 4096 0,
      f_payload_len = 0, f_seq = 0, f_submit_ns = 0, f_shard = 0, f_flags = 0\<rparr>"

text \<open>The buffer sizes of the struct, which every write keeps.\<close>

definition wf_frame :: "awp_frame \<Rightarrow> bool" where
  "wf_frame f \<longleftrightarrow> length (f_feed f) = 65 \<and> length (f_symbol f) = 65
     \<and> length (f_payload f) = 4096 \<and> f_payload_len f \<le> AWP_PAYLOAD_MAX"

lemma wf_zero_frame [simp]: "wf_frame zero_frame"
  by (simp add: wf_frame_def zero_frame_def)

text \<open>
  A frame pointer is the block it points into and the index of the frame in that block: a
  ring's \<open>frames\<close> slab, the frame pool's \<open>slab\<close>, or storage of the caller of a raw ring.
\<close>

datatype frame_ptr = FramePtr (ptr_block: nat) (ptr_index: nat)

section \<open>Configuration\<close>

text \<open>\<open>AWP_RING_OTHER\<close> is any value of the C enum's type outside its enumerators, which the code
  checks for.\<close>

datatype awp_ring_mode =
    AWP_RING_SPSC | AWP_RING_MPSC | AWP_RING_SPMC | AWP_RING_MPMC | AWP_RING_OTHER

text \<open>
  The callbacks are code of the application. The configuration records whether their
  pointers are set; what a call returns is an argument of the worker's step.
\<close>

record awp_config =
  n_workers :: u32
  queue_capacity :: u32
  frame_pool_size :: u32
  ring_mode :: awp_ring_mode
  shutdown_deadline_ms :: u32
  supervisor_interval_ms :: u32
  stall_threshold_ms :: u32
  enable_supervisor :: bool
  enable_restart :: bool
  cfg_process :: bool
  cfg_on_error :: bool
  n_broadcast_workers :: u32
  cfg_broadcast_feeds :: "cstr list option"

section \<open>Lifecycle and worker states\<close>

datatype awp_lifecycle =
    AWP_LIFE_INIT | AWP_LIFE_RUNNING | AWP_LIFE_QUIESCING | AWP_LIFE_DRAINING | AWP_LIFE_STOPPED

datatype awp_wstate =
    AWP_W_STARTING | AWP_W_RUNNING | AWP_W_EXITED | AWP_W_JOINED | AWP_W_QUARANTINED

section \<open>Ring\<close>

record awp_cell =
  c_sequence :: u64
  c_data :: "frame_ptr option"

text \<open>
  \<open>r_frames\<close> is the content of the ring's frame slab and \<open>r_base\<close> the block it occupies; a
  freed or unallocated slab is the empty list, as are freed cells. \<open>r_cv\<close> lists the threads
  blocked in \<open>pthread_cond_wait\<close> on \<open>wait_cv\<close>.
\<close>

record awp_ring =
  r_enqueue_pos :: u64
  r_dequeue_pos :: u64
  r_cells :: "awp_cell list"
  r_frames :: "awp_frame list"
  r_base :: nat
  r_capacity :: u64
  r_mask :: u64
  r_mode :: awp_ring_mode
  r_closed :: bool
  r_waiters :: int
  r_cv :: "nat list"

section \<open>Frame pool\<close>

record awp_frame_pool =
  p_slab :: "awp_frame list"
  p_base :: nat
  p_next :: "u32 list"
  p_head :: u64
  p_size :: u32
  p_closed :: bool
  p_lock_free_ok :: bool
  p_waiters :: int
  p_cv :: "nat list"

section \<open>Workers and the pool\<close>

text \<open>\<open>w_live\<close> stands for the kernel's side of \<open>w->thread\<close>: a thread was created and not yet
  joined.\<close>

record awp_worker =
  w_id :: u32
  w_live :: bool
  w_queue :: awp_ring
  w_processed :: u64
  w_process_errors :: u64
  w_enqueue_blocks :: u64
  w_blocked_ns :: u64
  w_queue_hwm :: u64
  w_last_progress_ns :: u64
  w_restarts :: u64
  w_generation :: u64
  w_state :: awp_wstate
  w_stop :: bool
  w_joined :: bool

record awp_worker_metrics =
  m_processed :: u64
  m_process_errors :: u64
  m_enqueue_blocks :: u64
  m_blocked_ns :: u64
  m_queue_depth :: u64
  m_queue_hwm :: u64
  m_restarts :: u64
  m_last_progress_ns :: u64
  m_alive :: bool

record awp_pool_metrics =
  pm_submitted :: u64
  pm_dropped :: u64
  pm_process_errors :: u64
  pm_shutdown_aborts :: u64
  pm_n_workers :: u32
  pm_workers :: "awp_worker_metrics list"

record awp_pool =
  cfg :: awp_config
  workers :: "awp_worker list"
  frames :: awp_frame_pool
  submitted :: u64
  dropped :: u64
  process_errors :: u64
  shutdown_aborts :: u64
  seq :: u64
  abandoned :: u64
  lifecycle :: awp_lifecycle
  active_submits :: int
  api_refs :: int
  shutdown_waiters :: int
  supervisor_stop :: bool
  supervisor_alive :: bool
  supervisor_phase :: nat
  supervisor_joined :: bool
  supervisor_started :: bool
  quarantined :: bool
  destroy_started :: bool
  metrics_buf :: "awp_worker_metrics list"
  broadcast_feeds :: "cstr option list"
  n_broadcast_feeds :: u32
  shard_base :: u32
  n_shard_workers :: u32

text \<open>A claim handle; \<open>cl_reserved\<close> is the index of the reserved cell, \<open>None\<close> for NULL.\<close>

record awp_claim =
  cl_frame :: "frame_ptr option"
  cl_shard :: u32
  cl_pos :: u64
  cl_reserved :: "nat option"

end
