(* ===== verification/Awp_Bits.thy ===== *)
theory Awp_Bits
  imports Awp_Types
begin

text \<open>
  \<open>awp_round_up_pow2\<close> of \<open>src/internal.h\<close>: the bit-smearing computation that turns the
  configured queue capacity into the power of two the ring's index mask needs. The lemmas
  compare it with the arithmetic it implements.
\<close>

section \<open>Capacity rounding\<close>

definition awp_round_up_pow2 :: "u32 \<Rightarrow> u32" where
  "awp_round_up_pow2 v0 =
     (if v0 < 2 then 2
      else if v0 > AWP_RING_CAP_MAX then 0
      else
        let v = v0 - 1;
            v = v OR drop_bit 1 v;
            v = v OR drop_bit 2 v;
            v = v OR drop_bit 4 v;
            v = v OR drop_bit 8 v;
            v = v OR drop_bit 16 v;
            v = v + 1
        in if v = 0 \<or> v > AWP_RING_CAP_MAX then 0 else v)"

subsection \<open>What the smearing computes\<close>

text \<open>After the step that shifts by \<open>n\<close>, bit \<open>i\<close> is set when one of the next \<open>2 n\<close> bits of the
  original word was.\<close>

lemma smear_step:
  fixes x y :: "'a::len word"
  assumes "\<And>i. bit y i \<longleftrightarrow> (\<exists>j<n. bit x (i + j))"
  shows "bit (y OR drop_bit n y) i \<longleftrightarrow> (\<exists>j<2 * n. bit x (i + j))"
proof -
  have "(\<exists>j<n. bit x (n + i + j)) \<longleftrightarrow> (\<exists>j. n \<le> j \<and> j < 2 * n \<and> bit x (i + j))"
  proof
    assume "\<exists>j<n. bit x (n + i + j)"
    then obtain j where "j < n" "bit x (n + i + j)" by blast
    then show "\<exists>j. n \<le> j \<and> j < 2 * n \<and> bit x (i + j)"
      by (intro exI [of _ "n + j"]) (simp add: add.assoc add.left_commute)
  next
    assume "\<exists>j. n \<le> j \<and> j < 2 * n \<and> bit x (i + j)"
    then obtain j where "n \<le> j" "j < 2 * n" "bit x (i + j)" by blast
    then show "\<exists>j<n. bit x (n + i + j)"
      by (intro exI [of _ "j - n"]) (auto simp: algebra_simps)
  qed
  then have "bit (y OR drop_bit n y) i
      \<longleftrightarrow> (\<exists>j<n. bit x (i + j)) \<or> (\<exists>j. n \<le> j \<and> j < 2 * n \<and> bit x (i + j))"
    by (simp add: bit_or_iff bit_drop_bit_eq assms)
  then show ?thesis
    by (metis less_le_trans linorder_not_less mult_2 le_add1)
qed

definition smear :: "u32 \<Rightarrow> u32" where
  "smear x =
     (let v = x OR drop_bit 1 x;
          v = v OR drop_bit 2 v;
          v = v OR drop_bit 4 v;
          v = v OR drop_bit 8 v
      in v OR drop_bit 16 v)"

lemma bit_smear: "bit (smear x) i \<longleftrightarrow> (\<exists>j<32. bit x (i + j))"
proof -
  have 1: "\<And>i. bit x i \<longleftrightarrow> (\<exists>j<1. bit x (i + j))" by simp
  show ?thesis
    unfolding smear_def Let_def
    using smear_step [OF smear_step [OF smear_step [OF smear_step [OF smear_step [OF 1]]]]]
    by simp
qed

lemma smear_mask:
  assumes top: "bit x k" and high: "\<And>i. k < i \<Longrightarrow> \<not> bit x i" and k: "k < 32"
  shows "smear x = mask (Suc k)"
proof (rule bit_eqI)
  fix n
  have "(\<exists>j<32. bit x (n + j)) \<longleftrightarrow> n \<le> k"
  proof
    assume "\<exists>j<32. bit x (n + j)"
    then show "n \<le> k" using high by (metis le_add1 le_trans not_le)
  next
    assume "n \<le> k"
    then show "\<exists>j<32. bit x (n + j)"
      using top k by (intro exI [of _ "k - n"]) auto
  qed
  then show "bit (smear x) n \<longleftrightarrow> bit (mask (Suc k) :: u32) n"
    using k by (auto simp: bit_smear bit_mask_iff)
qed

lemma top_bit_exists:
  fixes x :: u32
  assumes "x \<noteq> 0"
  obtains k where "bit x k" "\<And>i. k < i \<Longrightarrow> \<not> bit x i" "k < 32"
    "2 ^ k \<le> unat x" "unat x < 2 ^ Suc k"
proof -
  have pos: "0 < unat x" using assms by (simp add: unat_gt_0)
  obtain k where k: "2 ^ k \<le> unat x" "unat x < 2 ^ Suc k"
    using ex_power_ivl1 [of 2 "unat x"] pos by auto
  have b: "bit x i \<longleftrightarrow> odd (unat x div 2 ^ i)" for i
    using bit_unsigned_iff [where 'a = nat, of x i] by (simp add: bit_iff_odd)
  have "unat x div 2 ^ k = 1"
    using k by (intro div_nat_eqI) auto
  then have 1: "bit x k" by (simp add: b)
  have 2: "\<not> bit x i" if "k < i" for i
  proof -
    have "unat x < 2 ^ i" using k(2) that
      by (meson Suc_leI le_less_trans less_le_trans one_le_numeral power_increasing)
    then show ?thesis by (simp add: b)
  qed
  have "k < 32" using bit_imp_le_length [OF 1] by simp
  with that 1 2 k show thesis by blast
qed

lemma unat_pow2_32: "k < 32 \<Longrightarrow> unat (2 ^ k :: u32) = 2 ^ k"
  using unat_of_nat [where 'a = 32, of "2 ^ k"] power_strict_increasing [of k 32 "2 :: nat"]
  by simp

lemma mask_plus_1: "mask (Suc k) + 1 = (2 ^ Suc k :: u32)"
  by (simp add: mask_eq_decr_exp)

lemma round_up_pow2_cases:
  "if unat v \<le> 2 ^ 24
   then \<exists>k. 1 \<le> k \<and> k \<le> 24 \<and> unat (awp_round_up_pow2 v) = 2 ^ k \<and> unat v \<le> 2 ^ k
          \<and> (k = 1 \<or> 2 ^ (k - 1) < unat v)
   else awp_round_up_pow2 v = 0"
proof (cases "v < 2")
  case True
  then have "unat v < 2" by (simp add: word_less_nat_alt)
  then show ?thesis
    using True by (auto simp: awp_round_up_pow2_def intro!: exI [of _ 1])
next
  case False
  then have v2: "2 \<le> unat v" by (simp add: word_less_nat_alt)
  show ?thesis
  proof (cases "v > AWP_RING_CAP_MAX")
    case True
    then show ?thesis
      using False by (simp add: awp_round_up_pow2_def word_less_nat_alt AWP_RING_CAP_MAX_def)
  next
    case small: False
    then have le: "unat v \<le> 2 ^ 24"
      by (simp add: word_less_nat_alt AWP_RING_CAP_MAX_def)
    have um: "unat (v - 1) = unat v - 1" using v2 by (intro unat_minus_one) auto
    then have "v - 1 \<noteq> 0" using v2 by auto
    then obtain k where k: "bit (v - 1) k" "\<And>i. k < i \<Longrightarrow> \<not> bit (v - 1) i" "k < 32"
      "2 ^ k \<le> unat (v - 1)" "unat (v - 1) < 2 ^ Suc k"
      using top_bit_exists by blast
    have "2 ^ k < (2 ^ 24 :: nat)" using k(4) um le v2 by linarith
    then have k24: "k < 24" by (simp only: power_strict_increasing_iff)
    have sm: "smear (v - 1) + 1 = 2 ^ Suc k"
      using smear_mask [OF k(1,2,3)] by (simp only: mask_plus_1)
    have u: "unat (2 ^ Suc k :: u32) = 2 ^ Suc k" using k24 by (intro unat_pow2_32) simp
    have "2 ^ Suc k \<le> (2 ^ 24 :: nat)" using k24 by (intro power_increasing) auto
    then have "\<not> (2 ^ Suc k :: u32) > AWP_RING_CAP_MAX"
      by (simp only: word_less_nat_alt u) (simp add: AWP_RING_CAP_MAX_def)
    moreover have "(2 ^ Suc k :: u32) \<noteq> 0" using u by (metis power_not_zero unat_0 zero_neq_numeral)
    ultimately have "awp_round_up_pow2 v = 2 ^ Suc k"
      using False small sm unfolding awp_round_up_pow2_def smear_def Let_def by simp
    then show ?thesis
      using le u k(4,5) um v2 k24 by (auto intro!: exI [of _ "Suc k"])
  qed
qed

text \<open>The capacity the ring gets is the least power of two, at least 2, that holds the
  requested number of slots; exactly the requests above the maximum are refused with 0.\<close>

theorem awp_round_up_pow2_spec:
  "unat (awp_round_up_pow2 v) =
     (if unat v \<le> 2 ^ 24 then 2 ^ (LEAST k. 1 \<le> k \<and> unat v \<le> 2 ^ k) else 0)"
proof (cases "unat v \<le> 2 ^ 24")
  case True
  then obtain k where k: "1 \<le> k" "unat (awp_round_up_pow2 v) = 2 ^ k" "unat v \<le> 2 ^ k"
    "k = 1 \<or> 2 ^ (k - 1) < unat v"
    using round_up_pow2_cases [of v] by auto
  have "(LEAST k. 1 \<le> k \<and> unat v \<le> 2 ^ k) = k"
  proof (rule Least_equality)
    show "1 \<le> k \<and> unat v \<le> 2 ^ k" using k by simp
    fix m assume m: "1 \<le> m \<and> unat v \<le> 2 ^ m"
    show "k \<le> m"
    proof (rule ccontr)
      assume "\<not> k \<le> m"
      then have "m \<le> k - 1" by simp
      then have "(2 :: nat) ^ m \<le> 2 ^ (k - 1)" by (rule power_increasing) simp
      moreover have "2 ^ (k - 1) < unat v" using k(4) m \<open>\<not> k \<le> m\<close> by auto
      ultimately show False using m by linarith
    qed
  qed
  then show ?thesis using True k(2) by simp
next
  case False
  then show ?thesis using round_up_pow2_cases [of v] by simp
qed

end
