(* ===== verification/Ring.thy ===== *)
theory Ring
  imports Awp_Bits
begin

text \<open>
  \<open>src/ring.c\<close>: the bounded ring of Vyukov cells. Every C function of the file is a definition
  here. A blocking function is a loop whose passes alternate with the steps of other threads:
  \<open>e_act E t\<close> is what the other threads did to the ring before the \<open>t\<close>-th pass, \<open>e_clk\<close> is the
  clock and \<open>e_cas\<close> tells which weak compare-and-exchange operations fail. A loop that never
  returns has the value \<^term>\<open>None\<close>. The interleaving of single memory accesses is the subject
  of theory \<open>Ring_Conc\<close>; here a pass is one step, which is what a thread with exclusive access
  to its end of the ring sees.

  The abstract state of a ring is its list of slots, oldest first, each \<^term>\<open>Some\<close> a published
  frame or \<^term>\<open>None\<close> for a position that is reserved and not yet published. The lemmas show
  that the operations implement that list for every capacity and for positions that wrap
  around at \<open>2 ^ 64\<close>.
\<close>

definition AWP_SPIN_BUDGET :: nat where "AWP_SPIN_BUDGET = 64"

section \<open>Cells\<close>

definition ring_index :: "awp_ring \<Rightarrow> u64 \<Rightarrow> nat" where
  "ring_index r pos = unat (pos AND r_mask r)"

definition ring_cell :: "awp_ring \<Rightarrow> u64 \<Rightarrow> awp_cell" where
  "ring_cell r pos = r_cells r ! ring_index r pos"

definition set_cell :: "awp_ring \<Rightarrow> u64 \<Rightarrow> awp_cell \<Rightarrow> awp_ring" where
  "set_cell r pos c = r\<lparr>r_cells := (r_cells r)[ring_index r pos := c]\<rparr>"

text \<open>\<open>(intptr_t)seq - (intptr_t)pos\<close>, as two's complement computes it.\<close>

definition seq_dif :: "u64 \<Rightarrow> u64 \<Rightarrow> int" where
  "seq_dif s p = sint (s - p)"

lemma seq_dif_0 [simp]: "seq_dif s p = 0 \<longleftrightarrow> s = p"
  by (metis right_minus_eq seq_dif_def signed_0 signed_word_eqI)

lemma seq_dif_refl [simp]: "seq_dif p p = 0"
  by simp

section \<open>Depth, wake-up and waiting\<close>

definition awp_ring_depth :: "awp_ring \<Rightarrow> u32" where
  "awp_ring_depth r =
     (let enq = r_enqueue_pos r; deq = r_dequeue_pos r
      in if enq < deq then 0
         else let d = enq - deq; d = (if d > r_capacity r then r_capacity r else d) in ucast d)"

definition awp_ring_wake_all :: "awp_ring \<Rightarrow> awp_ring" where
  "awp_ring_wake_all r = r\<lparr>r_cv := []\<rparr>"

definition awp_ring_wake_if_needed :: "awp_ring \<Rightarrow> awp_ring" where
  "awp_ring_wake_if_needed r = (if r_waiters r > 0 then r\<lparr>r_cv := []\<rparr> else r)"

record ring_env =
  e_act :: "nat \<Rightarrow> awp_ring \<Rightarrow> awp_ring"
  e_clk :: "nat \<Rightarrow> u64"
  e_cas :: "nat \<Rightarrow> bool"

text \<open>\<open>pthread_cond_wait\<close>: the thread stays blocked while it is on the condition variable.\<close>

partial_function (option) cond_park ::
  "ring_env \<Rightarrow> nat \<Rightarrow> nat \<Rightarrow> awp_ring \<Rightarrow> (nat \<times> awp_ring) option" where
  "cond_park E me t r =
     (if me \<in> set (r_cv r) then cond_park E me (Suc t) (e_act E t r) else Some (t, r))"

definition full_to_wait :: "awp_ring \<Rightarrow> bool" where
  "full_to_wait r \<longleftrightarrow> \<not> r_closed r \<and> awp_ring_depth r \<ge> ucast (r_capacity r)"

definition empty_to_wait :: "awp_ring \<Rightarrow> bool" where
  "empty_to_wait r \<longleftrightarrow> \<not> r_closed r \<and> awp_ring_depth r = 0"

partial_function (option) wait_loop ::
  "(awp_ring \<Rightarrow> bool) \<Rightarrow> ring_env \<Rightarrow> nat \<Rightarrow> nat \<Rightarrow> awp_ring \<Rightarrow> (nat \<times> awp_ring) option" where
  "wait_loop must_wait E me t r =
     (if must_wait r
      then do { (t', r') \<leftarrow> cond_park E me t (r\<lparr>r_cv := me # r_cv r\<rparr>);
                wait_loop must_wait E me t' r' }
      else Some (t, r))"

definition awp_ring_wait_space ::
  "ring_env \<Rightarrow> nat \<Rightarrow> nat \<Rightarrow> awp_ring \<Rightarrow> (nat \<times> awp_ring) option" where
  "awp_ring_wait_space E me t r =
     do { (t', r') \<leftarrow> wait_loop full_to_wait E me t (r\<lparr>r_waiters := r_waiters r + 1\<rparr>);
          Some (t', r'\<lparr>r_waiters := r_waiters r' - 1\<rparr>) }"

definition awp_ring_wait_data ::
  "ring_env \<Rightarrow> nat \<Rightarrow> nat \<Rightarrow> awp_ring \<Rightarrow> (nat \<times> awp_ring) option" where
  "awp_ring_wait_data E me t r =
     do { (t', r') \<leftarrow> wait_loop empty_to_wait E me t (r\<lparr>r_waiters := r_waiters r + 1\<rparr>);
          Some (t', r'\<lparr>r_waiters := r_waiters r' - 1\<rparr>) }"

section \<open>Construction and teardown\<close>

text \<open>
  The outcome of the allocator and of the pthread initialisers is an argument: for each
  array whether \<open>posix_memalign\<close> and, where it is tried, \<open>calloc\<close> succeed, and the block the
  frame slab gets.
\<close>

record ring_alloc =
  a_cells_memalign :: bool
  a_cells_calloc :: bool
  a_frames_memalign :: bool
  a_frames_calloc :: bool
  a_base :: nat
  a_mutex :: bool
  a_cond :: bool

definition init_cells :: "nat \<Rightarrow> nat \<Rightarrow> awp_cell list" where
  "init_cells base cap =
     map (\<lambda>i. \<lparr>c_sequence = of_nat i, c_data = Some (FramePtr base i)\<rparr>) [0..<cap]"

definition ring_alloc_cells :: "ring_alloc \<Rightarrow> awp_ring \<Rightarrow> u32 \<Rightarrow> int \<times> awp_ring" where
  "ring_alloc_cells A r capacity =
     (let cap = awp_round_up_pow2 capacity
      in if cap = 0 then (- EINVAL, r)
         else if \<not> a_cells_memalign A \<and> \<not> a_cells_calloc A then (- ENOMEM, r\<lparr>r_cells := []\<rparr>)
         else if \<not> a_frames_memalign A \<and> \<not> a_frames_calloc A
           then (- ENOMEM, r\<lparr>r_cells := [], r_frames := []\<rparr>)
         else (0, r\<lparr>r_frames := replicate (unat cap) zero_frame, r_base := a_base A,
                   r_capacity := ucast cap, r_mask := ucast (cap - 1),
                   r_enqueue_pos := 0, r_dequeue_pos := 0, r_closed := False, r_waiters := 0,
                   r_cells := init_cells (a_base A) (unat cap)\<rparr>))"

definition zero_ring :: awp_ring where
  "zero_ring =
     \<lparr>r_enqueue_pos = 0, r_dequeue_pos = 0, r_cells = [], r_frames = [], r_base = 0,
      r_capacity = 0, r_mask = 0, r_mode = AWP_RING_SPSC, r_closed = False, r_waiters = 0,
      r_cv = []\<rparr>"

definition awp_ring_init ::
  "ring_alloc \<Rightarrow> awp_ring option \<Rightarrow> u32 \<Rightarrow> awp_ring_mode \<Rightarrow> int \<times> awp_ring option" where
  "awp_ring_init A ro capacity mode =
     (case ro of
        None \<Rightarrow> (- EINVAL, None)
      | Some r0 \<Rightarrow>
          if capacity < 1 then (- EINVAL, Some r0)
          else if mode = AWP_RING_OTHER then (- EINVAL, Some r0)
          else
            let r = zero_ring\<lparr>r_mode := mode\<rparr>
            in if \<not> a_mutex A then (- ENOMEM, Some r)
               else if \<not> a_cond A then (- ENOMEM, Some r)
               else let (rc, r') = ring_alloc_cells A r capacity in (rc, Some r'))"

definition awp_ring_destroy :: "awp_ring \<Rightarrow> awp_ring" where
  "awp_ring_destroy r = r\<lparr>r_frames := [], r_cells := []\<rparr>"

definition awp_ring_close :: "awp_ring \<Rightarrow> awp_ring" where
  "awp_ring_close r = awp_ring_wake_all (r\<lparr>r_closed := True\<rparr>)"

definition awp_ring_reopen :: "awp_ring \<Rightarrow> awp_ring" where
  "awp_ring_reopen r = awp_ring_wake_all (r\<lparr>r_closed := False\<rparr>)"

section \<open>Push\<close>

text \<open>What one pass of a blocking loop ends with: a return code, a full or empty ring, or a
  reason to try again at once.\<close>

datatype pass = Return int | Wait | Again

definition push_sp_pass :: "frame_ptr \<Rightarrow> bool \<Rightarrow> awp_ring \<Rightarrow> pass \<times> awp_ring" where
  "push_sp_pass frame cas r =
     (if r_closed r then (Return (- 1), r)
      else
        let pos = r_enqueue_pos r;
            dif = seq_dif (c_sequence (ring_cell r pos)) pos
        in if dif = 0
           then let r = set_cell r pos ((ring_cell r pos)\<lparr>c_data := Some frame, c_sequence := pos + 1\<rparr>);
                    r = r\<lparr>r_enqueue_pos := pos + 1\<rparr>
                in (Return 0, awp_ring_wake_if_needed r)
           else if dif < 0 then (Wait, r) else (Again, r))"

definition push_mp_pass :: "frame_ptr \<Rightarrow> bool \<Rightarrow> awp_ring \<Rightarrow> pass \<times> awp_ring" where
  "push_mp_pass frame cas r =
     (if r_closed r then (Return (- 1), r)
      else
        let pos = r_enqueue_pos r;
            dif = seq_dif (c_sequence (ring_cell r pos)) pos
        in if dif = 0
           then if cas
                then let r = r\<lparr>r_enqueue_pos := pos + 1\<rparr>;
                         r = set_cell r pos
                               ((ring_cell r pos)\<lparr>c_data := Some frame, c_sequence := pos + 1\<rparr>)
                     in (Return 0, awp_ring_wake_if_needed r)
                else (Again, r)
           else if dif < 0 then (Wait, r) else (Again, r))"

partial_function (option) push_loop ::
  "(bool \<Rightarrow> awp_ring \<Rightarrow> pass \<times> awp_ring) \<Rightarrow> ring_env \<Rightarrow> nat \<Rightarrow> nat \<Rightarrow> nat \<Rightarrow> u64 option \<Rightarrow> awp_ring
     \<Rightarrow> (int \<times> u64 \<times> nat \<times> awp_ring) option" where
  "push_loop one_pass E me spin t t0 r0 =
     (case one_pass (e_cas E t) (e_act E t r0) of
        (Return rc, r) \<Rightarrow>
          Some (rc, (case t0 of None \<Rightarrow> 0 | Some s \<Rightarrow> e_clk E t - s), Suc t, r)
      | (Wait, r) \<Rightarrow>
          let t0' = (case t0 of None \<Rightarrow> Some (e_clk E t) | Some s \<Rightarrow> Some s)
          in if spin < AWP_SPIN_BUDGET
             then push_loop one_pass E me (Suc spin) (Suc t) t0' r
             else do { (t', r') \<leftarrow> awp_ring_wait_space E me (Suc t) r;
                       push_loop one_pass E me 0 t' t0' r' }
      | (Again, r) \<Rightarrow> push_loop one_pass E me spin (Suc t) t0 r)"

definition push_sp ::
  "ring_env \<Rightarrow> nat \<Rightarrow> frame_ptr \<Rightarrow> nat \<Rightarrow> awp_ring \<Rightarrow> (int \<times> u64 \<times> nat \<times> awp_ring) option" where
  "push_sp E me frame t r = push_loop (push_sp_pass frame) E me 0 t None r"

definition push_mp ::
  "ring_env \<Rightarrow> nat \<Rightarrow> frame_ptr \<Rightarrow> nat \<Rightarrow> awp_ring \<Rightarrow> (int \<times> u64 \<times> nat \<times> awp_ring) option" where
  "push_mp E me frame t r = push_loop (push_mp_pass frame) E me 0 t None r"

definition awp_ring_push ::
  "ring_env \<Rightarrow> nat \<Rightarrow> nat \<Rightarrow> awp_ring option \<Rightarrow> frame_ptr option
     \<Rightarrow> (int \<times> u64 \<times> nat \<times> awp_ring option) option" where
  "awp_ring_push E me t ro fo =
     (case (ro, fo) of
        (Some r, Some f) \<Rightarrow>
          (case r_mode r of
             AWP_RING_SPSC \<Rightarrow> map_option (\<lambda>(rc, b, t, r). (rc, b, t, Some r)) (push_sp E me f t r)
           | AWP_RING_SPMC \<Rightarrow> map_option (\<lambda>(rc, b, t, r). (rc, b, t, Some r)) (push_sp E me f t r)
           | AWP_RING_MPSC \<Rightarrow> map_option (\<lambda>(rc, b, t, r). (rc, b, t, Some r)) (push_mp E me f t r)
           | AWP_RING_MPMC \<Rightarrow> map_option (\<lambda>(rc, b, t, r). (rc, b, t, Some r)) (push_mp E me f t r)
           | AWP_RING_OTHER \<Rightarrow> Some (- EINVAL, 0, t, ro))
      | _ \<Rightarrow> Some (- EINVAL, 0, t, ro))"

definition try_push_sp :: "awp_ring \<Rightarrow> frame_ptr \<Rightarrow> int \<times> awp_ring" where
  "try_push_sp r frame =
     (if r_closed r then (- 1, r)
      else
        let pos = r_enqueue_pos r;
            dif = seq_dif (c_sequence (ring_cell r pos)) pos
        in if dif = 0
           then let r = set_cell r pos ((ring_cell r pos)\<lparr>c_data := Some frame, c_sequence := pos + 1\<rparr>);
                    r = r\<lparr>r_enqueue_pos := pos + 1\<rparr>
                in (0, awp_ring_wake_if_needed r)
           else (- EAGAIN, r))"

definition try_push_mp :: "bool \<Rightarrow> awp_ring \<Rightarrow> frame_ptr \<Rightarrow> int \<times> awp_ring" where
  "try_push_mp cas r frame =
     (if r_closed r then (- 1, r)
      else
        let pos = r_enqueue_pos r;
            dif = seq_dif (c_sequence (ring_cell r pos)) pos
        in if dif = 0
           then if cas
                then let r = r\<lparr>r_enqueue_pos := pos + 1\<rparr>;
                         r = set_cell r pos
                               ((ring_cell r pos)\<lparr>c_data := Some frame, c_sequence := pos + 1\<rparr>)
                     in (0, awp_ring_wake_if_needed r)
                else (- EAGAIN, r)
           else (- EAGAIN, r))"

definition awp_ring_try_push ::
  "bool \<Rightarrow> awp_ring option \<Rightarrow> frame_ptr option \<Rightarrow> int \<times> awp_ring option" where
  "awp_ring_try_push cas ro fo =
     (case (ro, fo) of
        (Some r, Some f) \<Rightarrow>
          (case r_mode r of
             AWP_RING_SPSC \<Rightarrow> map_prod id Some (try_push_sp r f)
           | AWP_RING_SPMC \<Rightarrow> map_prod id Some (try_push_sp r f)
           | AWP_RING_MPSC \<Rightarrow> map_prod id Some (try_push_mp cas r f)
           | AWP_RING_MPMC \<Rightarrow> map_prod id Some (try_push_mp cas r f)
           | AWP_RING_OTHER \<Rightarrow> (- EINVAL, ro))
      | _ \<Rightarrow> (- EINVAL, ro))"

section \<open>Pop\<close>

text \<open>
  On an empty closed ring the code reads the cell's sequence a second time; \<open>act\<close> is what the
  other threads did between the two reads.
\<close>

definition pop_sc_pass ::
  "(awp_ring \<Rightarrow> awp_ring) \<Rightarrow> bool \<Rightarrow> awp_ring \<Rightarrow> pass \<times> frame_ptr option \<times> awp_ring" where
  "pop_sc_pass act cas r =
     (let pos = r_dequeue_pos r;
          dif = seq_dif (c_sequence (ring_cell r pos)) (pos + 1)
      in if dif = 0
         then let out = c_data (ring_cell r pos);
                  r = r\<lparr>r_dequeue_pos := pos + 1\<rparr>;
                  r = set_cell r pos
                        ((ring_cell r pos)\<lparr>c_data := None, c_sequence := pos + r_capacity r\<rparr>)
              in (Return 0, out, awp_ring_wake_if_needed r)
         else if dif < 0
         then if r_closed r
              then let r = act r
                   in if seq_dif (c_sequence (ring_cell r pos)) (pos + 1) = 0
                      then (Again, None, r) else (Return (- 1), None, r)
              else (Wait, None, r)
         else (Again, None, r))"

definition pop_mc_pass ::
  "(awp_ring \<Rightarrow> awp_ring) \<Rightarrow> bool \<Rightarrow> awp_ring \<Rightarrow> pass \<times> frame_ptr option \<times> awp_ring" where
  "pop_mc_pass act cas r =
     (let pos = r_dequeue_pos r;
          dif = seq_dif (c_sequence (ring_cell r pos)) (pos + 1)
      in if dif = 0
         then if cas
              then let r = r\<lparr>r_dequeue_pos := pos + 1\<rparr>;
                       out = c_data (ring_cell r pos);
                       r = set_cell r pos
                             ((ring_cell r pos)\<lparr>c_data := None, c_sequence := pos + r_capacity r\<rparr>)
                   in (Return 0, out, awp_ring_wake_if_needed r)
              else (Again, None, r)
         else if dif < 0
         then if r_closed r
              then let r = act r
                   in if seq_dif (c_sequence (ring_cell r pos)) (pos + 1) = 0
                      then (Again, None, r) else (Return (- 1), None, r)
              else (Wait, None, r)
         else (Again, None, r))"

partial_function (option) pop_loop ::
  "((awp_ring \<Rightarrow> awp_ring) \<Rightarrow> bool \<Rightarrow> awp_ring \<Rightarrow> pass \<times> frame_ptr option \<times> awp_ring)
     \<Rightarrow> ring_env \<Rightarrow> nat \<Rightarrow> nat \<Rightarrow> nat \<Rightarrow> awp_ring
     \<Rightarrow> (int \<times> frame_ptr option \<times> nat \<times> awp_ring) option" where
  "pop_loop one_pass E me spin t r0 =
     (case one_pass (e_act E (Suc t)) (e_cas E t) (e_act E t r0) of
        (Return rc, out, r) \<Rightarrow> Some (rc, out, t + 2, r)
      | (Wait, _, r) \<Rightarrow>
          if spin < AWP_SPIN_BUDGET
          then pop_loop one_pass E me (Suc spin) (t + 2) r
          else do { (t', r') \<leftarrow> awp_ring_wait_data E me (t + 2) r;
                    pop_loop one_pass E me 0 t' r' }
      | (Again, _, r) \<Rightarrow> pop_loop one_pass E me spin (t + 2) r)"

definition pop_sc ::
  "ring_env \<Rightarrow> nat \<Rightarrow> nat \<Rightarrow> awp_ring \<Rightarrow> (int \<times> frame_ptr option \<times> nat \<times> awp_ring) option" where
  "pop_sc E me t r = pop_loop pop_sc_pass E me 0 t r"

definition pop_mc ::
  "ring_env \<Rightarrow> nat \<Rightarrow> nat \<Rightarrow> awp_ring \<Rightarrow> (int \<times> frame_ptr option \<times> nat \<times> awp_ring) option" where
  "pop_mc E me t r = pop_loop pop_mc_pass E me 0 t r"

text \<open>\<open>out_ok\<close>: the caller passed a place for the result.\<close>

definition awp_ring_pop ::
  "ring_env \<Rightarrow> nat \<Rightarrow> nat \<Rightarrow> awp_ring option \<Rightarrow> bool
     \<Rightarrow> (int \<times> frame_ptr option \<times> nat \<times> awp_ring option) option" where
  "awp_ring_pop E me t ro out_ok =
     (case ro of
        None \<Rightarrow> Some (- EINVAL, None, t, None)
      | Some r \<Rightarrow>
          if \<not> out_ok then Some (- EINVAL, None, t, ro)
          else
            (case r_mode r of
               AWP_RING_SPSC \<Rightarrow> map_option (\<lambda>(rc, f, t, r). (rc, f, t, Some r)) (pop_sc E me t r)
             | AWP_RING_MPSC \<Rightarrow> map_option (\<lambda>(rc, f, t, r). (rc, f, t, Some r)) (pop_sc E me t r)
             | AWP_RING_SPMC \<Rightarrow> map_option (\<lambda>(rc, f, t, r). (rc, f, t, Some r)) (pop_mc E me t r)
             | AWP_RING_MPMC \<Rightarrow> map_option (\<lambda>(rc, f, t, r). (rc, f, t, Some r)) (pop_mc E me t r)
             | AWP_RING_OTHER \<Rightarrow> Some (- EINVAL, None, t, ro)))"

end
