(* ===== verification/Ring_Spec.thy ===== *)
theory Ring_Spec
  imports Ring
begin

text \<open>
  What the ring operations of theory \<open>Ring\<close> compute. \<open>ring_ok\<close> is the invariant of a ring,
  \<open>ring_abs\<close> its abstract slot list; the locale \<open>slot_fifo\<close> is the bounded queue the ring
  implements and is interpreted on the ring's own operations. The properties cover every
  branch of construction, push, pop and depth, the absence of drops under arbitrary
  interference, and the release of a blocked producer.
\<close>

section \<open>Invariant and abstract state\<close>

definition ring_geom :: "awp_ring \<Rightarrow> bool" where
  "ring_geom r \<longleftrightarrow>
     (\<exists>k. 1 \<le> k \<and> k \<le> 24 \<and> r_capacity r = 2 ^ k \<and> r_mask r = 2 ^ k - 1
        \<and> length (r_cells r) = 2 ^ k)"

definition ring_cap :: "awp_ring \<Rightarrow> nat" where
  "ring_cap r = unat (r_capacity r)"

definition ring_len :: "awp_ring \<Rightarrow> nat" where
  "ring_len r = unat (r_enqueue_pos r - r_dequeue_pos r)"

definition ring_pos :: "awp_ring \<Rightarrow> nat \<Rightarrow> u64" where
  "ring_pos r j = r_dequeue_pos r + of_nat j"

definition cell_ok :: "awp_ring \<Rightarrow> nat \<Rightarrow> bool" where
  "cell_ok r j \<longleftrightarrow>
     (let p = ring_pos r j; c = ring_cell r p
      in c_sequence c = p \<or> (j < ring_len r \<and> c_sequence c = p + 1 \<and> c_data c \<noteq> None))"

definition ring_ok :: "awp_ring \<Rightarrow> bool" where
  "ring_ok r \<longleftrightarrow> ring_geom r \<and> ring_len r \<le> ring_cap r \<and> (\<forall>j<ring_cap r. cell_ok r j)"

definition slot :: "awp_ring \<Rightarrow> nat \<Rightarrow> frame_ptr option" where
  "slot r j =
     (let p = ring_pos r j; c = ring_cell r p
      in if c_sequence c = p + 1 then c_data c else None)"

definition ring_abs :: "awp_ring \<Rightarrow> frame_ptr option list" where
  "ring_abs r = map (slot r) [0..<ring_len r]"

lemma length_ring_abs [simp]: "length (ring_abs r) = ring_len r"
  by (simp add: ring_abs_def)

lemma nth_ring_abs: "j < ring_len r \<Longrightarrow> ring_abs r ! j = slot r j"
  by (simp add: ring_abs_def)

lemma unat_pow2_64: "k < 64 \<Longrightarrow> unat (2 ^ k :: u64) = 2 ^ k"
  using unat_of_nat_small64 [of "2 ^ k"] power_strict_increasing [of k 64 "2 :: nat"] by simp

lemma ring_geomE:
  assumes "ring_geom r"
  obtains k where "1 \<le> k" "k \<le> 24" "r_capacity r = 2 ^ k" "r_mask r = 2 ^ k - 1"
    "length (r_cells r) = 2 ^ k" "ring_cap r = 2 ^ k"
proof -
  obtain k where "1 \<le> k" "k \<le> 24" "r_capacity r = 2 ^ k" "r_mask r = 2 ^ k - 1"
    "length (r_cells r) = 2 ^ k"
    using assms by (auto simp: ring_geom_def)
  with that [of k] show thesis by (simp add: ring_cap_def unat_pow2_64)
qed

lemma ring_cap_bounds:
  assumes "ring_geom r"
  shows "2 \<le> ring_cap r" and "ring_cap r \<le> 2 ^ 24" and "length (r_cells r) = ring_cap r"
    and "ring_cap r dvd 2 ^ 64"
proof -
  obtain k where k: "1 \<le> k" "k \<le> 24" "length (r_cells r) = 2 ^ k" "ring_cap r = 2 ^ k"
    using ring_geomE [OF assms] by metis
  show "2 \<le> ring_cap r" using k power_increasing [of 1 k "2 :: nat"] by simp
  show "ring_cap r \<le> 2 ^ 24" using k power_increasing [of k 24 "2 :: nat"] by simp
  show "length (r_cells r) = ring_cap r" using k by simp
  show "ring_cap r dvd 2 ^ 64" using k le_imp_power_dvd [of k 64 "2 :: nat"] by simp
qed

lemma ring_index_mod:
  assumes "ring_geom r"
  shows "ring_index r p = unat p mod ring_cap r"
  using ring_geomE [OF assms] unat_and_mask64 by (metis ring_index_def)

lemma ring_index_add:
  assumes "ring_geom r"
  shows "ring_index r (p + of_nat j) = (unat p + j) mod ring_cap r"
proof -
  have d: "ring_cap r dvd 2 ^ 64" by (rule ring_cap_bounds [OF assms])
  have "unat (p + of_nat j) = (unat p + j) mod 2 ^ 64"
    by (simp add: unat_word_ariths unat_of_nat take_bit_nat_def mod_simps)
  then show ?thesis
    using d by (simp add: ring_index_mod [OF assms] mod_mod_cancel)
qed

lemma ring_index_inj:
  assumes "ring_geom r" and "i < ring_cap r" and "j < ring_cap r"
  shows "ring_index r (ring_pos r i) = ring_index r (ring_pos r j) \<longleftrightarrow> i = j"
proof
  assume "ring_index r (ring_pos r i) = ring_index r (ring_pos r j)"
  then have "(unat (r_dequeue_pos r) + i) mod ring_cap r = (unat (r_dequeue_pos r) + j) mod ring_cap r"
    by (simp add: ring_pos_def ring_index_add [OF assms(1)])
  then have "unat (r_dequeue_pos r) + i = unat (r_dequeue_pos r) + j"
    by (rule cong_window) (use assms(2,3) in auto)
  then show "i = j" by simp
qed simp

lemma ring_index_less: "ring_geom r \<Longrightarrow> ring_index r p < length (r_cells r)"
  using ring_cap_bounds [of r] by (simp add: ring_index_mod)

lemma ring_index_wrap: "ring_geom r \<Longrightarrow> ring_index r (p + r_capacity r) = ring_index r p"
  using ring_index_add [of r p "ring_cap r"] ring_index_add [of r p 0]
  by (simp add: ring_cap_def)

lemma enqueue_pos_eq: "r_enqueue_pos r = ring_pos r (ring_len r)"
  by (simp add: ring_pos_def ring_len_def)

lemma ring_cell_set:
  assumes "ring_geom r" and "i < ring_cap r" and "j < ring_cap r"
  shows "ring_cell (set_cell r (ring_pos r j) c) (ring_pos r i)
       = (if i = j then c else ring_cell r (ring_pos r i))"
proof -
  have "ring_index (set_cell r (ring_pos r j) c) (ring_pos r i) = ring_index r (ring_pos r i)"
    by (simp add: ring_index_def set_cell_def)
  then show ?thesis
    using ring_index_inj [OF assms] ring_index_less [OF assms(1)]
    by (auto simp: ring_cell_def set_cell_def)
qed

lemma seq_dif_offset:
  assumes "a \<le> 2 ^ 62" and "b \<le> 2 ^ 62"
  shows "seq_dif (p + of_nat a) (p + of_nat b) = int a - int b"
proof -
  have ab: "int a \<le> 2 ^ 62" "int b \<le> 2 ^ 62" using assms by simp_all
  have "p + of_nat a - (p + of_nat b) = (word_of_int (int a - int b) :: u64)"
    by simp
  then have "seq_dif (p + of_nat a) (p + of_nat b) = sint (word_of_int (int a - int b) :: u64)"
    by (simp only: seq_dif_def)
  also have "\<dots> = signed_take_bit 63 (int a - int b)"
    by (subst signed_of_int) simp
  also have "\<dots> = int a - int b"
    by (rule signed_take_bit_int_eq_self) (use ab in auto)
  finally show ?thesis .
qed

lemma enq_cell_free:
  assumes "ring_ok r" and "ring_len r < ring_cap r"
  shows "c_sequence (ring_cell r (r_enqueue_pos r)) = r_enqueue_pos r"
  using assms unfolding enqueue_pos_eq ring_ok_def cell_ok_def by (auto simp: Let_def)

lemma enq_cell_full:
  assumes "ring_ok r" and "ring_len r = ring_cap r"
  shows "seq_dif (c_sequence (ring_cell r (r_enqueue_pos r))) (r_enqueue_pos r) < 0"
proof -
  have g: "ring_geom r" and c0: "cell_ok r 0"
    using assms ring_cap_bounds(1) [of r] by (auto simp: ring_ok_def)
  have b: "2 \<le> ring_cap r" "ring_cap r \<le> 2 ^ 24" using ring_cap_bounds [OF g] by auto
  have e: "r_enqueue_pos r = r_dequeue_pos r + of_nat (ring_cap r)"
    using assms(2) by (simp add: enqueue_pos_eq ring_pos_def)
  have "ring_cell r (r_enqueue_pos r) = ring_cell r (ring_pos r 0)"
    using ring_index_add [OF g, of "r_dequeue_pos r" "ring_cap r"]
      ring_index_add [OF g, of "r_dequeue_pos r" 0]
    by (simp add: ring_cell_def e ring_pos_def)
  then have "c_sequence (ring_cell r (r_enqueue_pos r)) = r_dequeue_pos r + of_nat 0
      \<or> c_sequence (ring_cell r (r_enqueue_pos r)) = r_dequeue_pos r + of_nat 1"
    using c0 by (auto simp: cell_ok_def ring_pos_def Let_def)
  then show ?thesis
    unfolding e using b seq_dif_offset [of 0 "ring_cap r"] seq_dif_offset [of 1 "ring_cap r"]
    by (elim disjE) simp_all
qed

text \<open>The cell at the dequeue position is ready exactly when the oldest slot is published.\<close>

lemma deq_cell:
  assumes "ring_ok r"
  shows "case ring_abs r of
           Some f # _ \<Rightarrow> c_sequence (ring_cell r (r_dequeue_pos r)) = r_dequeue_pos r + 1
                      \<and> c_data (ring_cell r (r_dequeue_pos r)) = Some f
         | _ \<Rightarrow> seq_dif (c_sequence (ring_cell r (r_dequeue_pos r))) (r_dequeue_pos r + 1) < 0"
proof -
  have c0: "cell_ok r 0"
    using assms ring_cap_bounds(1) [of r] by (auto simp: ring_ok_def)
  have neg: "seq_dif (r_dequeue_pos r) (r_dequeue_pos r + 1) < 0"
    using seq_dif_offset [of 0 1 "r_dequeue_pos r"] by simp
  show ?thesis
  proof (cases "ring_len r")
    case 0
    then show ?thesis
      using c0 neg by (auto simp: ring_abs_def cell_ok_def ring_pos_def Let_def)
  next
    case (Suc n)
    then have "ring_abs r = slot r 0 # map (slot r) [1..<Suc n]"
      by (simp add: ring_abs_def upt_conv_Cons del: upt_Suc)
    then show ?thesis
      using c0 neg Suc
      by (auto simp: cell_ok_def slot_def ring_pos_def Let_def split: option.splits)
  qed
qed

subsection \<open>Effect of the primitive updates\<close>

lemma ring_pos_enq [simp]:
  "ring_pos (r\<lparr>r_enqueue_pos := e\<rparr>) j = ring_pos r j"
  "ring_pos (set_cell r p c) j = ring_pos r j"
  by (simp_all add: ring_pos_def set_cell_def)

lemma ring_cell_enq [simp]: "ring_cell (r\<lparr>r_enqueue_pos := e\<rparr>) p = ring_cell r p"
  by (simp add: ring_cell_def ring_index_def)

definition reserve :: "awp_ring \<Rightarrow> awp_ring" where
  "reserve r = r\<lparr>r_enqueue_pos := r_enqueue_pos r + 1\<rparr>"

definition publish :: "awp_ring \<Rightarrow> u64 \<Rightarrow> frame_ptr \<Rightarrow> awp_ring" where
  "publish r pos f = set_cell r pos ((ring_cell r pos)\<lparr>c_data := Some f, c_sequence := pos + 1\<rparr>)"

definition release_cell :: "awp_ring \<Rightarrow> awp_ring" where
  "release_cell r =
     (let pos = r_dequeue_pos r
      in set_cell (r\<lparr>r_dequeue_pos := pos + 1\<rparr>) pos
           ((ring_cell r pos)\<lparr>c_data := None, c_sequence := pos + r_capacity r\<rparr>))"

lemma ring_len_reserve:
  assumes "ring_ok r" and "ring_len r < ring_cap r"
  shows "ring_len (reserve r) = Suc (ring_len r)"
proof -
  have "ring_cap r \<le> 2 ^ 24" using assms ring_cap_bounds by (auto simp: ring_ok_def)
  then have "Suc (ring_len r) < 2 ^ 64" using assms(2) by simp
  moreover have "r_enqueue_pos r + 1 - r_dequeue_pos r = of_nat (Suc (ring_len r))"
    by (simp add: ring_len_def)
  ultimately show ?thesis
    by (simp add: reserve_def ring_len_def del: of_nat_Suc)
qed

lemma reserve_fields [simp]:
  "ring_geom (reserve r) = ring_geom r" "ring_cap (reserve r) = ring_cap r"
  "ring_pos (reserve r) j = ring_pos r j" "ring_cell (reserve r) p = ring_cell r p"
  "slot (reserve r) j = slot r j" "r_dequeue_pos (reserve r) = r_dequeue_pos r"
  "r_closed (reserve r) = r_closed r" "r_mode (reserve r) = r_mode r"
  by (simp_all add: reserve_def ring_geom_def ring_cap_def slot_def)

lemma ring_ok_reserve [inv_intros]:
  assumes "ring_ok r" and "ring_len r < ring_cap r"
  shows "ring_ok (reserve r)"
  using assms ring_len_reserve [OF assms] by (auto simp: ring_ok_def cell_ok_def Let_def)

lemma ring_abs_reserve:
  assumes "ring_ok r" and "ring_len r < ring_cap r"
  shows "ring_abs (reserve r) = ring_abs r @ [None]"
proof -
  have "slot r (ring_len r) = None"
    using enq_cell_free [OF assms] unfolding enqueue_pos_eq by (simp add: slot_def)
  then show ?thesis by (simp add: ring_abs_def ring_len_reserve [OF assms])
qed

lemma set_cell_fields [simp]:
  "ring_geom (set_cell r p c) = ring_geom r" "ring_cap (set_cell r p c) = ring_cap r"
  "ring_len (set_cell r p c) = ring_len r" "r_enqueue_pos (set_cell r p c) = r_enqueue_pos r"
  "r_dequeue_pos (set_cell r p c) = r_dequeue_pos r" "r_closed (set_cell r p c) = r_closed r"
  by (simp_all add: set_cell_def ring_geom_def ring_cap_def ring_len_def)

lemma publish_fields [simp]:
  "ring_geom (publish r p f) = ring_geom r" "ring_cap (publish r p f) = ring_cap r"
  "ring_len (publish r p f) = ring_len r" "ring_pos (publish r p f) j = ring_pos r j"
  "r_closed (publish r p f) = r_closed r"
  by (simp_all add: publish_def)

lemma slot_publish:
  assumes "ring_geom r" and "i < ring_cap r" and "j < ring_cap r"
  shows "slot (publish r (ring_pos r j) f) i = (if i = j then Some f else slot r i)"
  using ring_cell_set [OF assms(1) assms(3) assms(3)] ring_cell_set [OF assms]
  by (auto simp: slot_def publish_def Let_def)

lemma ring_ok_publish [inv_intros]:
  assumes "ring_ok r" and "j < ring_len r"
  shows "ring_ok (publish r (ring_pos r j) f)"
proof -
  have g: "ring_geom r" and j: "j < ring_cap r" using assms by (auto simp: ring_ok_def)
  have "cell_ok (publish r (ring_pos r j) f) i" if "i < ring_cap r" for i
    using that assms by (auto simp: ring_ok_def cell_ok_def publish_def Let_def ring_cell_set [OF g that j])
  then show ?thesis using assms by (simp add: ring_ok_def)
qed

lemma ring_abs_publish:
  assumes "ring_ok r" and "j < ring_len r"
  shows "ring_abs (publish r (ring_pos r j) f) = (ring_abs r)[j := Some f]"
proof (rule nth_equalityI)
  fix i assume "i < length (ring_abs (publish r (ring_pos r j) f))"
  then have i: "i < ring_len r" by simp
  then show "ring_abs (publish r (ring_pos r j) f) ! i = (ring_abs r)[j := Some f] ! i"
    using assms by (simp add: nth_ring_abs slot_publish nth_list_update ring_ok_def)
qed simp


lemma release_fields [simp]:
  "ring_geom (release_cell r) = ring_geom r" "ring_cap (release_cell r) = ring_cap r"
  "r_closed (release_cell r) = r_closed r"
  "r_dequeue_pos (release_cell r) = r_dequeue_pos r + 1"
  by (simp_all add: release_cell_def Let_def set_cell_def ring_geom_def ring_cap_def)

lemma ring_pos_release: "ring_pos (release_cell r) j = ring_pos r (Suc j)"
  by (simp add: ring_pos_def algebra_simps)

lemma ring_len_release:
  assumes "0 < ring_len r"
  shows "ring_len (release_cell r) = ring_len r - 1"
proof -
  have "r_enqueue_pos (release_cell r) = r_enqueue_pos r"
    by (simp add: release_cell_def Let_def)
  then have "ring_len (release_cell r) = unat (r_enqueue_pos r - r_dequeue_pos r - 1)"
    by (simp add: ring_len_def algebra_simps)
  then show ?thesis
    using assms unat_minus_one [of "r_enqueue_pos r - r_dequeue_pos r"]
    by (cases "r_enqueue_pos r = r_dequeue_pos r") (simp_all add: ring_len_def)
qed

lemma ring_cell_release:
  assumes "ring_geom r" and "j < ring_cap r"
  shows "ring_cell (release_cell r) (ring_pos r (Suc j))
       = (if Suc j = ring_cap r
          then (ring_cell r (r_dequeue_pos r))
                 \<lparr>c_data := None, c_sequence := r_dequeue_pos r + r_capacity r\<rparr>
          else ring_cell r (ring_pos r (Suc j)))"
proof -
  have p0: "r_dequeue_pos r = ring_pos r 0" by (simp add: ring_pos_def)
  have z: "0 < ring_cap r" using assms(2) by simp
  have idx: "ring_index (release_cell r) p = ring_index r p" for p
    by (simp add: ring_index_def release_cell_def Let_def set_cell_def)
  have cells: "r_cells (release_cell r) = (r_cells r)[ring_index r (ring_pos r 0) :=
      (ring_cell r (r_dequeue_pos r))
        \<lparr>c_data := None, c_sequence := r_dequeue_pos r + r_capacity r\<rparr>]"
    by (simp add: release_cell_def Let_def set_cell_def ring_index_def p0 [symmetric])
  show ?thesis
  proof (cases "Suc j = ring_cap r")
    case True
    then have "ring_pos r (Suc j) = ring_pos r 0 + r_capacity r"
      by (simp add: ring_pos_def ring_cap_def)
    then have "ring_index r (ring_pos r (Suc j)) = ring_index r (ring_pos r 0)"
      by (simp add: ring_index_wrap [OF assms(1)])
    then show ?thesis
      using True ring_index_less [OF assms(1)]
      by (simp add: ring_cell_def [of "release_cell r"] idx cells)
  next
    case False
    then have "Suc j < ring_cap r" using assms(2) by simp
    then have "ring_index r (ring_pos r (Suc j)) \<noteq> ring_index r (ring_pos r 0)"
      using ring_index_inj [OF assms(1) _ z, of "Suc j"] by simp
    then show ?thesis
      using False by (simp add: ring_cell_def [of "release_cell r"] idx cells ring_cell_def)
  qed
qed

lemma ring_ok_release [inv_intros]:
  assumes ok: "ring_ok r" and pos: "0 < ring_len r"
  shows "ring_ok (release_cell r)"
proof -
  have g: "ring_geom r" using ok by (simp add: ring_ok_def)
  have "cell_ok (release_cell r) j" if j: "j < ring_cap r" for j
  proof (cases "Suc j = ring_cap r")
    case True
    then have "ring_pos r (Suc j) = r_dequeue_pos r + r_capacity r"
      by (simp add: ring_pos_def ring_cap_def)
    then show ?thesis
      using True unfolding cell_ok_def Let_def ring_pos_release ring_cell_release [OF g j] by simp
  next
    case False
    then have "Suc j < ring_cap r" using j by simp
    then have "cell_ok r (Suc j)" using ok by (simp add: ring_ok_def)
    then show ?thesis
      using False pos
      by (auto simp: cell_ok_def Let_def ring_pos_release ring_cell_release [OF g j] ring_len_release)
  qed
  then show ?thesis
    using ok pos by (auto simp: ring_ok_def ring_len_release)
qed

lemma ring_abs_release:
  assumes ok: "ring_ok r" and pos: "0 < ring_len r"
  shows "ring_abs (release_cell r) = tl (ring_abs r)"
proof (rule nth_equalityI)
  show "length (ring_abs (release_cell r)) = length (tl (ring_abs r))"
    using pos by (simp add: ring_len_release)
  fix j assume "j < length (ring_abs (release_cell r))"
  then have j: "Suc j < ring_len r" using pos by (simp add: ring_len_release)
  have g: "ring_geom r" and jc: "Suc j < ring_cap r" using ok j by (auto simp: ring_ok_def)
  have "slot (release_cell r) j = slot r (Suc j)"
    using jc by (simp add: slot_def Let_def ring_pos_release ring_cell_release [OF g Suc_lessD [OF jc]])
  then show "ring_abs (release_cell r) ! j = tl (ring_abs r) ! j"
    using j pos by (simp add: nth_ring_abs nth_tl ring_len_release)
qed

text \<open>Flags, waiters and the frame slab play no part in the abstract state.\<close>

lemma ring_view [simp]:
  "ring_geom (r\<lparr>r_cv := v\<rparr>) = ring_geom r" "ring_geom (r\<lparr>r_waiters := w\<rparr>) = ring_geom r"
  "ring_geom (r\<lparr>r_closed := b\<rparr>) = ring_geom r" "ring_geom (r\<lparr>r_frames := fs\<rparr>) = ring_geom r"
  "ring_cap (r\<lparr>r_cv := v\<rparr>) = ring_cap r" "ring_cap (r\<lparr>r_waiters := w\<rparr>) = ring_cap r"
  "ring_cap (r\<lparr>r_closed := b\<rparr>) = ring_cap r" "ring_cap (r\<lparr>r_frames := fs\<rparr>) = ring_cap r"
  "ring_len (r\<lparr>r_cv := v\<rparr>) = ring_len r" "ring_len (r\<lparr>r_waiters := w\<rparr>) = ring_len r"
  "ring_len (r\<lparr>r_closed := b\<rparr>) = ring_len r" "ring_len (r\<lparr>r_frames := fs\<rparr>) = ring_len r"
  "ring_pos (r\<lparr>r_cv := v\<rparr>) = ring_pos r" "ring_pos (r\<lparr>r_waiters := w\<rparr>) = ring_pos r"
  "ring_pos (r\<lparr>r_closed := b\<rparr>) = ring_pos r" "ring_pos (r\<lparr>r_frames := fs\<rparr>) = ring_pos r"
  "ring_cell (r\<lparr>r_cv := v\<rparr>) = ring_cell r" "ring_cell (r\<lparr>r_waiters := w\<rparr>) = ring_cell r"
  "ring_cell (r\<lparr>r_closed := b\<rparr>) = ring_cell r" "ring_cell (r\<lparr>r_frames := fs\<rparr>) = ring_cell r"
  by (auto simp: ring_geom_def ring_cap_def ring_len_def ring_pos_def ring_cell_def ring_index_def
      fun_eq_iff)

lemma ring_ok_view [simp]:
  "ring_ok (r\<lparr>r_cv := v\<rparr>) = ring_ok r" "ring_ok (r\<lparr>r_waiters := w\<rparr>) = ring_ok r"
  "ring_ok (r\<lparr>r_closed := b\<rparr>) = ring_ok r" "ring_ok (r\<lparr>r_frames := fs\<rparr>) = ring_ok r"
  "ring_abs (r\<lparr>r_cv := v\<rparr>) = ring_abs r" "ring_abs (r\<lparr>r_waiters := w\<rparr>) = ring_abs r"
  "ring_abs (r\<lparr>r_closed := b\<rparr>) = ring_abs r" "ring_abs (r\<lparr>r_frames := fs\<rparr>) = ring_abs r"
  by (simp_all add: ring_ok_def cell_ok_def ring_abs_def slot_def fun_eq_iff cong: map_cong)

lemma wake_if_needed_view [simp]:
  "ring_ok (awp_ring_wake_if_needed r) = ring_ok r"
  "ring_abs (awp_ring_wake_if_needed r) = ring_abs r"
  "ring_len (awp_ring_wake_if_needed r) = ring_len r"
  "ring_cap (awp_ring_wake_if_needed r) = ring_cap r"
  "r_closed (awp_ring_wake_if_needed r) = r_closed r"
  "r_mode (awp_ring_wake_if_needed r) = r_mode r"
  "r_waiters (awp_ring_wake_if_needed r) = r_waiters r"
  "r_frames (awp_ring_wake_if_needed r) = r_frames r"
  by (simp_all add: awp_ring_wake_if_needed_def)

text \<open>The ring after a successful push and after a successful pop, as every variant of the code
  leaves it.\<close>

definition pushed :: "frame_ptr \<Rightarrow> awp_ring \<Rightarrow> awp_ring" where
  "pushed f r = awp_ring_wake_if_needed (publish (reserve r) (r_enqueue_pos r) f)"

definition popped :: "awp_ring \<Rightarrow> awp_ring" where
  "popped r = awp_ring_wake_if_needed (release_cell r)"

lemma pushed_spec:
  assumes "ring_ok r" and "ring_len r < ring_cap r"
  shows "ring_ok (pushed f r)" and "ring_abs (pushed f r) = ring_abs r @ [Some f]"
    and "ring_len (pushed f r) = Suc (ring_len r)" and "ring_cap (pushed f r) = ring_cap r"
proof -
  have e: "r_enqueue_pos r = ring_pos (reserve r) (ring_len r)"
    by (simp add: enqueue_pos_eq)
  have ok: "ring_ok (reserve r)" and l: "ring_len r < ring_len (reserve r)"
    using assms ring_ok_reserve ring_len_reserve by auto
  show "ring_ok (pushed f r)"
    unfolding pushed_def e by (simp add: ring_ok_publish [OF ok l] del: reserve_fields)
  show "ring_abs (pushed f r) = ring_abs r @ [Some f]"
    unfolding pushed_def e using assms
    by (simp add: ring_abs_publish [OF ok l] ring_abs_reserve list_update_append del: reserve_fields)
  show "ring_len (pushed f r) = Suc (ring_len r)" and "ring_cap (pushed f r) = ring_cap r"
    using assms by (simp_all add: pushed_def ring_len_reserve)
qed

lemma popped_spec:
  assumes "ring_ok r" and "ring_abs r = s # q"
  shows "ring_ok (popped r)" and "ring_abs (popped r) = q"
    and "ring_cap (popped r) = ring_cap r"
proof -
  have l: "0 < ring_len r" using assms(2) length_ring_abs [of r] by simp
  show "ring_ok (popped r)" "ring_abs (popped r) = q" "ring_cap (popped r) = ring_cap r"
    using assms l by (simp_all add: popped_def ring_ok_release ring_abs_release)
qed

lemma pushed_fields [simp]:
  "r_closed (pushed f r) = r_closed r" "r_mode (pushed f r) = r_mode r"
  "r_waiters (pushed f r) = r_waiters r" "r_frames (pushed f r) = r_frames r"
  "r_closed (popped r) = r_closed r" "r_mode (popped r) = r_mode r"
  "r_waiters (popped r) = r_waiters r" "r_frames (popped r) = r_frames r"
  by (simp_all add: pushed_def popped_def publish_def reserve_def release_cell_def set_cell_def Let_def)

subsection \<open>The four push variants\<close>

lemma set_cell_swap:
  "(set_cell r p c)\<lparr>r_enqueue_pos := e\<rparr> = set_cell (r\<lparr>r_enqueue_pos := e\<rparr>) p c"
  by (simp add: set_cell_def ring_index_def)

lemma full_or_room: "ring_ok r \<Longrightarrow> ring_len r = ring_cap r \<or> ring_len r < ring_cap r"
  by (auto simp: ring_ok_def)

lemma push_pass_spec:
  assumes "ring_ok r"
  shows "push_sp_pass f cas r =
      (if r_closed r then (Return (- 1), r)
       else if ring_len r < ring_cap r then (Return 0, pushed f r) else (Wait, r))"
    and "push_mp_pass f cas r =
      (if r_closed r then (Return (- 1), r)
       else if ring_len r < ring_cap r then (if cas then (Return 0, pushed f r) else (Again, r))
       else (Wait, r))"
  using full_or_room [OF assms] enq_cell_free [OF assms] enq_cell_full [OF assms]
  by (auto simp: push_sp_pass_def push_mp_pass_def Let_def pushed_def publish_def reserve_def
      set_cell_swap)

lemma try_push_spec:
  assumes "ring_ok r"
  shows "try_push_sp r f =
      (if r_closed r then (- 1, r)
       else if ring_len r < ring_cap r then (0, pushed f r) else (- EAGAIN, r))"
    and "try_push_mp cas r f =
      (if r_closed r then (- 1, r)
       else if ring_len r < ring_cap r \<and> cas then (0, pushed f r) else (- EAGAIN, r))"
  using full_or_room [OF assms] enq_cell_free [OF assms] enq_cell_full [OF assms]
  by (auto simp: try_push_sp_def try_push_mp_def Let_def pushed_def publish_def reserve_def
      set_cell_swap)

subsection \<open>The two pop variants\<close>

lemma pop_pass_spec:
  assumes "ring_ok r"
  shows "pop_sc_pass act cas r =
      (case ring_abs r of
         Some f # _ \<Rightarrow> (Return 0, Some f, popped r)
       | _ \<Rightarrow> if r_closed r
              then if c_sequence (ring_cell (act r) (r_dequeue_pos r)) = r_dequeue_pos r + 1
                   then (Again, None, act r) else (Return (- 1), None, act r)
              else (Wait, None, r))"
    and "pop_mc_pass act cas r =
      (case ring_abs r of
         Some f # _ \<Rightarrow> if cas then (Return 0, Some f, popped r) else (Again, None, r)
       | _ \<Rightarrow> if r_closed r
              then if c_sequence (ring_cell (act r) (r_dequeue_pos r)) = r_dequeue_pos r + 1
                   then (Again, None, act r) else (Return (- 1), None, act r)
              else (Wait, None, r))"
proof -
  have cell: "ring_cell (r\<lparr>r_dequeue_pos := d\<rparr>) p = ring_cell r p" for d p
    by (simp add: ring_cell_def ring_index_def)
  note deq = deq_cell [OF assms]
  show "pop_sc_pass act cas r =
      (case ring_abs r of
         Some f # _ \<Rightarrow> (Return 0, Some f, popped r)
       | _ \<Rightarrow> if r_closed r
              then if c_sequence (ring_cell (act r) (r_dequeue_pos r)) = r_dequeue_pos r + 1
                   then (Again, None, act r) else (Return (- 1), None, act r)
              else (Wait, None, r))"
    using deq
    by (auto simp: pop_sc_pass_def Let_def popped_def release_cell_def cell split: list.splits option.splits)
  show "pop_mc_pass act cas r =
      (case ring_abs r of
         Some f # _ \<Rightarrow> if cas then (Return 0, Some f, popped r) else (Again, None, r)
       | _ \<Rightarrow> if r_closed r
              then if c_sequence (ring_cell (act r) (r_dequeue_pos r)) = r_dequeue_pos r + 1
                   then (Again, None, act r) else (Return (- 1), None, act r)
              else (Wait, None, r))"
    using deq
    by (auto simp: pop_mc_pass_def Let_def popped_def release_cell_def cell split: list.splits option.splits)
qed

section \<open>The queue a ring promises\<close>

text \<open>
  The interface its clients rely on: a state with a list of slots and a capacity, a push that
  appends a published slot unless the queue is full, and a pop that removes the oldest slot
  once it is published.
\<close>

locale slot_fifo =
  fixes inv :: "'q \<Rightarrow> bool"
    and slots :: "'q \<Rightarrow> 'a option list"
    and cap :: "'q \<Rightarrow> nat"
    and push :: "'a \<Rightarrow> 'q \<Rightarrow> 'q option"
    and pop :: "'q \<Rightarrow> ('a \<times> 'q) option"
  assumes push_law: "inv q \<Longrightarrow>
      (case push x q of
         Some q' \<Rightarrow> inv q' \<and> slots q' = slots q @ [Some x] \<and> cap q' = cap q
       | None \<Rightarrow> length (slots q) = cap q)"
    and pop_law: "inv q \<Longrightarrow>
      (case pop q of
         Some (x, q') \<Rightarrow> inv q' \<and> slots q = Some x # slots q' \<and> cap q' = cap q
       | None \<Rightarrow> slots q = [] \<or> hd (slots q) = None)"
    and bounded: "inv q \<Longrightarrow> length (slots q) \<le> cap q"

fun push_all :: "('a \<Rightarrow> 'q \<Rightarrow> 'q option) \<Rightarrow> 'a list \<Rightarrow> 'q \<Rightarrow> 'q option" where
  "push_all push [] q = Some q"
| "push_all push (x # xs) q = Option.bind (push x q) (push_all push xs)"

fun pop_all :: "('q \<Rightarrow> ('a \<times> 'q) option) \<Rightarrow> nat \<Rightarrow> 'q \<Rightarrow> ('a list \<times> 'q) option" where
  "pop_all pop 0 q = Some ([], q)"
| "pop_all pop (Suc n) q =
     Option.bind (pop q) (\<lambda>(x, q'). map_option (map_prod ((#) x) id) (pop_all pop n q'))"

context slot_fifo
begin

lemma push_all_slots:
  "inv q \<Longrightarrow> push_all push xs q = Some q' \<Longrightarrow>
     inv q' \<and> slots q' = slots q @ map Some xs \<and> cap q' = cap q"
proof (induction xs arbitrary: q)
  case Nil
  then show ?case by simp
next
  case (Cons x xs)
  then obtain p where p: "push x q = Some p" "push_all push xs p = Some q'"
    by (auto simp: bind_eq_Some_conv)
  then have "inv p \<and> slots p = slots q @ [Some x] \<and> cap p = cap q"
    using push_law [OF Cons.prems(1), of x] by simp
  with Cons.IH [of p] p(2) show ?case by simp
qed

lemma push_all_fits:
  "inv q \<Longrightarrow> length (slots q) + length xs \<le> cap q \<Longrightarrow> \<exists>q'. push_all push xs q = Some q'"
proof (induction xs arbitrary: q)
  case Nil
  then show ?case by simp
next
  case (Cons x xs)
  then obtain p where p: "push x q = Some p"
    using push_law [OF Cons.prems(1), of x] by (cases "push x q") auto
  then have "inv p \<and> slots p = slots q @ [Some x] \<and> cap p = cap q"
    using push_law [OF Cons.prems(1), of x] by simp
  with Cons.IH [of p] Cons.prems(2) show ?case by (auto simp: p)
qed

lemma pop_all_prefix:
  "inv q \<Longrightarrow> slots q = map Some xs @ rest \<Longrightarrow>
     \<exists>q'. pop_all pop (length xs) q = Some (xs, q') \<and> inv q' \<and> slots q' = rest \<and> cap q' = cap q"
proof (induction xs arbitrary: q)
  case Nil
  then show ?case by simp
next
  case (Cons x xs)
  then obtain p where "pop q = Some (x, p)" "inv p" "slots p = map Some xs @ rest" "cap p = cap q"
    using pop_law [OF Cons.prems(1)] by (auto split: option.splits)
  with Cons.IH [of p] show ?case by auto
qed

lemma fifo:
  assumes "inv q" and "slots q = map Some old" and "length old + length xs \<le> cap q"
  shows "\<exists>q' q''. push_all push xs q = Some q'
           \<and> pop_all pop (length old + length xs) q' = Some (old @ xs, q'') \<and> slots q'' = []"
proof -
  obtain q' where q': "push_all push xs q = Some q'"
    using push_all_fits [OF assms(1), of xs] assms(2,3) by auto
  then have "inv q'" and "slots q' = map Some (old @ xs) @ []"
    using push_all_slots [OF assms(1) q'] assms(2) by auto
  from pop_all_prefix [OF this] q' show ?thesis by auto
qed

end

text \<open>The ring's own operations in that shape: a push or pop that is not possible now is \<^term>\<open>None\<close>.\<close>

definition ring_push_now :: "frame_ptr \<Rightarrow> awp_ring \<Rightarrow> awp_ring option" where
  "ring_push_now f r =
     (case awp_ring_try_push True (Some r) (Some f) of (rc, ro) \<Rightarrow> if rc = 0 then ro else None)"

definition ring_pop_now :: "awp_ring \<Rightarrow> (frame_ptr \<times> awp_ring) option" where
  "ring_pop_now r =
     (case (if r_mode r = AWP_RING_SPSC \<or> r_mode r = AWP_RING_MPSC
            then pop_sc_pass id True r else pop_mc_pass id True r) of
        (Return rc, Some f, r') \<Rightarrow> if rc = 0 then Some (f, r') else None
      | _ \<Rightarrow> None)"

definition open_ring :: "awp_ring \<Rightarrow> bool" where
  "open_ring r \<longleftrightarrow> ring_ok r \<and> \<not> r_closed r \<and> r_mode r \<noteq> AWP_RING_OTHER"

lemma ring_push_now_eq:
  "open_ring r \<Longrightarrow>
     ring_push_now f r = (if ring_len r < ring_cap r then Some (pushed f r) else None)"
  by (cases "r_mode r")
    (simp_all add: open_ring_def ring_push_now_def awp_ring_try_push_def try_push_spec errno_defs)

lemma ring_pop_now_eq:
  "ring_ok r \<Longrightarrow>
     ring_pop_now r = (case ring_abs r of Some f # _ \<Rightarrow> Some (f, popped r) | _ \<Rightarrow> None)"
  by (auto simp: ring_pop_now_def pop_pass_spec split: list.splits option.splits)

interpretation rq: slot_fifo open_ring ring_abs ring_cap ring_push_now ring_pop_now
proof unfold_locales
  fix r :: awp_ring and f :: frame_ptr
  assume r: "open_ring r"
  then have ok: "ring_ok r" by (simp add: open_ring_def)
  show "case ring_push_now f r of
          Some q' \<Rightarrow> open_ring q' \<and> ring_abs q' = ring_abs r @ [Some f] \<and> ring_cap q' = ring_cap r
        | None \<Rightarrow> length (ring_abs r) = ring_cap r"
    using r full_or_room [OF ok] pushed_spec [OF ok]
    by (auto simp: ring_push_now_eq open_ring_def)
  show "case ring_pop_now r of
          Some (x, q') \<Rightarrow> open_ring q' \<and> ring_abs r = Some x # ring_abs q' \<and> ring_cap q' = ring_cap r
        | None \<Rightarrow> ring_abs r = [] \<or> hd (ring_abs r) = None"
    using r popped_spec [OF ok]
    by (auto simp: ring_pop_now_eq open_ring_def split: list.splits option.splits)
  show "length (ring_abs r) \<le> ring_cap r"
    using ok by (simp add: ring_ok_def)
qed

section \<open>Properties of the ring operations\<close>

lemma awp_ring_init_ok:
  assumes "awp_ring_init A (Some r0) capacity mode = (0, Some r)"
  shows "open_ring r \<and> ring_abs r = [] \<and> ring_cap r = unat (awp_round_up_pow2 capacity)
       \<and> r_mode r = mode \<and> length (r_frames r) = ring_cap r \<and> r_base r = a_base A"
proof -
  define cap where "cap = awp_round_up_pow2 capacity"
  have m: "mode \<noteq> AWP_RING_OTHER" and c0: "cap \<noteq> 0"
    and r: "r = zero_ring\<lparr>r_mode := mode, r_frames := replicate (unat cap) zero_frame,
        r_base := a_base A, r_capacity := ucast cap, r_mask := ucast (cap - 1),
        r_enqueue_pos := 0, r_dequeue_pos := 0, r_closed := False, r_waiters := 0,
        r_cells := init_cells (a_base A) (unat cap)\<rparr>"
    using assms
    by (auto simp: awp_ring_init_def ring_alloc_cells_def cap_def Let_def errno_defs
        split: if_splits)
  obtain k where k: "1 \<le> k" "k \<le> 24" "unat cap = 2 ^ k"
    using round_up_pow2_cases [of capacity] c0 by (auto simp: cap_def split: if_splits)
  have ucap: "ucast cap = (2 ^ k :: u64)"
    using k by (intro unsigned_word_eqI [where 'a = nat]) (simp add: unat_pow2_64)
  have "unat (cap - 1) = 2 ^ k - 1"
    using k unat_minus_one [OF c0] by simp
  then have umask: "ucast (cap - 1) = (2 ^ k - 1 :: u64)"
    using k unat_minus_one [of "2 ^ k :: u64"] unat_pow2_64 [of k]
    by (intro unsigned_word_eqI [where 'a = nat]) (auto simp: unat_ucast_up64)
  have g: "ring_geom r" and cp: "ring_cap r = 2 ^ k"
    using k by (auto simp: r ring_geom_def ring_cap_def ucap umask init_cells_def unat_pow2_64)
  have "cell_ok r j" if "j < ring_cap r" for j
  proof -
    have "ring_index r (of_nat j) = j"
      using ring_index_add [OF g, of 0 j] that by simp
    then have "c_sequence (ring_cell r (ring_pos r j)) = of_nat j"
      using that cp k by (simp add: ring_cell_def ring_pos_def r init_cells_def)
    then show ?thesis by (simp add: cell_ok_def ring_pos_def r)
  qed
  moreover have "ring_len r = 0" by (simp add: ring_len_def r)
  ultimately show ?thesis
    using g m cp k by (simp add: open_ring_def ring_ok_def ring_abs_def r flip: cap_def)
qed

subsection \<open>Blocking loops: what they return\<close>

text \<open>A property of rings that neither the other threads nor the wait bookkeeping disturbs.\<close>

definition undisturbed :: "ring_env \<Rightarrow> (awp_ring \<Rightarrow> bool) \<Rightarrow> bool" where
  "undisturbed E I \<longleftrightarrow>
     (\<forall>t r. I r \<longrightarrow> I (e_act E t r))
     \<and> (\<forall>r v. I r \<longrightarrow> I (r\<lparr>r_cv := v\<rparr>)) \<and> (\<forall>r w. I r \<longrightarrow> I (r\<lparr>r_waiters := w\<rparr>))"

lemma cond_park_inv:
  assumes "cond_park E me t r = Some (t', r')" and "undisturbed E I" and "I r"
  shows "I r'"
proof -
  have "I r \<longrightarrow> I (snd y)" if "cond_park E me t r = Some y" for y
  proof (rule cond_park.raw_induct
      [where P = "\<lambda>E0 me t r y. undisturbed E0 I \<longrightarrow> I r \<longrightarrow> I (snd y)",
        OF _ that, THEN mp, OF _ assms(2)])
    fix loop E0 me t r and y :: "nat \<times> awp_ring"
    assume IH: "\<And>E0 me t r y. loop E0 me t r = Some y \<Longrightarrow> undisturbed E0 I \<longrightarrow> I r \<longrightarrow> I (snd y)"
      and eq: "(if me \<in> set (r_cv r) then loop E0 me (Suc t) (e_act E0 t r) else Some (t, r)) = Some y"
    show "undisturbed E0 I \<longrightarrow> I r \<longrightarrow> I (snd y)"
    proof (intro impI)
      assume u: "undisturbed E0 I" and r: "I r"
      then have "I (e_act E0 t r)" by (simp add: undisturbed_def)
      then show "I (snd y)"
        using eq r u IH by (cases "me \<in> set (r_cv r)") auto
    qed
  qed
  with assms(1,3) show ?thesis by fastforce
qed

lemma wait_loop_inv:
  assumes "wait_loop W E me t r = Some (t', r')" and "undisturbed E I" and "I r"
  shows "I r' \<and> \<not> W r'"
proof -
  have "\<forall>t' r'. y = (t', r') \<longrightarrow> I r \<longrightarrow> I r' \<and> \<not> W r'" if "wait_loop W E me t r = Some y" for y
  proof (rule wait_loop.raw_induct
      [where P = "\<lambda>W E0 me t r y. undisturbed E0 I \<longrightarrow>
          (\<forall>t' r'. y = (t', r') \<longrightarrow> I r \<longrightarrow> I r' \<and> \<not> W r')", OF _ that, THEN mp, OF _ assms(2)])
    fix loop and W :: "awp_ring \<Rightarrow> bool" and E0 me t r and y :: "nat \<times> awp_ring"
    assume IH: "\<And>W E0 me t r y. loop W E0 me t r = Some y \<Longrightarrow> undisturbed E0 I \<longrightarrow>
          (\<forall>t' r'. y = (t', r') \<longrightarrow> I r \<longrightarrow> I r' \<and> \<not> W r')"
      and eq: "(if W r
         then do { (t', r') \<leftarrow> cond_park E0 me t (r\<lparr>r_cv := me # r_cv r\<rparr>); loop W E0 me t' r' }
         else Some (t, r)) = Some y"
    show "undisturbed E0 I \<longrightarrow> (\<forall>t' r'. y = (t', r') \<longrightarrow> I r \<longrightarrow> I r' \<and> \<not> W r')"
    proof (intro impI allI)
      fix t' r' assume u: "undisturbed E0 I" and y: "y = (t', r')" and r: "I r"
      show "I r' \<and> \<not> W r'"
      proof (cases "W r")
        case True
        then obtain t1 r1 where p: "cond_park E0 me t (r\<lparr>r_cv := me # r_cv r\<rparr>) = Some (t1, r1)"
          and l: "loop W E0 me t1 r1 = Some y"
          using eq by (auto simp: bind_eq_Some_conv)
        have "I r1" using cond_park_inv [OF p u] r u by (auto simp: undisturbed_def)
        then show ?thesis using IH [OF l] u y by blast
      qed (use eq y r in auto)
    qed
  qed
  with assms(1,3) show ?thesis by blast
qed

lemma awp_ring_wait_space_inv:
  assumes "awp_ring_wait_space E me t r = Some (t', r')" and "undisturbed E I" and "I r"
  shows "I r'"
proof -
  obtain r1 where w: "wait_loop full_to_wait E me t (r\<lparr>r_waiters := r_waiters r + 1\<rparr>) = Some (t', r1)"
    and r': "r' = r1\<lparr>r_waiters := r_waiters r1 - 1\<rparr>"
    using assms(1) by (auto simp: awp_ring_wait_space_def bind_eq_Some_conv)
  have "I r1" using wait_loop_inv [OF w assms(2)] assms(2,3) by (auto simp: undisturbed_def)
  then show ?thesis using assms(2) r' by (auto simp: undisturbed_def)
qed

lemma push_loop_result:
  assumes "push_loop pp E me spin t t0 r = Some (rc, b, t', r')"
    and "undisturbed E I" and "I r"
    and "\<And>c q. I q \<Longrightarrow> fst (pp c q) = Wait \<or> fst (pp c q) = Again \<Longrightarrow> snd (pp c q) = q"
  shows "\<exists>q c. I q \<and> pp c q = (Return rc, r')"
proof -
  let ?Q = "\<lambda>pp E0. undisturbed E0 I \<and>
    (\<forall>c q. I q \<longrightarrow> (fst (pp c q) = Wait \<or> fst (pp c q) = Again) \<longrightarrow> snd (pp c q) = q)"
  have "I r \<longrightarrow> (\<exists>q c. I q \<and> pp c q = (Return (fst y), snd (snd (snd y))))"
    if "push_loop pp E me spin t t0 r = Some y" for y
  proof (rule push_loop.raw_induct
      [where P = "\<lambda>pp E0 me spin t t0 r y. ?Q pp E0 \<longrightarrow> I r \<longrightarrow>
          (\<exists>q c. I q \<and> pp c q = (Return (fst y), snd (snd (snd y))))", OF _ that, THEN mp])
    show "?Q pp E" using assms(2,4) by blast
  next
    fix loop and pp :: "bool \<Rightarrow> awp_ring \<Rightarrow> pass \<times> awp_ring" and E0 me spin t
      and t0 :: "u64 option" and r and y :: "int \<times> u64 \<times> nat \<times> awp_ring"
    assume IH: "\<And>pp E0 me spin t t0 r y. loop pp E0 me spin t t0 r = Some y \<Longrightarrow>
        ?Q pp E0 \<longrightarrow> I r \<longrightarrow> (\<exists>q c. I q \<and> pp c q = (Return (fst y), snd (snd (snd y))))"
      and eq: "(case pp (e_cas E0 t) (e_act E0 t r) of
        (Return rc, r) \<Rightarrow>
          Some (rc, (case t0 of None \<Rightarrow> 0 | Some s \<Rightarrow> e_clk E0 t - s), Suc t, r)
      | (Wait, r) \<Rightarrow>
          let t0' = (case t0 of None \<Rightarrow> Some (e_clk E0 t) | Some s \<Rightarrow> Some s)
          in if spin < AWP_SPIN_BUDGET
             then loop pp E0 me (Suc spin) (Suc t) t0' r
             else do { (t', r') \<leftarrow> awp_ring_wait_space E0 me (Suc t) r;
                       loop pp E0 me 0 t' t0' r' }
      | (Again, r) \<Rightarrow> loop pp E0 me spin (Suc t) t0 r) = Some y"
    show "?Q pp E0 \<longrightarrow> I r \<longrightarrow> (\<exists>q c. I q \<and> pp c q = (Return (fst y), snd (snd (snd y))))"
    proof (intro impI)
      assume Q: "?Q pp E0" and r: "I r"
      define r1 where "r1 = e_act E0 t r"
      have i: "I r1" using Q r by (auto simp: undisturbed_def r1_def)
      obtain o1 r2 where o1: "pp (e_cas E0 t) r1 = (o1, r2)" by fastforce
      show "\<exists>q c. I q \<and> pp c q = (Return (fst y), snd (snd (snd y)))"
      proof (cases o1)
        case (Return rc)
        then have "pp (e_cas E0 t) r1 = (Return (fst y), snd (snd (snd y)))"
          using eq o1 by (auto simp: r1_def)
        with i show ?thesis by blast
      next
        case Wait
        have i2: "I r2" using Q i o1 Wait by (metis fst_conv snd_conv)
        show ?thesis
        proof (cases "spin < AWP_SPIN_BUDGET")
          case True
          with eq o1 Wait obtain u where "loop pp E0 me (Suc spin) (Suc t) u r2 = Some y"
            by (auto simp: r1_def Let_def)
          then show ?thesis using IH Q i2 by blast
        next
          case False
          with eq o1 Wait obtain t3 r3 u where w: "awp_ring_wait_space E0 me (Suc t) r2 = Some (t3, r3)"
            and l: "loop pp E0 me 0 t3 u r3 = Some y"
            by (auto simp: r1_def Let_def bind_eq_Some_conv)
          have "I r3" using awp_ring_wait_space_inv [OF w] Q i2 by blast
          then show ?thesis using IH [OF l] Q by blast
        qed
      next
        case Again
        have i2: "I r2" using Q i o1 Again by (metis fst_conv snd_conv)
        have "loop pp E0 me spin (Suc t) t0 r2 = Some y" using eq o1 Again by (simp add: r1_def)
        then show ?thesis using IH Q i2 by blast
      qed
    qed
  qed
  with assms(1,3) show ?thesis by fastforce
qed


subsection \<open>Blocking loops: that they return\<close>

text \<open>
  From time \<open>n\<close> on, whatever the other threads do leaves the ring open to this push (there is
  room, or the ring is closed), has woken this thread, and lets its compare-and-exchange
  succeed.
\<close>

definition room_from :: "ring_env \<Rightarrow> nat \<Rightarrow> nat \<Rightarrow> bool" where
  "room_from E me n \<longleftrightarrow>
     (\<forall>t\<ge>n. \<forall>r. ring_ok r \<longrightarrow>
        (r_closed (e_act E t r) \<or> ring_len (e_act E t r) < ring_cap (e_act E t r))
        \<and> me \<notin> set (r_cv (e_act E t r)) \<and> e_cas E t)"

lemma full_to_wait_len:
  assumes "ring_ok r" and "full_to_wait r"
  shows "\<not> r_closed r \<and> ring_len r = ring_cap r"
proof -
  have g: "ring_geom r" and l: "ring_len r \<le> ring_cap r" using assms(1) by (auto simp: ring_ok_def)
  have c: "unat (r_capacity r) \<le> 2 ^ 24" "2 \<le> unat (r_capacity r)"
    using ring_cap_bounds [OF g] by (auto simp: ring_cap_def)
  then have uc: "unat (ucast (r_capacity r) :: u32) = ring_cap r"
    by (simp add: unat_ucast_down32 ring_cap_def)
  have "ring_cap r \<le> unat (awp_ring_depth r)"
    using assms(2) by (simp add: full_to_wait_def word_le_nat_alt uc)
  also have "unat (awp_ring_depth r) \<le> ring_len r"
    using l c
    by (auto simp: awp_ring_depth_def Let_def ring_len_def ring_cap_def word_less_nat_alt
        unat_ucast_down32)
  finally show ?thesis using l assms(2) by (simp add: full_to_wait_def)
qed

lemma cond_park_returns:
  assumes "undisturbed E ring_ok" and "room_from E me n" and "ring_ok r"
  shows "\<exists>t' r'. cond_park E me t r = Some (t', r') \<and> t \<le> t' \<and> ring_ok r' \<and>
           (me \<in> set (r_cv r) \<longrightarrow> t < t' \<and> (\<exists>q. ring_ok q \<and> r' = e_act E (t' - 1) q))"
  using assms(3)
proof (induction "n - t" arbitrary: t r)
  case 0
  have ok: "ring_ok (e_act E t r)" using 0 assms(1) by (simp add: undisturbed_def)
  have "me \<notin> set (r_cv (e_act E t r))" using 0 assms(2) by (simp add: room_from_def)
  then show ?case
    using 0 ok
    by (cases "me \<in> set (r_cv r)") (auto simp: cond_park.simps [of E me t] cond_park.simps [of E me "Suc t"])
next
  case (Suc k)
  have ok: "ring_ok (e_act E t r)" using Suc.prems assms(1) by (simp add: undisturbed_def)
  have "k = n - Suc t" using Suc.hyps(2) by simp
  from Suc.hyps(1) [OF this ok] obtain t' r' where
    IH: "cond_park E me (Suc t) (e_act E t r) = Some (t', r')" "Suc t \<le> t'" "ring_ok r'"
      "me \<in> set (r_cv (e_act E t r)) \<longrightarrow> (\<exists>q. ring_ok q \<and> r' = e_act E (t' - 1) q)"
    by blast
  show ?case
  proof (cases "me \<in> set (r_cv r)")
    case True
    have "\<exists>q. ring_ok q \<and> r' = e_act E (t' - 1) q"
    proof (cases "me \<in> set (r_cv (e_act E t r))")
      case False
      then have "t' = Suc t" "r' = e_act E t r"
        using IH(1) by (simp_all add: cond_park.simps [of E me "Suc t"])
      then show ?thesis using Suc.prems by auto
    qed (use IH(4) in blast)
    then show ?thesis using True IH by (auto simp: cond_park.simps [of E me t])
  next
    case False
    then show ?thesis using Suc.prems by (auto simp: cond_park.simps [of E me t])
  qed
qed

lemma wait_space_loop_returns:
  assumes "undisturbed E ring_ok" and "room_from E me n" and "ring_ok r"
  shows "\<exists>t' r'. wait_loop full_to_wait E me t r = Some (t', r') \<and> t \<le> t' \<and> ring_ok r'"
  using assms(3)
proof (induction "n - t" arbitrary: t r rule: less_induct)
  case less
  show ?case
  proof (cases "full_to_wait r")
    case False
    then show ?thesis using less.prems by (auto simp: wait_loop.simps [of full_to_wait E me t])
  next
    case True
    let ?p = "r\<lparr>r_cv := me # r_cv r\<rparr>"
    have "ring_ok ?p" using less.prems by simp
    from cond_park_returns [OF assms(1,2) this, of t] obtain t1 r1 q where
      p: "cond_park E me t ?p = Some (t1, r1)" "t < t1" "ring_ok r1" "ring_ok q" "r1 = e_act E (t1 - 1) q"
      by auto
    have "\<exists>t' r'. wait_loop full_to_wait E me t1 r1 = Some (t', r') \<and> t1 \<le> t' \<and> ring_ok r'"
    proof (cases "n \<le> t1 - 1")
      case True
      then have "\<not> full_to_wait r1"
        using assms(2) p(4,5) full_to_wait_len [OF p(3)] unfolding room_from_def by fastforce
      then show ?thesis using p(3) by (auto simp: wait_loop.simps [of full_to_wait E me t1])
    next
      case False
      then have "n - t1 < n - t" using p(2) by auto
      from less.hyps [OF this p(3)] show ?thesis .
    qed
    then show ?thesis
      using True p(1,2) by (auto simp: wait_loop.simps [of full_to_wait E me t])
  qed
qed

lemma awp_ring_wait_space_returns:
  assumes "undisturbed E ring_ok" and "room_from E me n" and "ring_ok r"
  shows "\<exists>t' r'. awp_ring_wait_space E me t r = Some (t', r') \<and> t \<le> t' \<and> ring_ok r'"
  using wait_space_loop_returns [OF assms(1,2), of "r\<lparr>r_waiters := r_waiters r + 1\<rparr>" t] assms(3)
  by (auto simp: awp_ring_wait_space_def)

lemma push_loop_returns:
  assumes env: "undisturbed E ring_ok" "room_from E me n"
    and step: "\<And>c q. ring_ok q \<Longrightarrow> fst (pp c q) = Wait \<or> fst (pp c q) = Again \<Longrightarrow> snd (pp c q) = q"
    and go: "\<And>q. ring_ok q \<Longrightarrow> r_closed q \<or> ring_len q < ring_cap q \<Longrightarrow> \<exists>rc. fst (pp True q) = Return rc"
    and "ring_ok r"
  shows "\<exists>y. push_loop pp E me spin t t0 r = Some y"
  using \<open>ring_ok r\<close>
proof (induction "n - t" arbitrary: spin t t0 r rule: less_induct)
  case less
  define r1 where "r1 = e_act E t r"
  have i: "ring_ok r1" using env(1) less.prems by (simp add: undisturbed_def r1_def)
  obtain o1 r2 where o1: "pp (e_cas E t) r1 = (o1, r2)" by fastforce
  show ?case
  proof (cases "n \<le> t")
    case True
    then have "e_cas E t" "r_closed r1 \<or> ring_len r1 < ring_cap r1"
      using env(2) less.prems by (auto simp: room_from_def r1_def)
    then obtain rc where "o1 = Return rc" using go [OF i] o1 by auto
    then show ?thesis using o1 by (auto simp: push_loop.simps [of pp E me spin t] r1_def)
  next
    case False
    then have dec: "n - t' < n - t" if "Suc t \<le> t'" for t' using that by auto
    have i2: "ring_ok r2" if "o1 = Wait \<or> o1 = Again" using step [OF i] o1 that i
      by (metis fst_conv snd_conv)
    show ?thesis
    proof (cases o1)
      case (Return rc)
      then show ?thesis using o1 by (auto simp: push_loop.simps [of pp E me spin t] r1_def)
    next
      case Again
      from less.hyps [OF dec i2, of "Suc t" spin t0] Again o1 show ?thesis
        by (auto simp: push_loop.simps [of pp E me spin t] r1_def)
    next
      case Wait
      let ?u = "case t0 of None \<Rightarrow> Some (e_clk E t) | Some s \<Rightarrow> Some s"
      obtain t3 r3 where w: "awp_ring_wait_space E me (Suc t) r2 = Some (t3, r3)" "Suc t \<le> t3" "ring_ok r3"
        using awp_ring_wait_space_returns [OF env i2] Wait by blast
      from less.hyps [OF dec i2, of "Suc t" "Suc spin" ?u] less.hyps [OF dec [OF w(2)] w(3), of 0 ?u]
      show ?thesis
        using Wait o1 w(1) by (auto simp: push_loop.simps [of pp E me spin t] r1_def Let_def)
    qed
  qed
qed

section \<open>Properties of the ring\<close>

lemma undisturbed_ring_ok: "undisturbed E ring_ok \<longleftrightarrow> (\<forall>t q. ring_ok q \<longrightarrow> ring_ok (e_act E t q))"
  by (simp add: undisturbed_def)

lemma push_pass_waits_unchanged:
  assumes "ring_ok q"
  shows "fst (push_sp_pass f c q) = Wait \<or> fst (push_sp_pass f c q) = Again \<Longrightarrow> snd (push_sp_pass f c q) = q"
    and "fst (push_mp_pass f c q) = Wait \<or> fst (push_mp_pass f c q) = Again \<Longrightarrow> snd (push_mp_pass f c q) = q"
  by (auto simp: push_pass_spec [OF assms] split: if_splits)

lemma push_pass_goes:
  assumes "ring_ok q" and "r_closed q \<or> ring_len q < ring_cap q"
  shows "\<exists>rc. fst (push_sp_pass f True q) = Return rc" and "\<exists>rc. fst (push_mp_pass f True q) = Return rc"
  using assms(2) by (auto simp: push_pass_spec [OF assms(1)])

lemma push_pass_return:
  assumes "ring_ok q" and "push_sp_pass f c q = (Return rc, r') \<or> push_mp_pass f c q = (Return rc, r')"
  shows "rc = - 1 \<and> r_closed q \<and> r' = q
       \<or> rc = 0 \<and> \<not> r_closed q \<and> ring_len q < ring_cap q \<and> ring_ok r'
         \<and> ring_abs r' = ring_abs q @ [Some f]"
  using assms(2) pushed_spec [OF assms(1)]
  by (auto simp: push_pass_spec [OF assms(1)] split: if_splits)

text \<open>A ring of two slots as \<open>awp_ring_init\<close> builds it: the concrete input of the witnesses.\<close>

definition demo_alloc :: ring_alloc where
  "demo_alloc = \<lparr>a_cells_memalign = True, a_cells_calloc = True, a_frames_memalign = True,
     a_frames_calloc = True, a_base = 7, a_mutex = True, a_cond = True\<rparr>"

definition demo_ring :: awp_ring where
  "demo_ring =
     zero_ring\<lparr>r_mode := AWP_RING_MPSC, r_frames := replicate 2 zero_frame, r_base := 7,
       r_capacity := 2, r_mask := 1, r_cells := init_cells 7 2\<rparr>"

lemma demo_ring_init: "awp_ring_init demo_alloc (Some zero_ring) 2 AWP_RING_MPSC = (0, Some demo_ring)"
  by (simp add: awp_ring_init_def ring_alloc_cells_def demo_alloc_def demo_ring_def
      awp_round_up_pow2_def AWP_RING_CAP_MAX_def zero_ring_def)

lemma demo_ring_ok: "open_ring demo_ring" "ring_ok demo_ring" "ring_abs demo_ring = []"
    "ring_cap demo_ring = 2" "ring_len demo_ring = 0" "\<not> r_closed demo_ring" "r_mode demo_ring = AWP_RING_MPSC"
  using awp_ring_init_ok [OF demo_ring_init] length_ring_abs [of demo_ring]
  by (auto simp: open_ring_def ring_cap_def demo_ring_def zero_ring_def)

text \<open>Ring construction: \<open>awp_ring_init\<close> succeeds exactly when the capacity is between 1 and
  the maximum, the mode is one of the four and every allocation succeeds, and it then yields
  an open, empty, well-formed ring of the rounded capacity with a frame slot per cell.\<close>

theorem awp_ring_init_spec:
  "case awp_ring_init A (Some r0) capacity mode of (rc, ro) \<Rightarrow>
     (rc = 0 \<longleftrightarrow> capacity \<noteq> 0 \<and> unat capacity \<le> 2 ^ 24 \<and> mode \<noteq> AWP_RING_OTHER \<and> a_mutex A \<and> a_cond A
        \<and> (a_cells_memalign A \<or> a_cells_calloc A) \<and> (a_frames_memalign A \<or> a_frames_calloc A))
     \<and> (rc = 0 \<longrightarrow> (\<exists>r. ro = Some r \<and> open_ring r \<and> ring_abs r = []
          \<and> ring_cap r = unat (awp_round_up_pow2 capacity) \<and> length (r_frames r) = ring_cap r))"
proof -
  obtain rc ro where eq: "awp_ring_init A (Some r0) capacity mode = (rc, ro)" by fastforce
  have cap: "awp_round_up_pow2 capacity = 0 \<longleftrightarrow> \<not> unat capacity \<le> 2 ^ 24"
    using round_up_pow2_cases [of capacity] by (auto split: if_splits)
  have lt1: "capacity < 1 \<longleftrightarrow> capacity = 0"
    by (simp add: word_less_nat_alt unat_eq_zero)
  have ret: "rc = 0 \<longrightarrow> ro \<noteq> None"
    using eq by (auto simp: awp_ring_init_def Let_def split: if_splits prod.splits)
  have "rc = 0 \<longleftrightarrow> capacity \<noteq> 0 \<and> unat capacity \<le> 2 ^ 24 \<and> mode \<noteq> AWP_RING_OTHER \<and> a_mutex A \<and> a_cond A
        \<and> (a_cells_memalign A \<or> a_cells_calloc A) \<and> (a_frames_memalign A \<or> a_frames_calloc A)"
    using eq cap lt1
    by (auto simp: awp_ring_init_def ring_alloc_cells_def Let_def errno_defs split: if_splits)
  then show ?thesis
    using eq ret awp_ring_init_ok [of A r0 capacity mode] by auto
qed

theorem awp_ring_init_spec_witness:
  "case awp_ring_init demo_alloc (Some zero_ring) 2 AWP_RING_MPSC of (rc, ro) \<Rightarrow>
     rc = 0 \<and> (\<exists>r. ro = Some r \<and> open_ring r \<and> ring_abs r = [])"
  using awp_ring_init_spec [of 2 AWP_RING_MPSC demo_alloc zero_ring] by (simp add: demo_ring_init)

text \<open>Every branch of the non-blocking push: refused on a closed ring, \<open>-EAGAIN\<close> and no change
  on a full one, and otherwise the frame is appended as a published slot.\<close>

theorem awp_ring_try_push_spec:
  assumes "ring_ok r" and "r_mode r \<noteq> AWP_RING_OTHER"
  shows "\<exists>rc r'. awp_ring_try_push True (Some r) (Some f) = (rc, Some r')
     \<and> (if r_closed r then rc = - 1 \<and> r' = r
        else if length (ring_abs r) = ring_cap r then rc = - EAGAIN \<and> r' = r
        else rc = 0 \<and> ring_ok r' \<and> ring_abs r' = ring_abs r @ [Some f])"
  using assms full_or_room [OF assms(1)] pushed_spec [OF assms(1)]
  by (cases "r_mode r") (auto simp: awp_ring_try_push_def try_push_spec)

theorem awp_ring_try_push_spec_witness:
  "\<exists>rc r'. awp_ring_try_push True (Some demo_ring) (Some (FramePtr 7 0)) = (rc, Some r')
     \<and> rc = 0 \<and> ring_abs r' = [Some (FramePtr 7 0)]"
  using awp_ring_try_push_spec [of demo_ring "FramePtr 7 0"] demo_ring_ok by auto



text \<open>C23. Backpressure without drops: whatever the other threads do to the ring, a blocking push that
  returns has either appended its frame to the ring as it then was, which had room, or has
  found the ring closed and left it alone.\<close>

theorem awp_ring_push_never_drops:
  assumes "awp_ring_push E me t (Some r) (Some f) = Some (rc, b, t', Some r')"
    and "ring_ok r" and "r_mode r \<noteq> AWP_RING_OTHER"
    and "\<forall>t q. ring_ok q \<longrightarrow> ring_ok (e_act E t q)"
  shows "\<exists>q. ring_ok q \<and>
     (rc = - 1 \<and> r_closed q \<and> r' = q
      \<or> rc = 0 \<and> \<not> r_closed q \<and> ring_len q < ring_cap q \<and> ring_ok r'
        \<and> ring_abs r' = ring_abs q @ [Some f])"
proof -
  have u: "undisturbed E ring_ok" using assms(4) by (simp add: undisturbed_ring_ok)
  have "push_sp E me f t r = Some (rc, b, t', r') \<or> push_mp E me f t r = Some (rc, b, t', r')"
    using assms(1,3) by (cases "r_mode r") (auto simp: awp_ring_push_def)
  then have "\<exists>q c. ring_ok q \<and> (push_sp_pass f c q = (Return rc, r') \<or> push_mp_pass f c q = (Return rc, r'))"
    unfolding push_sp_def push_mp_def
    using push_loop_result [where pp = "push_sp_pass f", OF _ u assms(2)]
      push_loop_result [where pp = "push_mp_pass f", OF _ u assms(2)] push_pass_waits_unchanged
    by meson
  then show ?thesis using push_pass_return by blast
qed

definition quiet :: ring_env where
  "quiet = \<lparr>e_act = (\<lambda>_ r. r), e_clk = (\<lambda>_. 0), e_cas = (\<lambda>_. True)\<rparr>"

lemma demo_push: "awp_ring_push quiet 1 0 (Some demo_ring) (Some (FramePtr 7 0))
    = Some (0, 0, 1, Some (pushed (FramePtr 7 0) demo_ring))"
  by (simp add: awp_ring_push_def push_mp_def push_loop.simps demo_ring_ok push_pass_spec quiet_def)

theorem awp_ring_push_never_drops_witness:
  "\<exists>q. ring_ok q \<and>
     ((0 :: int) = - 1 \<and> r_closed q \<and> pushed (FramePtr 7 0) demo_ring = q
      \<or> (0 :: int) = 0 \<and> \<not> r_closed q \<and> ring_len q < ring_cap q \<and> ring_ok (pushed (FramePtr 7 0) demo_ring)
        \<and> ring_abs (pushed (FramePtr 7 0) demo_ring) = ring_abs q @ [Some (FramePtr 7 0)])"
  by (rule awp_ring_push_never_drops [OF demo_push]) (simp_all add: demo_ring_ok quiet_def)

text \<open>C24. A blocked producer is released: if from some moment on the ring has room or is closed
  whenever this thread looks, its wake-up has been delivered and its compare-and-exchange is
  not disturbed, then the push returns, however full the ring was and however long it waited.\<close>

theorem awp_ring_push_returns:
  assumes "ring_ok r" and "\<forall>t q. ring_ok q \<longrightarrow> ring_ok (e_act E t q)" and "room_from E me n"
  shows "\<exists>y. awp_ring_push E me t (Some r) (Some f) = Some y"
proof -
  have u: "undisturbed E ring_ok" using assms(2) by (simp add: undisturbed_ring_ok)
  have "\<exists>y. push_sp E me f t r = Some y"
    unfolding push_sp_def
    by (rule push_loop_returns [OF u assms(3) _ _ assms(1)])
      (use push_pass_waits_unchanged(1) push_pass_goes(1) in blast)+
  moreover have "\<exists>y. push_mp E me f t r = Some y"
    unfolding push_mp_def
    by (rule push_loop_returns [OF u assms(3) _ _ assms(1)])
      (use push_pass_waits_unchanged(2) push_pass_goes(2) in blast)+
  ultimately show ?thesis by (cases "r_mode r") (auto simp: awp_ring_push_def)
qed

text \<open>A consumer that empties one slot at time 100 and keeps the ring below its capacity.\<close>

definition late_consumer :: ring_env where
  "late_consumer = quiet\<lparr>e_act := (\<lambda>t r. if t < 100 then r
      else if ring_len r = ring_cap r then (release_cell r)\<lparr>r_cv := []\<rparr> else r\<lparr>r_cv := []\<rparr>)\<rparr>"

lemma late_consumer_room: "room_from late_consumer me 100"
proof -
  have "ring_len (release_cell r) < ring_cap r" if "ring_ok r" "ring_len r = ring_cap r" for r
  proof -
    have "2 \<le> ring_cap r" using that ring_cap_bounds(1) by (auto simp: ring_ok_def)
    then show ?thesis using that by (simp add: ring_len_release)
  qed
  then show ?thesis
    using full_or_room by (auto simp: room_from_def late_consumer_def quiet_def)
qed

theorem awp_ring_push_returns_witness:
  "\<exists>y. awp_ring_push late_consumer 1 0
          (Some (pushed (FramePtr 7 1) (pushed (FramePtr 7 0) demo_ring))) (Some (FramePtr 7 2)) = Some y"
proof (rule awp_ring_push_returns [OF _ _ late_consumer_room])
  show "ring_ok (pushed (FramePtr 7 1) (pushed (FramePtr 7 0) demo_ring))"
    using demo_ring_ok by (simp add: pushed_spec)
  show "\<forall>t q. ring_ok q \<longrightarrow> ring_ok (e_act late_consumer t q)"
  proof (intro allI impI)
    fix t q assume q: "ring_ok q"
    show "ring_ok (e_act late_consumer t q)"
    proof (cases "ring_len q = ring_cap q")
      case True
      then have "0 < ring_len q" using q ring_cap_bounds(1) [of q] by (auto simp: ring_ok_def)
      then show ?thesis using q by (auto simp: late_consumer_def ring_ok_release)
    qed (use q in \<open>auto simp: late_consumer_def quiet_def\<close>)
  qed
qed



text \<open>The depth the metrics and the wait conditions use is the number of reserved slots, and at
  most the capacity, as long as the enqueue position has not wrapped past the dequeue position.\<close>

theorem awp_ring_depth_spec:
  assumes "ring_ok r"
  shows "unat (awp_ring_depth r)
       = (if r_enqueue_pos r < r_dequeue_pos r then 0 else length (ring_abs r))
     \<and> unat (awp_ring_depth r) \<le> ring_cap r"
proof -
  have g: "ring_geom r" and l: "ring_len r \<le> ring_cap r" using assms by (auto simp: ring_ok_def)
  have c: "ring_cap r \<le> 2 ^ 24" using ring_cap_bounds [OF g] by auto
  have "unat (awp_ring_depth r)
       = (if r_enqueue_pos r < r_dequeue_pos r then 0 else length (ring_abs r))"
    using l c
    by (auto simp: awp_ring_depth_def Let_def ring_len_def ring_cap_def word_less_nat_alt
        unat_ucast_down32)
  then show ?thesis using l by auto
qed

theorem awp_ring_depth_spec_witness: "unat (awp_ring_depth demo_ring) = 0"
  using awp_ring_depth_spec [OF demo_ring_ok(2)] demo_ring_ok by simp

end
