(* ===== verification/Ring_Conc.thy ===== *)
theory Ring_Conc
  imports Ring_Spec "HOL-Library.Multiset"
begin

text \<open>
  The push and pop loops of \<open>src/ring.c\<close> as a concurrent system: any number of threads, each
  with a program counter, and one step per access to shared memory, interleaved in any order.
  The steps of \<open>push_sp\<close>, \<open>push_mp\<close>, \<open>try_push_sp\<close>, \<open>try_push_mp\<close>, \<open>pop_sc\<close> and \<open>pop_mc\<close>
  follow the source line by line; the mode of the ring selects the variant. Memory is
  sequentially consistent. Spinning and parking change no position or cell, so a thread that
  finds the ring full or empty goes back to the head of its loop. In a single-producer mode
  thread 0 is the producer and in a single-consumer mode thread 1 the consumer, which is the
  contract of \<open>awp.h\<close> ("wrong mode is UB").

  Next to the ring the state keeps history that the code does not have: the frames in the
  order of their reservation, the number of dequeue positions claimed, for each cell the
  position it serves and whether that position is published, and the frames handed out.
\<close>

section \<open>The machine\<close>

definition multi_prod :: "awp_ring_mode \<Rightarrow> bool" where
  "multi_prod m \<longleftrightarrow> m = AWP_RING_MPSC \<or> m = AWP_RING_MPMC"

definition multi_cons :: "awp_ring_mode \<Rightarrow> bool" where
  "multi_cons m \<longleftrightarrow> m = AWP_RING_SPMC \<or> m = AWP_RING_MPMC"

text \<open>
  Program counters, named after the access they are about to make. The flag of the push
  counters tells a \<open>try_push\<close> from a blocking push.
\<close>

datatype pc =
    Idle
  | PushClosed frame_ptr bool
  | PushPos frame_ptr bool
  | PushSeq frame_ptr bool u64
  | PushCas frame_ptr bool u64
  | PushData frame_ptr bool u64
  | PushStoreSeq frame_ptr bool u64
  | PushStorePos frame_ptr bool u64
  | PopPos
  | PopSeq u64
  | PopClaim u64
  | PopRead u64
  | PopClear u64 "frame_ptr option"
  | PopStoreSeq u64 "frame_ptr option"
  | PopClosed u64
  | PopSeq2 u64
  | Done int "frame_ptr option"

record conc =
  g_ring :: awp_ring
  g_pc :: "nat \<Rightarrow> pc"
  g_log :: "frame_ptr list"
  g_deq :: nat
  g_cpos :: "nat \<Rightarrow> nat"
  g_full :: "nat \<Rightarrow> bool"
  g_out :: "(nat \<times> frame_ptr) list"

fun is_push :: "pc \<Rightarrow> bool" where
  "is_push (PushClosed _ _) = True"
| "is_push (PushPos _ _) = True"
| "is_push (PushSeq _ _ _) = True"
| "is_push (PushCas _ _ _) = True"
| "is_push (PushData _ _ _) = True"
| "is_push (PushStoreSeq _ _ _) = True"
| "is_push (PushStorePos _ _ _) = True"
| "is_push _ = False"

fun is_pop :: "pc \<Rightarrow> bool" where
  "is_pop PopPos = True"
| "is_pop (PopSeq _) = True"
| "is_pop (PopClaim _) = True"
| "is_pop (PopRead _) = True"
| "is_pop (PopClear _ _) = True"
| "is_pop (PopStoreSeq _ _) = True"
| "is_pop (PopClosed _) = True"
| "is_pop (PopSeq2 _) = True"
| "is_pop _ = False"

definition goto :: "nat \<Rightarrow> pc \<Rightarrow> conc \<Rightarrow> conc" where
  "goto t c s = s\<lparr>g_pc := (g_pc s)(t := c)\<rparr>"

text \<open>One access of thread \<open>t\<close>; \<open>spurious\<close> makes a weak compare-and-exchange fail.\<close>

definition push_step :: "bool \<Rightarrow> nat \<Rightarrow> conc \<Rightarrow> conc" where
  "push_step spurious t s =
     (let r = g_ring s; mp = multi_prod (r_mode r)
      in case g_pc s t of
           PushClosed f try \<Rightarrow> goto t (if r_closed r then Done (- 1) None else PushPos f try) s
         | PushPos f try \<Rightarrow> goto t (PushSeq f try (r_enqueue_pos r)) s
         | PushSeq f try pos \<Rightarrow>
             if seq_dif (c_sequence (ring_cell r pos)) pos = 0
             then if mp then goto t (PushCas f try pos) s
                  else goto t (PushData f try pos) (s\<lparr>g_log := g_log s @ [f]\<rparr>)
             else goto t (if try then Done (- EAGAIN) None else PushClosed f try) s
         | PushCas f try pos \<Rightarrow>
             if r_enqueue_pos r = pos \<and> \<not> spurious
             then goto t (PushData f try pos)
                    (s\<lparr>g_ring := r\<lparr>r_enqueue_pos := pos + 1\<rparr>, g_log := g_log s @ [f]\<rparr>)
             else goto t (if try then Done (- EAGAIN) None else PushClosed f try) s
         | PushData f try pos \<Rightarrow>
             goto t (PushStoreSeq f try pos)
               (s\<lparr>g_ring := set_cell r pos ((ring_cell r pos)\<lparr>c_data := Some f\<rparr>)\<rparr>)
         | PushStoreSeq f try pos \<Rightarrow>
             goto t (if mp then Done 0 None else PushStorePos f try pos)
               (s\<lparr>g_ring := set_cell r pos ((ring_cell r pos)\<lparr>c_sequence := pos + 1\<rparr>),
                  g_full := (g_full s)(ring_index r pos := True)\<rparr>)
         | PushStorePos f try pos \<Rightarrow>
             goto t (Done 0 None) (s\<lparr>g_ring := r\<lparr>r_enqueue_pos := pos + 1\<rparr>\<rparr>)
         | _ \<Rightarrow> s)"

definition pop_step :: "bool \<Rightarrow> nat \<Rightarrow> conc \<Rightarrow> conc" where
  "pop_step spurious t s =
     (let r = g_ring s; mc = multi_cons (r_mode r)
      in case g_pc s t of
           PopPos \<Rightarrow> goto t (PopSeq (r_dequeue_pos r)) s
         | PopSeq pos \<Rightarrow>
             let dif = seq_dif (c_sequence (ring_cell r pos)) (pos + 1)
             in goto t (if dif = 0 then PopClaim pos else if dif < 0 then PopClosed pos else PopPos) s
         | PopClaim pos \<Rightarrow>
             if mc \<and> (r_dequeue_pos r \<noteq> pos \<or> spurious) then goto t PopPos s
             else goto t (PopRead pos)
                    (s\<lparr>g_ring := r\<lparr>r_dequeue_pos := pos + 1\<rparr>, g_deq := g_deq s + 1\<rparr>)
         | PopRead pos \<Rightarrow> goto t (PopClear pos (c_data (ring_cell r pos))) s
         | PopClear pos f \<Rightarrow>
             goto t (PopStoreSeq pos f)
               (s\<lparr>g_ring := set_cell r pos ((ring_cell r pos)\<lparr>c_data := None\<rparr>)\<rparr>)
         | PopStoreSeq pos f \<Rightarrow>
             goto t (Done 0 f)
               (s\<lparr>g_ring := set_cell r pos ((ring_cell r pos)\<lparr>c_sequence := pos + r_capacity r\<rparr>),
                  g_cpos := (g_cpos s)(ring_index r pos := unat pos + unat (r_capacity r)),
                  g_full := (g_full s)(ring_index r pos := False),
                  g_out := g_out s @ (case f of None \<Rightarrow> [] | Some x \<Rightarrow> [(unat pos, x)])\<rparr>)
         | PopClosed pos \<Rightarrow> goto t (if r_closed r then PopSeq2 pos else PopPos) s
         | PopSeq2 pos \<Rightarrow>
             goto t (if seq_dif (c_sequence (ring_cell r pos)) (pos + 1) = 0 then PopPos
                     else Done (- 1) None) s
         | _ \<Rightarrow> s)"

datatype event = CallPush nat frame_ptr bool | CallPop nat | Step nat bool | Close | Reopen

definition conc_step :: "event \<Rightarrow> conc \<Rightarrow> conc option" where
  "conc_step e s =
     (let r = g_ring s
      in case e of
           CallPush t f try \<Rightarrow>
             if g_pc s t = Idle \<and> (multi_prod (r_mode r) \<or> t = 0)
             then Some (goto t (PushClosed f try) s) else None
         | CallPop t \<Rightarrow>
             if g_pc s t = Idle \<and> (multi_cons (r_mode r) \<or> t = 1)
             then Some (goto t PopPos s) else None
         | Step t spurious \<Rightarrow>
             (case g_pc s t of
                Idle \<Rightarrow> None
              | Done _ _ \<Rightarrow> Some (goto t Idle s)
              | c \<Rightarrow> Some (if is_push c then push_step spurious t s else pop_step spurious t s))
         | Close \<Rightarrow> Some (s\<lparr>g_ring := awp_ring_close r\<rparr>)
         | Reopen \<Rightarrow> Some (s\<lparr>g_ring := awp_ring_reopen r\<rparr>))"

text \<open>The start: a ring as \<open>awp_ring_init\<close> leaves it and no thread in an operation.\<close>

definition conc_init :: "awp_ring \<Rightarrow> conc" where
  "conc_init r =
     \<lparr>g_ring = r, g_pc = (\<lambda>_. Idle), g_log = [], g_deq = 0, g_cpos = id,
      g_full = (\<lambda>_. False), g_out = []\<rparr>"

definition fresh_ring :: "awp_ring \<Rightarrow> bool" where
  "fresh_ring r \<longleftrightarrow> open_ring r \<and> r_enqueue_pos r = 0 \<and> r_dequeue_pos r = 0"

inductive conc_reach :: "awp_ring \<Rightarrow> conc \<Rightarrow> bool" for r0 where
  start: "conc_reach r0 (conc_init r0)"
| step: "conc_reach r0 s \<Longrightarrow> conc_step e s = Some s' \<Longrightarrow> conc_reach r0 s'"


section \<open>The invariant\<close>

text \<open>The position a thread owns as a producer, between its reservation and its publication, and
  as a consumer, between its claim and its release.\<close>

fun holds_push :: "pc \<Rightarrow> nat option" where
  "holds_push (PushData _ _ pos) = Some (unat pos)"
| "holds_push (PushStoreSeq _ _ pos) = Some (unat pos)"
| "holds_push _ = None"

fun holds_pop :: "pc \<Rightarrow> nat option" where
  "holds_pop (PopRead pos) = Some (unat pos)"
| "holds_pop (PopClear pos _) = Some (unat pos)"
| "holds_pop (PopStoreSeq pos _) = Some (unat pos)"
| "holds_pop _ = None"

text \<open>A single producer between its decision to write a cell and its update of the position.\<close>

fun sp_busy :: "pc \<Rightarrow> nat" where
  "sp_busy (PushData _ _ _) = 1"
| "sp_busy (PushStoreSeq _ _ _) = 1"
| "sp_busy (PushStorePos _ _ _) = 1"
| "sp_busy _ = 0"

definition cell_data :: "conc \<Rightarrow> nat \<Rightarrow> frame_ptr option" where
  "cell_data s i = c_data (r_cells (g_ring s) ! i)"

abbreviation gcap :: "conc \<Rightarrow> nat" where "gcap s \<equiv> ring_cap (g_ring s)"
abbreviation gmode :: "conc \<Rightarrow> awp_ring_mode" where "gmode s \<equiv> r_mode (g_ring s)"
abbreviation genq :: "conc \<Rightarrow> nat" where "genq s \<equiv> length (g_log s)"
abbreviation slot_of :: "conc \<Rightarrow> u64 \<Rightarrow> nat" where "slot_of s pos \<equiv> unat pos mod gcap s"

text \<open>What a thread knows at each program counter.\<close>

definition push_local :: "conc \<Rightarrow> pc \<Rightarrow> bool" where
  "push_local s c =
     (let mp = multi_prod (gmode s)
      in case c of
           PushSeq f try pos \<Rightarrow> unat pos \<le> genq s \<and> (mp \<or> unat pos = genq s)
         | PushCas f try pos \<Rightarrow> mp \<and> unat pos \<le> genq s \<and> unat pos \<le> g_cpos s (slot_of s pos)
         | PushData f try pos \<Rightarrow>
             unat pos < genq s \<and> g_log s ! unat pos = f \<and> \<not> g_full s (slot_of s pos)
             \<and> g_cpos s (slot_of s pos) = unat pos \<and> (mp \<or> unat pos + 1 = genq s)
         | PushStoreSeq f try pos \<Rightarrow>
             unat pos < genq s \<and> g_log s ! unat pos = f \<and> \<not> g_full s (slot_of s pos)
             \<and> g_cpos s (slot_of s pos) = unat pos \<and> (mp \<or> unat pos + 1 = genq s)
             \<and> cell_data s (slot_of s pos) = Some f
         | PushStorePos f try pos \<Rightarrow> \<not> mp \<and> unat pos + 1 = genq s
         | _ \<Rightarrow> True)"

definition pop_local :: "conc \<Rightarrow> pc \<Rightarrow> bool" where
  "pop_local s c =
     (let mc = multi_cons (gmode s)
      in case c of
           PopSeq pos \<Rightarrow> unat pos \<le> g_deq s \<and> (mc \<or> unat pos = g_deq s)
         | PopClaim pos \<Rightarrow>
             unat pos \<le> g_deq s \<and> (mc \<or> unat pos = g_deq s)
             \<and> (unat pos < g_cpos s (slot_of s pos)
                \<or> g_cpos s (slot_of s pos) = unat pos \<and> g_full s (slot_of s pos))
         | PopRead pos \<Rightarrow>
             unat pos < g_deq s \<and> g_full s (slot_of s pos) \<and> g_cpos s (slot_of s pos) = unat pos
             \<and> (mc \<or> unat pos + 1 = g_deq s)
             \<and> cell_data s (slot_of s pos) = Some (g_log s ! unat pos)
         | PopClear pos f \<Rightarrow>
             unat pos < g_deq s \<and> g_full s (slot_of s pos) \<and> g_cpos s (slot_of s pos) = unat pos
             \<and> (mc \<or> unat pos + 1 = g_deq s) \<and> f = Some (g_log s ! unat pos)
         | PopStoreSeq pos f \<Rightarrow>
             unat pos < g_deq s \<and> g_full s (slot_of s pos) \<and> g_cpos s (slot_of s pos) = unat pos
             \<and> (mc \<or> unat pos + 1 = g_deq s) \<and> f = Some (g_log s ! unat pos)
         | _ \<Rightarrow> True)"

definition thread_ok :: "conc \<Rightarrow> nat \<Rightarrow> bool" where
  "thread_ok s t \<longleftrightarrow>
     push_local s (g_pc s t) \<and> pop_local s (g_pc s t)
     \<and> (is_push (g_pc s t) \<longrightarrow> multi_prod (gmode s) \<or> t = 0)
     \<and> (is_pop (g_pc s t) \<longrightarrow> multi_cons (gmode s) \<or> t = 1)"

definition exclusive :: "conc \<Rightarrow> bool" where
  "exclusive s \<longleftrightarrow>
     (\<forall>t u p. t \<noteq> u \<longrightarrow> holds_push (g_pc s t) = Some p \<longrightarrow> holds_push (g_pc s u) \<noteq> Some p)
     \<and> (\<forall>t u p. t \<noteq> u \<longrightarrow> holds_pop (g_pc s t) = Some p \<longrightarrow> holds_pop (g_pc s u) \<noteq> Some p)"

definition positions_ok :: "conc \<Rightarrow> bool" where
  "positions_ok s \<longleftrightarrow>
     unat (r_enqueue_pos (g_ring s)) + (if multi_prod (gmode s) then 0 else sp_busy (g_pc s 0)) = genq s
     \<and> unat (r_dequeue_pos (g_ring s)) = g_deq s \<and> g_deq s \<le> genq s \<and> genq s \<le> g_deq s + gcap s"

definition cell_inv :: "conc \<Rightarrow> nat \<Rightarrow> bool" where
  "cell_inv s i \<longleftrightarrow>
     g_cpos s i mod gcap s = i
     \<and> c_sequence (r_cells (g_ring s) ! i) = of_nat (g_cpos s i + (if g_full s i then 1 else 0))
     \<and> genq s \<le> g_cpos s i + gcap s
     \<and> (if g_full s i
        then g_cpos s i < genq s
             \<and> (g_deq s \<le> g_cpos s i \<longrightarrow> cell_data s i = Some (g_log s ! g_cpos s i))
        else g_deq s \<le> g_cpos s i \<and> g_cpos s i < g_deq s + gcap s
             \<and> (g_cpos s i < genq s \<longrightarrow> (\<exists>t. holds_push (g_pc s t) = Some (g_cpos s i))))"

definition out_ok :: "conc \<Rightarrow> bool" where
  "out_ok s \<longleftrightarrow>
     (\<forall>(p, f) \<in> set (g_out s). p < g_deq s \<and> f = g_log s ! p \<and> (\<forall>t. holds_pop (g_pc s t) \<noteq> Some p))
     \<and> distinct (map fst (g_out s))
     \<and> (\<forall>p < g_deq s. p \<in> fst ` set (g_out s) \<or> (\<exists>t. holds_pop (g_pc s t) = Some p))
     \<and> (\<not> multi_cons (gmode s) \<longrightarrow> map fst (g_out s) = [0..<length (g_out s)])"

definition conc_inv :: "conc \<Rightarrow> bool" where
  "conc_inv s \<longleftrightarrow>
     ring_geom (g_ring s) \<and> positions_ok s \<and> (\<forall>i<gcap s. cell_inv s i)
     \<and> (\<forall>t. thread_ok s t) \<and> exclusive s \<and> out_ok s"


section \<open>Consequences of the invariant\<close>

text \<open>Positions stay far below the range where \<open>size_t\<close> wraps.\<close>

definition in_range :: "conc \<Rightarrow> bool" where
  "in_range s \<longleftrightarrow> genq s \<le> 2 ^ 62"

lemma slot_index: "ring_geom (g_ring s) \<Longrightarrow> ring_index (g_ring s) pos = slot_of s pos"
  by (rule ring_index_mod)

lemma slot_cell: "ring_geom (g_ring s) \<Longrightarrow> ring_cell (g_ring s) pos = r_cells (g_ring s) ! slot_of s pos"
  by (simp add: ring_cell_def slot_index)

lemma slot_bound: "ring_geom (g_ring s) \<Longrightarrow> slot_of s pos < gcap s"
  using ring_cap_bounds(1) [of "g_ring s"] by simp

lemma gcap_bounds:
  assumes "conc_inv s"
  shows "2 \<le> gcap s" and "gcap s \<le> 2 ^ 24" and "0 < gcap s"
  using assms ring_cap_bounds [of "g_ring s"] by (auto simp: conc_inv_def)

lemma inv_cell: "conc_inv s \<Longrightarrow> cell_inv s (slot_of s pos)"
  using slot_bound by (auto simp: conc_inv_def)

lemma cell_seq:
  assumes "conc_inv s" and "in_range s"
  shows "unat (c_sequence (ring_cell (g_ring s) pos))
       = g_cpos s (slot_of s pos) + (if g_full s (slot_of s pos) then 1 else 0)"
proof -
  let ?i = "slot_of s pos"
  have c: "cell_inv s ?i" by (rule inv_cell [OF assms(1)])
  have "g_cpos s ?i < 2 ^ 62 + 2 ^ 24 + 1"
    using c assms gcap_bounds(2) [OF assms(1)]
    by (auto simp: cell_inv_def in_range_def conc_inv_def positions_ok_def split: if_splits)
  then have "g_cpos s ?i + (if g_full s ?i then 1 else 0) < 2 ^ 64" by auto
  moreover have "c_sequence (ring_cell (g_ring s) pos)
      = of_nat (g_cpos s ?i + (if g_full s ?i then 1 else 0))"
    using c assms(1) by (simp add: cell_inv_def slot_cell conc_inv_def)
  ultimately show ?thesis by (simp only: unat_of_nat_small64)
qed

lemma mod_Suc_neq: "2 \<le> c \<Longrightarrow> (n + 1) mod c \<noteq> n mod (c :: nat)"
proof
  assume "2 \<le> c" and "(n + 1) mod c = n mod c"
  then have "n + 1 = n" by (intro cong_window [of "n + 1" c n]) auto
  then show False by simp
qed

text \<open>A cell whose sequence equals the position read is free for it; capacity 2 or more rules out
  that the sequence belongs to the published previous position.\<close>

lemma seen_free:
  assumes "conc_inv s" and "in_range s" and "c_sequence (ring_cell (g_ring s) pos) = pos"
  shows "\<not> g_full s (slot_of s pos) \<and> g_cpos s (slot_of s pos) = unat pos"
proof -
  let ?i = "slot_of s pos"
  have c: "g_cpos s ?i mod gcap s = ?i" using inv_cell [OF assms(1)] by (simp add: cell_inv_def)
  have e: "unat pos = g_cpos s ?i + (if g_full s ?i then 1 else 0)"
    using cell_seq [OF assms(1,2), of pos] assms(3) by simp
  show ?thesis
  proof (cases "g_full s ?i")
    case True
    then have "(g_cpos s ?i + 1) mod gcap s = g_cpos s ?i mod gcap s" using e c by simp
    then show ?thesis using mod_Suc_neq gcap_bounds(1) [OF assms(1)] by blast
  qed (use e in simp)
qed

lemma seen_ready:
  assumes "conc_inv s" and "in_range s" and "unat pos \<le> 2 ^ 62"
    and "c_sequence (ring_cell (g_ring s) pos) = pos + 1"
  shows "g_full s (slot_of s pos) \<and> g_cpos s (slot_of s pos) = unat pos"
proof -
  let ?i = "slot_of s pos"
  have c: "g_cpos s ?i mod gcap s = ?i" using inv_cell [OF assms(1)] by (simp add: cell_inv_def)
  have "unat (pos + 1) = unat pos + 1" using assms(3) by (simp add: unat_word_ariths)
  then have e: "unat pos + 1 = g_cpos s ?i + (if g_full s ?i then 1 else 0)"
    using cell_seq [OF assms(1,2), of pos] assms(4) by simp
  show ?thesis
  proof (cases "g_full s ?i")
    case False
    then have "(unat pos + 1) mod gcap s = unat pos mod gcap s" using e c by simp
    then show ?thesis using mod_Suc_neq gcap_bounds(1) [OF assms(1)] by blast
  qed (use e in simp)
qed

text \<open>The next position to reserve, once seen free, is still free; the next position to claim, once
  seen published, is still published.\<close>

lemma reserve_free:
  assumes "conc_inv s" and "unat pos = genq s" and "unat pos \<le> g_cpos s (slot_of s pos)"
  shows "\<not> g_full s (slot_of s pos) \<and> g_cpos s (slot_of s pos) = unat pos \<and> genq s < g_deq s + gcap s"
proof -
  let ?i = "slot_of s pos"
  have c: "cell_inv s ?i" and d: "g_deq s \<le> genq s"
    using inv_cell [OF assms(1)] assms(1) by (auto simp: conc_inv_def positions_ok_def)
  have nf: "\<not> g_full s ?i" using c assms(2,3) by (auto simp: cell_inv_def)
  then have lt: "g_cpos s ?i < g_deq s + gcap s" using c by (simp add: cell_inv_def)
  have "g_cpos s ?i = unat pos"
    by (rule cong_window [of _ "gcap s"])
      (use c lt d assms(2,3) gcap_bounds(3) [OF assms(1)] in \<open>auto simp: cell_inv_def\<close>)
  then show ?thesis using nf lt assms(2) by simp
qed

lemma claim_ready:
  assumes "conc_inv s" and "unat pos = g_deq s"
    and "unat pos < g_cpos s (slot_of s pos) \<or> g_cpos s (slot_of s pos) = unat pos \<and> g_full s (slot_of s pos)"
  shows "g_full s (slot_of s pos) \<and> g_cpos s (slot_of s pos) = unat pos \<and> g_deq s < genq s"
proof -
  let ?i = "slot_of s pos"
  have c: "cell_inv s ?i" and d: "genq s \<le> g_deq s + gcap s"
    using inv_cell [OF assms(1)] assms(1) by (auto simp: conc_inv_def positions_ok_def)
  have "\<not> unat pos < g_cpos s ?i"
  proof
    assume "unat pos < g_cpos s ?i"
    then have "unat pos + gcap s \<le> g_cpos s ?i"
      by (intro cong_step) (use c in \<open>auto simp: cell_inv_def\<close>)
    then show False using c d assms(2) by (auto simp: cell_inv_def split: if_splits)
  qed
  then show ?thesis using assms(2,3) c by (auto simp: cell_inv_def)
qed

section \<open>Stability of what other threads know\<close>

text \<open>How any step may change the shared history.\<close>

definition evolves :: "conc \<Rightarrow> conc \<Rightarrow> bool" where
  "evolves s s' \<longleftrightarrow>
     gmode s' = gmode s \<and> gcap s' = gcap s \<and> (\<exists>ext. g_log s' = g_log s @ ext) \<and> g_deq s \<le> g_deq s'
     \<and> (\<forall>i. g_cpos s i < g_cpos s' i \<or> g_cpos s' i = g_cpos s i \<and> (g_full s i \<longrightarrow> g_full s' i))"

definition same_slot :: "conc \<Rightarrow> conc \<Rightarrow> nat \<Rightarrow> bool" where
  "same_slot s s' i \<longleftrightarrow>
     g_cpos s' i = g_cpos s i \<and> g_full s' i = g_full s i \<and> cell_data s' i = cell_data s i"

lemma push_local_stable:
  assumes "evolves s s'" and "push_local s c"
    and "g_log s' = g_log s \<or> multi_prod (gmode s) \<or> \<not> is_push c"
    and "\<And>p. holds_push c = Some p \<Longrightarrow> same_slot s s' (p mod gcap s)"
  shows "push_local s' c"
proof -
  have cp: "n \<le> g_cpos s' i" if "n \<le> g_cpos s i" for n i
    using that assms(1) unfolding evolves_def by (metis le_trans less_imp_le order_refl)
  obtain ext where ext: "g_log s' = g_log s @ ext" using assms(1) by (auto simp: evolves_def)
  show ?thesis
    using assms cp
    by (cases c) (auto simp: push_local_def evolves_def same_slot_def ext nth_append)
qed

lemma pop_local_stable:
  assumes "evolves s s'" and "pop_local s c" and "g_deq s \<le> genq s"
    and "g_deq s' = g_deq s \<or> multi_cons (gmode s) \<or> \<not> is_pop c"
    and "\<And>p. holds_pop c = Some p \<Longrightarrow> same_slot s s' (p mod gcap s)"
  shows "pop_local s' c"
proof -
  have cp: "n < g_cpos s' i \<or> g_cpos s' i = n \<and> g_full s' i"
    if "n < g_cpos s i \<or> g_cpos s i = n \<and> g_full s i" for n i
    using that assms(1) unfolding evolves_def by (metis less_trans)
  obtain ext where ext: "g_log s' = g_log s @ ext" using assms(1) by (auto simp: evolves_def)
  show ?thesis
    using assms cp
    by (cases c) (auto simp: pop_local_def evolves_def same_slot_def ext nth_append)
qed

lemma thread_ok_stable:
  assumes "evolves s s'" and "thread_ok s u" and "g_pc s' u = g_pc s u" and "g_deq s \<le> genq s"
    and "g_log s' = g_log s \<or> multi_prod (gmode s) \<or> u \<noteq> 0"
    and "g_deq s' = g_deq s \<or> multi_cons (gmode s) \<or> u \<noteq> 1"
    and "\<And>p. holds_push (g_pc s u) = Some p \<or> holds_pop (g_pc s u) = Some p \<Longrightarrow>
          same_slot s s' (p mod gcap s)"
  shows "thread_ok s' u"
proof -
  have m: "gmode s' = gmode s" using assms(1) by (simp add: evolves_def)
  have "push_local s' (g_pc s u)"
    by (rule push_local_stable [OF assms(1)]) (use assms in \<open>auto simp: thread_ok_def\<close>)
  moreover have "pop_local s' (g_pc s u)"
    by (rule pop_local_stable [OF assms(1)]) (use assms in \<open>auto simp: thread_ok_def\<close>)
  ultimately show ?thesis using assms(2,3) m by (simp add: thread_ok_def)
qed

text \<open>A thread that owns a position owns the cell that serves it.\<close>

lemma holder_slot:
  assumes "thread_ok s u"
  shows "holds_push (g_pc s u) = Some p \<Longrightarrow>
      p < genq s \<and> \<not> g_full s (p mod gcap s) \<and> g_cpos s (p mod gcap s) = p"
    and "holds_pop (g_pc s u) = Some p \<Longrightarrow>
      p < g_deq s \<and> g_full s (p mod gcap s) \<and> g_cpos s (p mod gcap s) = p"
  using assms by (cases "g_pc s u"; auto simp: thread_ok_def push_local_def pop_local_def)+

lemma holder_elsewhere:
  assumes "conc_inv s" and "u \<noteq> t"
    and "holds_push (g_pc s t) = Some q \<or> holds_pop (g_pc s t) = Some q"
    and "holds_push (g_pc s u) = Some p \<or> holds_pop (g_pc s u) = Some p"
  shows "p mod gcap s \<noteq> q mod gcap s"
proof
  assume eq: "p mod gcap s = q mod gcap s"
  have t: "thread_ok s t" and u: "thread_ok s u" and x: "exclusive s"
    using assms(1) by (auto simp: conc_inv_def)
  from assms(3,4) show False
    using holder_slot [OF t, of q] holder_slot [OF u, of p] eq x assms(2)
    unfolding exclusive_def by metis
qed


section \<open>Every access keeps the invariant\<close>

lemma conc_inv_stepI:
  assumes inv: "conc_inv s" and ev: "evolves s s'" and geom: "ring_geom (g_ring s')"
    and pcs: "\<And>u. u \<noteq> t \<Longrightarrow> g_pc s' u = g_pc s u"
    and pos: "positions_ok s'" and cells: "\<And>i. i < gcap s \<Longrightarrow> cell_inv s' i"
    and me: "thread_ok s' t"
    and log: "g_log s' = g_log s \<or> multi_prod (gmode s) \<or> t = 0"
    and deq: "g_deq s' = g_deq s \<or> multi_cons (gmode s) \<or> t = 1"
    and slots: "\<And>u p. u \<noteq> t \<Longrightarrow> holds_push (g_pc s u) = Some p \<or> holds_pop (g_pc s u) = Some p \<Longrightarrow>
          same_slot s s' (p mod gcap s)"
    and ex: "\<And>u p. u \<noteq> t \<Longrightarrow> holds_push (g_pc s' t) = Some p \<Longrightarrow> holds_push (g_pc s u) \<noteq> Some p"
            "\<And>u p. u \<noteq> t \<Longrightarrow> holds_pop (g_pc s' t) = Some p \<Longrightarrow> holds_pop (g_pc s u) \<noteq> Some p"
    and out: "out_ok s'"
  shows "conc_inv s'"
proof -
  have d: "g_deq s \<le> genq s" using inv by (simp add: conc_inv_def positions_ok_def)
  have "thread_ok s' u" for u
  proof (cases "u = t")
    case False
    have "thread_ok s u" using inv by (simp add: conc_inv_def)
    then show ?thesis
      by (rule thread_ok_stable [OF ev _ pcs [OF False] d]) (use log deq slots False in auto)
  qed (use me in simp)
  moreover have "exclusive s'"
    using inv pcs ex unfolding exclusive_def conc_inv_def by metis
  moreover have "gcap s' = gcap s" using ev by (simp add: evolves_def)
  ultimately show ?thesis using geom pos cells out by (simp add: conc_inv_def)
qed

text \<open>A step that neither claims nor releases a dequeue position keeps the output history.\<close>

lemma out_ok_same:
  assumes "out_ok s" and "g_out s' = g_out s" and "g_deq s' = g_deq s" and "gmode s' = gmode s"
    and "\<And>u. holds_pop (g_pc s' u) = holds_pop (g_pc s u)"
    and "\<And>p. p < g_deq s \<Longrightarrow> g_log s' ! p = g_log s ! p"
  shows "out_ok s'"
proof -
  have "\<forall>(p, f) \<in> set (g_out s'). p < g_deq s' \<and> f = g_log s' ! p
      \<and> (\<forall>u. holds_pop (g_pc s' u) \<noteq> Some p)"
    using assms(1,6) unfolding out_ok_def assms(2,3,5) by (auto simp: split_def)
  then show ?thesis using assms(1) unfolding out_ok_def assms(2-5) by simp
qed

text \<open>Steps that move one program counter and touch nothing else.\<close>

lemma goto_fields [simp]:
  "g_ring (goto t c s) = g_ring s" "g_log (goto t c s) = g_log s" "g_deq (goto t c s) = g_deq s"
  "g_cpos (goto t c s) = g_cpos s" "g_full (goto t c s) = g_full s" "g_out (goto t c s) = g_out s"
  "g_pc (goto t c s) = (g_pc s)(t := c)" "cell_data (goto t c s) = cell_data s"
  by (simp_all add: goto_def cell_data_def fun_eq_iff)

lemma local_goto [simp]:
  "push_local (goto t c s) = push_local s" "pop_local (goto t c s) = pop_local s"
  by (simp_all add: push_local_def pop_local_def fun_eq_iff split: pc.split)

lemma evolves_goto [simp]: "evolves s (goto t c s)"
  by (simp add: evolves_def)

lemma same_slot_goto [simp]: "same_slot s (goto t c s) i"
  by (simp add: same_slot_def)

lemma goto_inv:
  assumes inv: "conc_inv s"
    and "holds_push c = holds_push (g_pc s t)" and "holds_pop c = holds_pop (g_pc s t)"
    and "multi_prod (gmode s) \<or> t \<noteq> 0 \<or> sp_busy c = sp_busy (g_pc s t)"
    and "push_local s c" and "pop_local s c"
    and "is_push c \<longrightarrow> multi_prod (gmode s) \<or> t = 0" and "is_pop c \<longrightarrow> multi_cons (gmode s) \<or> t = 1"
  shows "conc_inv (goto t c s)"
proof (rule conc_inv_stepI [OF inv, where t = t])
  have hp: "holds_push (g_pc (goto t c s) u) = holds_push (g_pc s u)"
    and hq: "holds_pop (g_pc (goto t c s) u) = holds_pop (g_pc s u)" for u
    using assms(2,3) by auto
  show "positions_ok (goto t c s)"
    using inv assms(4) by (auto simp: conc_inv_def positions_ok_def)
  show "cell_inv (goto t c s) i" if "i < gcap s" for i
  proof -
    have "cell_inv s i" using inv that by (simp add: conc_inv_def)
    then show ?thesis unfolding cell_inv_def hp by simp
  qed
  show "out_ok (goto t c s)"
    using inv unfolding conc_inv_def out_ok_def hq by simp
  show "thread_ok (goto t c s) t" using assms(5-8) by (simp add: thread_ok_def)
  show "holds_push (g_pc s u) \<noteq> Some p"
    if "u \<noteq> t" "holds_push (g_pc (goto t c s) t) = Some p" for u p
    using inv that assms(2) by (auto simp: conc_inv_def exclusive_def)
  show "holds_pop (g_pc s u) \<noteq> Some p"
    if "u \<noteq> t" "holds_pop (g_pc (goto t c s) t) = Some p" for u p
    using inv that assms(3) by (auto simp: conc_inv_def exclusive_def)
  show "ring_geom (g_ring (goto t c s))" using inv by (simp add: conc_inv_def)
qed auto

text \<open>Reservation of the next position: the compare-and-exchange of a multi-producer push, or the
  decision of a single producer. \<open>e\<close> is the enqueue position it leaves.\<close>

lemma reserve_inv:
  fixes s :: conc and t :: nat and f :: frame_ptr and b :: bool and pos e :: u64
  defines "s' \<equiv> goto t (PushData f b pos)
                  (s\<lparr>g_ring := (g_ring s)\<lparr>r_enqueue_pos := e\<rparr>, g_log := g_log s @ [f]\<rparr>)"
  assumes inv: "conc_inv s" and pos: "unat pos = genq s"
    and free: "unat pos \<le> g_cpos s (slot_of s pos)"
    and none: "holds_push (g_pc s t) = None" "holds_pop (g_pc s t) = None"
    and role: "multi_prod (gmode s) \<or> t = 0"
    and e: "unat e + (if multi_prod (gmode s) then 0 else 1) = Suc (genq s)"
  shows "conc_inv s'"
proof (rule conc_inv_stepI [OF inv, where t = t])
  let ?i = "slot_of s pos"
  have f: "\<not> g_full s ?i" "g_cpos s ?i = unat pos" "genq s < g_deq s + gcap s"
    using reserve_free [OF inv pos free] by auto
  have P: "positions_ok s" and G: "ring_geom (g_ring s)" and O: "out_ok s"
    using inv by (auto simp: conc_inv_def)
  have F: "ring_cap (g_ring s') = gcap s" "gmode s' = gmode s" "g_log s' = g_log s @ [f]"
    "g_deq s' = g_deq s" "g_cpos s' = g_cpos s" "g_full s' = g_full s" "g_out s' = g_out s"
    "r_cells (g_ring s') = r_cells (g_ring s)" "g_pc s' = (g_pc s)(t := PushData f b pos)"
    "cell_data s' = cell_data s" "r_dequeue_pos (g_ring s') = r_dequeue_pos (g_ring s)"
    "r_enqueue_pos (g_ring s') = e"
    by (simp_all add: s'_def ring_cap_def cell_data_def fun_eq_iff)
  show "evolves s s'" by (simp add: evolves_def F)
  show "ring_geom (g_ring s')" using G by (simp add: s'_def ring_geom_def)
  show "g_pc s' u = g_pc s u" if "u \<noteq> t" for u using that by (simp add: F)
  show "positions_ok s'" using P f(3) e role by (auto simp: positions_ok_def F)
  show "cell_inv s' i" if i: "i < gcap s" for i
  proof -
    have c: "cell_inv s i" using inv i by (simp add: conc_inv_def)
    have "g_cpos s i + gcap s \<noteq> genq s"
    proof
      assume eq: "g_cpos s i + gcap s = genq s"
      then have "i = ?i" using c pos by (metis cell_inv_def mod_add_self2)
      then show False using eq f(2) pos gcap_bounds(3) [OF inv] by simp
    qed
    then have "Suc (genq s) \<le> g_cpos s i + gcap s" using c by (simp add: cell_inv_def)
    moreover have "\<exists>u. holds_push (g_pc s' u) = Some (g_cpos s i)"
      if nf: "\<not> g_full s i" and lt: "g_cpos s i < Suc (genq s)"
    proof (cases "g_cpos s i = genq s")
      case True
      then show ?thesis using pos by (intro exI [of _ t]) (simp add: F)
    next
      case False
      then obtain u where "holds_push (g_pc s u) = Some (g_cpos s i)"
        using c nf lt by (auto simp: cell_inv_def)
      moreover have "u \<noteq> t" using none calculation by auto
      ultimately show ?thesis by (intro exI [of _ u]) (simp add: F)
    qed
    ultimately show ?thesis
      using c unfolding cell_inv_def F by (auto simp: nth_append)
  qed
  show "thread_ok s' t"
    using f pos role e by (auto simp: thread_ok_def push_local_def pop_local_def F nth_append)
  show "same_slot s s' (p mod gcap s)" for p by (simp add: same_slot_def F)
  show "holds_push (g_pc s u) \<noteq> Some p" if "u \<noteq> t" "holds_push (g_pc s' t) = Some p" for u p
  proof -
    have "p = genq s" using that pos by (simp add: F)
    moreover have "thread_ok s u" using inv by (simp add: conc_inv_def)
    ultimately show ?thesis using holder_slot(1) [of s u p] by auto
  qed
  show "holds_pop (g_pc s u) \<noteq> Some p" if "holds_pop (g_pc s' t) = Some p" for u p
    using that by (simp add: F)
  have hq: "holds_pop (g_pc s' u) = holds_pop (g_pc s u)" for u using none by (simp add: F)
  show "out_ok s'"
    by (rule out_ok_same [OF O]) (use P hq in \<open>auto simp: F positions_ok_def nth_append\<close>)
qed (use role in \<open>auto simp: s'_def\<close>)


text \<open>A thread that owns a position writes the data of its cell.\<close>

lemma data_write_inv:
  fixes s :: conc and t :: nat and c :: pc and pos :: u64 and d :: "frame_ptr option"
  defines "s' \<equiv> goto t c (s\<lparr>g_ring := set_cell (g_ring s) pos ((ring_cell (g_ring s) pos)\<lparr>c_data := d\<rparr>)\<rparr>)"
  assumes inv: "conc_inv s"
    and own: "holds_push (g_pc s t) = Some (unat pos) \<or> holds_pop (g_pc s t) = Some (unat pos)"
    and hold: "holds_push c = holds_push (g_pc s t)" "holds_pop c = holds_pop (g_pc s t)"
    and busy: "sp_busy c = sp_busy (g_pc s t)"
    and me: "thread_ok s' t"
  shows "conc_inv s'"
proof (rule conc_inv_stepI [OF inv, where t = t])
  let ?i = "slot_of s pos"
  have G: "ring_geom (g_ring s)" and P: "positions_ok s" and O: "out_ok s" and T: "thread_ok s t"
    using inv by (auto simp: conc_inv_def)
  have len: "?i < length (r_cells (g_ring s))"
    using slot_bound [OF G] ring_cap_bounds(3) [OF G] by simp
  have cells: "r_cells (g_ring s') = (r_cells (g_ring s))[?i := (r_cells (g_ring s) ! ?i)\<lparr>c_data := d\<rparr>]"
    by (simp add: s'_def set_cell_def slot_index [OF G] slot_cell [OF G])
  have F: "ring_cap (g_ring s') = gcap s" "gmode s' = gmode s" "g_log s' = g_log s"
    "g_deq s' = g_deq s" "g_cpos s' = g_cpos s" "g_full s' = g_full s" "g_out s' = g_out s"
    "g_pc s' = (g_pc s)(t := c)" "r_dequeue_pos (g_ring s') = r_dequeue_pos (g_ring s)"
    "r_enqueue_pos (g_ring s') = r_enqueue_pos (g_ring s)"
    by (simp_all add: s'_def set_cell_def ring_cap_def)
  have sq: "c_sequence (r_cells (g_ring s') ! i) = c_sequence (r_cells (g_ring s) ! i)" for i
    by (cases "i = ?i") (use len in \<open>simp_all add: cells\<close>)
  have dt: "cell_data s' i = cell_data s i" if "i \<noteq> ?i" for i
    using that by (simp add: cell_data_def cells)
  have hp: "holds_push (g_pc s' u) = holds_push (g_pc s u)"
    and hq: "holds_pop (g_pc s' u) = holds_pop (g_pc s u)" for u
    using hold by (simp_all add: F)
  show "evolves s s'" by (simp add: evolves_def F)
  show "ring_geom (g_ring s')" using G by (simp add: s'_def)
  show "g_pc s' u = g_pc s u" if "u \<noteq> t" for u using that by (simp add: F)
  show "positions_ok s'" using P busy by (auto simp: positions_ok_def F)
  have nodata: "\<not> (g_full s ?i \<and> g_deq s \<le> g_cpos s ?i)"
    using own holder_slot [OF T, of "unat pos"] by auto
  show "cell_inv s' i" if i: "i < gcap s" for i
  proof -
    have "cell_inv s i" using inv i by (simp add: conc_inv_def)
    then show ?thesis
      using nodata dt unfolding cell_inv_def F(1-7) sq hp by (cases "i = ?i") auto
  qed
  show "thread_ok s' t" by (rule me)
  show "same_slot s s' (p mod gcap s)"
    if "u \<noteq> t" "holds_push (g_pc s u) = Some p \<or> holds_pop (g_pc s u) = Some p" for u p
    using holder_elsewhere [OF inv that(1) own that(2)] dt by (simp add: same_slot_def F)
  show "holds_push (g_pc s u) \<noteq> Some p" if "u \<noteq> t" "holds_push (g_pc s' t) = Some p" for u p
    using inv that unfolding hp by (auto simp: conc_inv_def exclusive_def)
  show "holds_pop (g_pc s u) \<noteq> Some p" if "u \<noteq> t" "holds_pop (g_pc s' t) = Some p" for u p
    using inv that unfolding hq by (auto simp: conc_inv_def exclusive_def)
  show "out_ok s'" by (rule out_ok_same [OF O]) (use hq in \<open>simp_all add: F\<close>)
qed (simp_all add: s'_def set_cell_def)

text \<open>Publication: the producer stores the sequence of its cell.\<close>

lemma publish_inv:
  fixes s :: conc and t :: nat and f :: frame_ptr and b :: bool and c :: pc and pos :: u64
  defines "s' \<equiv> goto t c
      (s\<lparr>g_ring := set_cell (g_ring s) pos ((ring_cell (g_ring s) pos)\<lparr>c_sequence := pos + 1\<rparr>),
         g_full := (g_full s)(ring_index (g_ring s) pos := True)\<rparr>)"
  assumes inv: "conc_inv s" and at: "g_pc s t = PushStoreSeq f b pos"
    and c: "c = (if multi_prod (gmode s) then Done 0 None else PushStorePos f b pos)"
  shows "conc_inv s'"
proof (rule conc_inv_stepI [OF inv, where t = t])
  let ?i = "slot_of s pos"
  have G: "ring_geom (g_ring s)" and P: "positions_ok s" and O: "out_ok s" and T: "thread_ok s t"
    using inv by (auto simp: conc_inv_def)
  have len: "?i < length (r_cells (g_ring s))"
    using slot_bound [OF G] ring_cap_bounds(3) [OF G] by simp
  have own: "unat pos < genq s" "g_log s ! unat pos = f" "\<not> g_full s ?i" "g_cpos s ?i = unat pos"
    "multi_prod (gmode s) \<or> unat pos + 1 = genq s" "cell_data s ?i = Some f"
    "multi_prod (gmode s) \<or> t = 0"
    using T at by (auto simp: thread_ok_def push_local_def)
  have cells: "r_cells (g_ring s') = (r_cells (g_ring s))[?i := (r_cells (g_ring s) ! ?i)\<lparr>c_sequence := pos + 1\<rparr>]"
    by (simp add: s'_def set_cell_def slot_index [OF G] slot_cell [OF G])
  have F: "ring_cap (g_ring s') = gcap s" "gmode s' = gmode s" "g_log s' = g_log s"
    "g_deq s' = g_deq s" "g_cpos s' = g_cpos s" "g_full s' = (g_full s)(?i := True)" "g_out s' = g_out s"
    "g_pc s' = (g_pc s)(t := c)" "r_dequeue_pos (g_ring s') = r_dequeue_pos (g_ring s)"
    "r_enqueue_pos (g_ring s') = r_enqueue_pos (g_ring s)"
    by (simp_all add: s'_def set_cell_def ring_cap_def slot_index [OF G])
  have dt: "cell_data s' i = cell_data s i" for i
    by (cases "i = ?i") (use len in \<open>simp_all add: cell_data_def cells\<close>)
  have hc: "holds_push c = None" "holds_pop c = None" using c by auto
  have hq: "holds_pop (g_pc s' u) = holds_pop (g_pc s u)" for u using hc at by (simp add: F)
  show "evolves s s'" by (simp add: evolves_def F)
  show "ring_geom (g_ring s')" using G by (simp add: s'_def)
  show "g_pc s' u = g_pc s u" if "u \<noteq> t" for u using that by (simp add: F)
  show "positions_ok s'" using P at own(7) by (auto simp: positions_ok_def F c)
  show "cell_inv s' i" if i: "i < gcap s" for i
  proof (cases "i = ?i")
    case True
    have "cell_inv s ?i" by (rule inv_cell [OF inv])
    then show ?thesis using True own len unfolding cell_inv_def F dt by (simp add: cells)
  next
    case False
    have ci: "cell_inv s i" using inv i by (simp add: conc_inv_def)
    have "\<exists>u. holds_push (g_pc s' u) = Some (g_cpos s i)"
      if nf: "\<not> g_full s i" "g_cpos s i < genq s"
    proof -
      obtain u where u: "holds_push (g_pc s u) = Some (g_cpos s i)"
        using ci nf by (auto simp: cell_inv_def)
      have "u \<noteq> t"
      proof
        assume "u = t"
        then have "g_cpos s i = unat pos" using u at by simp
        then show False using ci False by (simp add: cell_inv_def)
      qed
      then show ?thesis using u by (intro exI [of _ u]) (simp add: F)
    qed
    then show ?thesis using False ci unfolding cell_inv_def F dt by (simp add: cells)
  qed
  show "thread_ok s' t"
    using own by (auto simp: thread_ok_def push_local_def pop_local_def F c)
  show "same_slot s s' (p mod gcap s)"
    if "u \<noteq> t" "holds_push (g_pc s u) = Some p \<or> holds_pop (g_pc s u) = Some p" for u p
    using holder_elsewhere [OF inv that(1) _ that(2), of "unat pos"] at dt
    by (simp add: same_slot_def F)
  show "out_ok s'" by (rule out_ok_same [OF O]) (use hq in \<open>simp_all add: F\<close>)
qed (use c in \<open>auto simp: s'_def set_cell_def split: if_splits\<close>)

text \<open>The single producer advances the enqueue position.\<close>

lemma store_pos_inv:
  fixes s :: conc and t :: nat and f :: frame_ptr and b :: bool and pos :: u64
  defines "s' \<equiv> goto t (Done 0 None) (s\<lparr>g_ring := (g_ring s)\<lparr>r_enqueue_pos := pos + 1\<rparr>\<rparr>)"
  assumes inv: "conc_inv s" and range: "in_range s" and at: "g_pc s t = PushStorePos f b pos"
  shows "conc_inv s'"
proof (rule conc_inv_stepI [OF inv, where t = t])
  have G: "ring_geom (g_ring s)" and P: "positions_ok s" and O: "out_ok s" and T: "thread_ok s t"
    using inv by (auto simp: conc_inv_def)
  have own: "\<not> multi_prod (gmode s)" "unat pos + 1 = genq s" "t = 0"
    using T at by (auto simp: thread_ok_def push_local_def)
  have "unat pos + 1 < 2 ^ 64" using own(2) range by (simp add: in_range_def)
  then have up: "unat (pos + 1) = genq s" using own(2) by (simp add: unat_word_ariths)
  have F: "ring_cap (g_ring s') = gcap s" "gmode s' = gmode s" "g_log s' = g_log s"
    "g_deq s' = g_deq s" "g_cpos s' = g_cpos s" "g_full s' = g_full s" "g_out s' = g_out s"
    "g_pc s' = (g_pc s)(t := Done 0 None)" "r_dequeue_pos (g_ring s') = r_dequeue_pos (g_ring s)"
    "r_enqueue_pos (g_ring s') = pos + 1" "r_cells (g_ring s') = r_cells (g_ring s)"
    "cell_data s' = cell_data s"
    by (simp_all add: s'_def ring_cap_def cell_data_def fun_eq_iff)
  have hp: "holds_push (g_pc s' u) = holds_push (g_pc s u)"
    and hq: "holds_pop (g_pc s' u) = holds_pop (g_pc s u)" for u
    using at by (simp_all add: F)
  show "evolves s s'" by (simp add: evolves_def F)
  show "ring_geom (g_ring s')" using G by (simp add: s'_def ring_geom_def)
  show "g_pc s' u = g_pc s u" if "u \<noteq> t" for u using that by (simp add: F)
  show "positions_ok s'" using P own up by (auto simp: positions_ok_def F)
  show "cell_inv s' i" if i: "i < gcap s" for i
  proof -
    have "cell_inv s i" using inv i by (simp add: conc_inv_def)
    then show ?thesis unfolding cell_inv_def hp F(1-7,9-) .
  qed
  show "thread_ok s' t" by (simp add: thread_ok_def push_local_def pop_local_def F)
  show "same_slot s s' (p mod gcap s)" for p by (simp add: same_slot_def F)
  show "out_ok s'" by (rule out_ok_same [OF O]) (use hq in \<open>simp_all add: F\<close>)
qed (simp_all add: s'_def)


text \<open>The claim of the next dequeue position.\<close>

lemma claim_inv:
  fixes s :: conc and t :: nat and pos :: u64
  defines "s' \<equiv> goto t (PopRead pos)
      (s\<lparr>g_ring := (g_ring s)\<lparr>r_dequeue_pos := pos + 1\<rparr>, g_deq := g_deq s + 1\<rparr>)"
  assumes inv: "conc_inv s" and range: "in_range s" and at: "g_pc s t = PopClaim pos"
    and mine: "\<not> multi_cons (gmode s) \<or> r_dequeue_pos (g_ring s) = pos"
  shows "conc_inv s'"
proof (rule conc_inv_stepI [OF inv, where t = t])
  let ?i = "slot_of s pos"
  have G: "ring_geom (g_ring s)" and P: "positions_ok s" and O: "out_ok s" and T: "thread_ok s t"
    using inv by (auto simp: conc_inv_def)
  have know: "multi_cons (gmode s) \<or> unat pos = g_deq s" "multi_cons (gmode s) \<or> t = 1"
    "unat pos < g_cpos s ?i \<or> g_cpos s ?i = unat pos \<and> g_full s ?i"
    using T at by (auto simp: thread_ok_def pop_local_def)
  have pd: "unat pos = g_deq s" using know(1) mine P by (auto simp: positions_ok_def)
  have f: "g_full s ?i" "g_cpos s ?i = unat pos" "g_deq s < genq s"
    using claim_ready [OF inv pd know(3)] by auto
  have up: "unat (pos + 1) = g_deq s + 1"
    using f(3) range pd by (simp add: unat_word_ariths in_range_def)
  have F: "ring_cap (g_ring s') = gcap s" "gmode s' = gmode s" "g_log s' = g_log s"
    "g_deq s' = g_deq s + 1" "g_cpos s' = g_cpos s" "g_full s' = g_full s" "g_out s' = g_out s"
    "r_enqueue_pos (g_ring s') = r_enqueue_pos (g_ring s)" "r_dequeue_pos (g_ring s') = pos + 1"
    "r_cells (g_ring s') = r_cells (g_ring s)" "cell_data s' = cell_data s"
    by (simp_all add: s'_def ring_cap_def cell_data_def fun_eq_iff)
  have pc: "g_pc s' = (g_pc s)(t := PopRead pos)" by (simp add: s'_def)
  have hp: "holds_push (g_pc s' u) = holds_push (g_pc s u)" for u using at by (simp add: pc)
  have hq: "holds_pop (g_pc s' u) = (if u = t then Some (g_deq s) else holds_pop (g_pc s u))" for u
    using pd by (simp add: pc)
  have other: "holds_pop (g_pc s u) \<noteq> Some (g_deq s)" for u
    using inv holder_slot(2) [of s u "g_deq s"] by (auto simp: conc_inv_def)
  show "evolves s s'" by (simp add: evolves_def F)
  show "ring_geom (g_ring s')" using G by (simp add: s'_def ring_geom_def)
  show "g_pc s' u = g_pc s u" if "u \<noteq> t" for u using that by (simp add: pc)
  show "positions_ok s'" using P f(3) up at by (auto simp: positions_ok_def F pc split: if_splits)
  show "cell_inv s' i" if i: "i < gcap s" for i
  proof -
    have c: "cell_inv s i" using inv i by (simp add: conc_inv_def)
    have "g_cpos s i \<noteq> g_deq s" if "\<not> g_full s i"
    proof
      assume eq: "g_cpos s i = g_deq s"
      have "i = ?i" using c eq pd by (simp add: cell_inv_def)
      then show False using that f(1) by simp
    qed
    then show ?thesis using c unfolding cell_inv_def hp F by (auto split: if_splits)
  qed
  have "cell_data s ?i = Some (g_log s ! unat pos)"
    using inv_cell [OF inv, of pos] f pd by (simp add: cell_inv_def)
  then show "thread_ok s' t"
    using f pd know(2) by (auto simp: thread_ok_def push_local_def pop_local_def F pc)
  show "g_deq s' = g_deq s \<or> multi_cons (gmode s) \<or> t = 1" using know(2) by auto
  show "same_slot s s' (p mod gcap s)" for p by (simp add: same_slot_def F)
  show "holds_pop (g_pc s u) \<noteq> Some p" if "u \<noteq> t" "holds_pop (g_pc s' t) = Some p" for u p
    using that other by (simp add: hq)
  show "out_ok s'"
  proof -
    have mine': "holds_pop (g_pc s t) = None" using at by simp
    have "(\<forall>(p, f) \<in> set (g_out s). p < g_deq s + 1 \<and> f = g_log s ! p \<and> (\<forall>u. holds_pop (g_pc s' u) \<noteq> Some p))"
      using O other unfolding out_ok_def hq by (auto split: if_splits)
    moreover have "p \<in> fst ` set (g_out s) \<or> (\<exists>u. holds_pop (g_pc s' u) = Some p)"
      if "p < g_deq s + 1" for p
    proof (cases "p = g_deq s")
      case True
      then show ?thesis by (intro disjI2 exI [of _ t]) (simp add: hq)
    next
      case False
      then have "p \<in> fst ` set (g_out s) \<or> (\<exists>u. holds_pop (g_pc s u) = Some p)"
        using O that by (simp add: out_ok_def)
      then show ?thesis using mine' unfolding hq by (metis option.distinct(1))
    qed
    ultimately show ?thesis using O unfolding out_ok_def F by blast
  qed
qed (simp_all add: s'_def)

text \<open>The release of a claimed position: the consumer stores the sequence of the next lap.\<close>

lemma release_inv:
  fixes s :: conc and t :: nat and pos :: u64 and f :: "frame_ptr option"
  defines "s' \<equiv> goto t (Done 0 f)
      (s\<lparr>g_ring := set_cell (g_ring s) pos ((ring_cell (g_ring s) pos)\<lparr>c_sequence := pos + r_capacity (g_ring s)\<rparr>),
         g_cpos := (g_cpos s)(ring_index (g_ring s) pos := unat pos + unat (r_capacity (g_ring s))),
         g_full := (g_full s)(ring_index (g_ring s) pos := False),
         g_out := g_out s @ (case f of None \<Rightarrow> [] | Some x \<Rightarrow> [(unat pos, x)])\<rparr>)"
  assumes inv: "conc_inv s" and at: "g_pc s t = PopStoreSeq pos f"
  shows "conc_inv s'"
proof (rule conc_inv_stepI [OF inv, where t = t])
  let ?i = "slot_of s pos"
  have G: "ring_geom (g_ring s)" and P: "positions_ok s" and O: "out_ok s" and T: "thread_ok s t"
    using inv by (auto simp: conc_inv_def)
  have len: "?i < length (r_cells (g_ring s))"
    using slot_bound [OF G] ring_cap_bounds(3) [OF G] by simp
  have own: "unat pos < g_deq s" "g_full s ?i" "g_cpos s ?i = unat pos"
    "multi_cons (gmode s) \<or> unat pos + 1 = g_deq s" "f = Some (g_log s ! unat pos)"
    "multi_cons (gmode s) \<or> t = 1"
    using T at by (auto simp: thread_ok_def pop_local_def)
  have cap: "unat (r_capacity (g_ring s)) = gcap s" by (simp add: ring_cap_def)
  have cells: "r_cells (g_ring s') = (r_cells (g_ring s))
      [?i := (r_cells (g_ring s) ! ?i)\<lparr>c_sequence := pos + r_capacity (g_ring s)\<rparr>]"
    by (simp add: s'_def set_cell_def slot_index [OF G] slot_cell [OF G])
  have F: "ring_cap (g_ring s') = gcap s" "gmode s' = gmode s" "g_log s' = g_log s"
    "g_deq s' = g_deq s" "g_cpos s' = (g_cpos s)(?i := unat pos + gcap s)"
    "g_full s' = (g_full s)(?i := False)"
    "g_out s' = g_out s @ [(unat pos, g_log s ! unat pos)]"
    "r_dequeue_pos (g_ring s') = r_dequeue_pos (g_ring s)"
    "r_enqueue_pos (g_ring s') = r_enqueue_pos (g_ring s)"
    by (simp_all add: s'_def set_cell_def ring_cap_def slot_index [OF G] own(5))
  have pc: "g_pc s' = (g_pc s)(t := Done 0 f)" by (simp add: s'_def)
  have dt: "cell_data s' i = cell_data s i" for i
    by (cases "i = ?i") (use len in \<open>simp_all add: cell_data_def cells\<close>)
  have hp: "holds_push (g_pc s' u) = holds_push (g_pc s u)" for u using at by (simp add: pc)
  have hq: "holds_pop (g_pc s' u) = (if u = t then None else holds_pop (g_pc s u))" for u
    by (simp add: pc)
  have mine: "holds_pop (g_pc s t) = Some (unat pos)" using at by simp
  show "evolves s s'" using own(3) gcap_bounds(3) [OF inv] by (simp add: evolves_def F)
  show "ring_geom (g_ring s')" using G by (simp add: s'_def)
  show "g_pc s' u = g_pc s u" if "u \<noteq> t" for u using that by (simp add: pc)
  show "positions_ok s'" using P at by (auto simp: positions_ok_def F pc split: if_splits)
  show "cell_inv s' i" if i: "i < gcap s" for i
  proof (cases "i = ?i")
    case True
    have "pos + r_capacity (g_ring s) = of_nat (unat pos + gcap s)" by (simp add: ring_cap_def)
    moreover have "genq s \<le> unat pos + gcap s" "g_deq s \<le> unat pos + gcap s" "genq s \<le> g_deq s + gcap s"
      using inv_cell [OF inv, of pos] own P by (auto simp: cell_inv_def positions_ok_def)
    ultimately show ?thesis using True own(1) len by (simp add: cell_inv_def F cells)
  next
    case False
    have "cell_inv s i" using inv i by (simp add: conc_inv_def)
    then show ?thesis using False unfolding cell_inv_def hp F dt by (simp add: cells)
  qed
  show "thread_ok s' t" by (simp add: thread_ok_def push_local_def pop_local_def pc)
  show "same_slot s s' (p mod gcap s)"
    if "u \<noteq> t" "holds_push (g_pc s u) = Some p \<or> holds_pop (g_pc s u) = Some p" for u p
    using holder_elsewhere [OF inv that(1) _ that(2), of "unat pos"] at dt
    by (simp add: same_slot_def F)
  show "out_ok s'"
  proof -
    have fresh: "unat pos \<notin> fst ` set (g_out s)" using O mine by (force simp: out_ok_def)
    have uniq: "holds_pop (g_pc s u) \<noteq> Some (unat pos)" if "u \<noteq> t" for u
      using inv mine that by (auto simp: conc_inv_def exclusive_def)
    have "\<forall>(p, x) \<in> set (g_out s'). p < g_deq s \<and> x = g_log s ! p \<and> (\<forall>u. holds_pop (g_pc s' u) \<noteq> Some p)"
      using O own(1) uniq unfolding out_ok_def hq F by (auto split: if_splits)
    moreover have "distinct (map fst (g_out s'))" using O fresh by (simp add: out_ok_def F)
    moreover have "\<forall>p<g_deq s. p \<in> fst ` set (g_out s') \<or> (\<exists>u. holds_pop (g_pc s' u) = Some p)"
    proof (intro allI impI)
      fix p assume "p < g_deq s"
      then consider "p \<in> fst ` set (g_out s)" | u where "holds_pop (g_pc s u) = Some p"
        using O unfolding out_ok_def by blast
      then show "p \<in> fst ` set (g_out s') \<or> (\<exists>u. holds_pop (g_pc s' u) = Some p)"
      proof cases
        case (2 u)
        then show ?thesis using mine by (cases "u = t") (auto simp: F hq)
      qed (simp add: F)
    qed
    moreover have "map fst (g_out s') = [0..<length (g_out s')]" if nm: "\<not> multi_cons (gmode s)"
    proof -
      have l: "map fst (g_out s) = [0..<length (g_out s)]" using O nm by (simp add: out_ok_def)
      have S: "fst ` set (g_out s) = {..<length (g_out s)}" using arg_cong [OF l, of set] by auto
      have "p < unat pos" if "p \<in> fst ` set (g_out s)" for p
      proof -
        have "p < g_deq s" using O that by (auto simp: out_ok_def)
        moreover have "p \<noteq> unat pos" using that fresh by blast
        ultimately show ?thesis using own(4) nm by simp
      qed
      moreover have "p \<in> fst ` set (g_out s)" if lt: "p < unat pos" for p
      proof -
        have "u = t" if "holds_pop (g_pc s u) = Some p" for u
        proof -
          have "is_pop (g_pc s u)" using that by (cases "g_pc s u") auto
          then have "u = 1" using inv nm by (auto simp: conc_inv_def thread_ok_def)
          then show ?thesis using own(6) nm by simp
        qed
        then show ?thesis using O lt own(1) mine unfolding out_ok_def by (metis less_trans nat_less_le option.inject)
      qed
      ultimately have "unat pos = length (g_out s)" unfolding S by (meson lessThan_iff linorder_neqE_nat less_irrefl)
      then show ?thesis using l by (simp add: F)
    qed
    ultimately show ?thesis by (simp add: out_ok_def F(2-4))
  qed
qed (auto simp: s'_def set_cell_def)


section \<open>Preservation\<close>

lemma push_step_inv:
  assumes inv: "conc_inv s" and range: "in_range s" and push: "is_push (g_pc s t)"
  shows "conc_inv (push_step b t s)"
proof -
  have T: "thread_ok s t" and P: "positions_ok s" and G: "ring_geom (g_ring s)"
    using inv by (auto simp: conc_inv_def)
  have role: "multi_prod (gmode s) \<or> t = 0" using T push by (simp add: thread_ok_def)
  have goto: "conc_inv (goto t c s)"
    if "holds_push (g_pc s t) = None" "sp_busy (g_pc s t) = 0" "holds_push c = None" "holds_pop c = None"
      "sp_busy c = 0" "push_local s c" "\<not> is_pop c" "pop_local s c" for c
    by (rule goto_inv [OF inv]) (use that role push in \<open>cases "g_pc s t"; auto\<close>)+
  show ?thesis
  proof (cases "g_pc s t")
    case (PushClosed f r)
    then show ?thesis by (simp add: push_step_def goto push_local_def pop_local_def)
  next
    case (PushPos f r)
    have "unat (r_enqueue_pos (g_ring s)) \<le> genq s"
      "multi_prod (gmode s) \<or> unat (r_enqueue_pos (g_ring s)) = genq s"
      using P PushPos role by (auto simp: positions_ok_def split: if_splits)
    then show ?thesis using PushPos by (simp add: push_step_def goto push_local_def pop_local_def)
  next
    case (PushSeq f r pos)
    have know: "unat pos \<le> genq s" "multi_prod (gmode s) \<or> unat pos = genq s"
      using T PushSeq by (auto simp: thread_ok_def push_local_def)
    show ?thesis
    proof (cases "c_sequence (ring_cell (g_ring s) pos) = pos")
      case True
      note free = seen_free [OF inv range True]
      show ?thesis
      proof (cases "multi_prod (gmode s)")
        case mp: True
        have "conc_inv (goto t (PushCas f r pos) s)"
          by (rule goto) (use PushSeq mp free know in \<open>simp_all add: push_local_def pop_local_def\<close>)
        then show ?thesis using PushSeq True mp by (simp add: push_step_def Let_def)
      next
        case sp: False
        then have t: "t = 0" and pos: "unat pos = genq s" using role know by auto
        have e: "unat (r_enqueue_pos (g_ring s)) = genq s"
          using P PushSeq sp t by (simp add: positions_ok_def)
        have "conc_inv (goto t (PushData f r pos)
            (s\<lparr>g_ring := (g_ring s)\<lparr>r_enqueue_pos := r_enqueue_pos (g_ring s)\<rparr>, g_log := g_log s @ [f]\<rparr>))"
          by (rule reserve_inv [OF inv pos]) (use PushSeq free sp t e in simp_all)
        then show ?thesis using PushSeq True sp by (simp add: push_step_def Let_def)
      qed
    next
      case False
      then show ?thesis
        using PushSeq by (simp add: push_step_def goto push_local_def pop_local_def)
    qed
  next
    case (PushCas f r pos)
    have know: "multi_prod (gmode s)" "unat pos \<le> g_cpos s (slot_of s pos)"
      using T PushCas by (auto simp: thread_ok_def push_local_def)
    show ?thesis
    proof (cases "r_enqueue_pos (g_ring s) = pos \<and> \<not> b")
      case True
      then have pos: "unat pos = genq s" using P know(1) by (auto simp: positions_ok_def)
      then have "unat (pos + 1) = Suc (genq s)"
        using range by (simp add: unat_word_ariths in_range_def)
      then have "conc_inv (goto t (PushData f r pos)
          (s\<lparr>g_ring := (g_ring s)\<lparr>r_enqueue_pos := pos + 1\<rparr>, g_log := g_log s @ [f]\<rparr>))"
        by (intro reserve_inv [OF inv pos]) (use PushCas know in simp_all)
      then show ?thesis using PushCas True by (simp add: push_step_def Let_def)
    next
      case False
      then show ?thesis
        using PushCas by (auto simp add: push_step_def goto push_local_def pop_local_def)
    qed
  next
    case (PushData f r pos)
    let ?s' = "goto t (PushStoreSeq f r pos)
        (s\<lparr>g_ring := set_cell (g_ring s) pos ((ring_cell (g_ring s) pos)\<lparr>c_data := Some f\<rparr>)\<rparr>)"
    have len: "slot_of s pos < length (r_cells (g_ring s))"
      using slot_bound [OF G] ring_cap_bounds(3) [OF G] by simp
    have "thread_ok ?s' t"
      using T PushData len by (auto simp: thread_ok_def push_local_def pop_local_def cell_data_def
          set_cell_def slot_index [OF G] ring_cap_def)
    then have "conc_inv ?s'"
      by (intro data_write_inv [OF inv]) (use PushData in simp_all)
    then show ?thesis using PushData by (simp add: push_step_def Let_def)
  next
    case (PushStoreSeq f r pos)
    from publish_inv [OF inv PushStoreSeq refl] show ?thesis
      using PushStoreSeq by (simp add: push_step_def Let_def)
  next
    case (PushStorePos f r pos)
    from store_pos_inv [OF inv range PushStorePos] show ?thesis
      using PushStorePos by (simp add: push_step_def Let_def)
  qed (use push in auto)
qed

lemma pop_step_inv:
  assumes inv: "conc_inv s" and range: "in_range s" and pop: "is_pop (g_pc s t)"
  shows "conc_inv (pop_step b t s)"
proof -
  have T: "thread_ok s t" and P: "positions_ok s" and G: "ring_geom (g_ring s)"
    using inv by (auto simp: conc_inv_def)
  have role: "multi_cons (gmode s) \<or> t = 1" using T pop by (simp add: thread_ok_def)
  have busy: "sp_busy (g_pc s t) = 0" "holds_push (g_pc s t) = None"
    using pop by (cases "g_pc s t"; simp)+
  have goto: "conc_inv (goto t c s)"
    if "holds_pop c = holds_pop (g_pc s t)" "pop_local s c" "push_local s c" "\<not> is_push c" for c
    by (rule goto_inv [OF inv]) (use that role busy in \<open>cases c; auto\<close>)+
  show ?thesis
  proof (cases "g_pc s t")
    case PopPos
    have "unat (r_dequeue_pos (g_ring s)) = g_deq s" using P by (simp add: positions_ok_def)
    then show ?thesis using PopPos by (simp add: pop_step_def goto push_local_def pop_local_def)
  next
    case (PopSeq pos)
    have know: "unat pos \<le> g_deq s" "multi_cons (gmode s) \<or> unat pos = g_deq s"
      using T PopSeq by (auto simp: thread_ok_def pop_local_def)
    have "unat pos \<le> 2 ^ 62" using know(1) P range by (simp add: positions_ok_def in_range_def)
    then have "g_full s (slot_of s pos) \<and> g_cpos s (slot_of s pos) = unat pos"
      if "c_sequence (ring_cell (g_ring s) pos) = pos + 1"
      using seen_ready [OF inv range _ that] by simp
    then show ?thesis
      using PopSeq know
      by (auto simp: pop_step_def Let_def push_local_def pop_local_def intro!: goto)
  next
    case (PopClaim pos)
    show ?thesis
    proof (cases "multi_cons (gmode s) \<and> (r_dequeue_pos (g_ring s) \<noteq> pos \<or> b)")
      case True
      then show ?thesis
        using PopClaim by (simp add: pop_step_def goto push_local_def pop_local_def)
    next
      case False
      then have "\<not> multi_cons (gmode s) \<or> r_dequeue_pos (g_ring s) = pos" by auto
      from claim_inv [OF inv range PopClaim this] False show ?thesis
        using PopClaim by (auto simp: pop_step_def Let_def)
    qed
  next
    case (PopRead pos)
    have "conc_inv (goto t (PopClear pos (c_data (ring_cell (g_ring s) pos))) s)"
      by (rule goto) (use T PopRead in \<open>auto simp: thread_ok_def push_local_def pop_local_def
          cell_data_def slot_cell [OF G]\<close>)
    then show ?thesis using PopRead by (simp add: pop_step_def Let_def)
  next
    case (PopClear pos f)
    let ?s' = "goto t (PopStoreSeq pos f)
        (s\<lparr>g_ring := set_cell (g_ring s) pos ((ring_cell (g_ring s) pos)\<lparr>c_data := None\<rparr>)\<rparr>)"
    have "thread_ok ?s' t"
      using T PopClear by (auto simp: thread_ok_def push_local_def pop_local_def set_cell_def ring_cap_def)
    then have "conc_inv ?s'"
      by (intro data_write_inv [OF inv]) (use PopClear in simp_all)
    then show ?thesis using PopClear by (simp add: pop_step_def Let_def)
  next
    case (PopStoreSeq pos f)
    from release_inv [OF inv PopStoreSeq] show ?thesis
      using PopStoreSeq by (simp add: pop_step_def Let_def)
  next
    case (PopClosed pos)
    then show ?thesis by (simp add: pop_step_def goto push_local_def pop_local_def)
  next
    case (PopSeq2 pos)
    then show ?thesis by (simp add: pop_step_def goto push_local_def pop_local_def)
  qed (use pop in auto)
qed

text \<open>Closing and reopening move the flag and nothing the invariant speaks of.\<close>

lemma closed_inv:
  assumes "conc_inv s"
  shows "conc_inv (s\<lparr>g_ring := (g_ring s)\<lparr>r_closed := b, r_cv := n\<rparr>\<rparr>)"
proof (rule conc_inv_stepI [OF assms, where t = 0])
  let ?s = "s\<lparr>g_ring := (g_ring s)\<lparr>r_closed := b, r_cv := n\<rparr>\<rparr>"
  have F: "ring_cap (g_ring ?s) = gcap s" "cell_data ?s = cell_data s"
    by (simp_all add: ring_cap_def cell_data_def fun_eq_iff)
  have L: "push_local ?s = push_local s" "pop_local ?s = pop_local s"
    by (simp_all add: push_local_def pop_local_def F fun_eq_iff split: pc.split)
  show "evolves s ?s" by (simp add: evolves_def F)
  show "ring_geom (g_ring ?s)" using assms by (simp add: conc_inv_def ring_geom_def)
  show "positions_ok ?s" using assms by (auto simp add: conc_inv_def positions_ok_def F)
  show "cell_inv ?s i" if "i < gcap s" for i
    using assms that unfolding conc_inv_def cell_inv_def F by simp
  show "thread_ok ?s 0" using assms by (auto simp: conc_inv_def thread_ok_def L)
  show "same_slot s ?s (p mod gcap s)" for p by (simp add: same_slot_def F)
  show "out_ok ?s" using assms unfolding conc_inv_def out_ok_def by simp
  show "holds_push (g_pc s u) \<noteq> Some p" if "u \<noteq> 0" "holds_push (g_pc ?s 0) = Some p" for u p
    using assms that by (auto simp: conc_inv_def exclusive_def)
  show "holds_pop (g_pc s u) \<noteq> Some p" if "u \<noteq> 0" "holds_pop (g_pc ?s 0) = Some p" for u p
    using assms that by (auto simp: conc_inv_def exclusive_def)
qed simp_all

lemma conc_step_inv:
  assumes inv: "conc_inv s" and range: "in_range s" and step: "conc_step e s = Some s'"
  shows "conc_inv s'"
proof (cases e)
  case (CallPush t f r)
  then have "g_pc s t = Idle" "multi_prod (gmode s) \<or> t = 0" "s' = goto t (PushClosed f r) s"
    using step by (auto simp: conc_step_def Let_def split: if_splits)
  then show ?thesis by (auto intro!: goto_inv [OF inv] simp: push_local_def pop_local_def)
next
  case (CallPop t)
  then have "g_pc s t = Idle" "multi_cons (gmode s) \<or> t = 1" "s' = goto t PopPos s"
    using step by (auto simp: conc_step_def Let_def split: if_splits)
  then show ?thesis by (auto intro!: goto_inv [OF inv] simp: push_local_def pop_local_def)
next
  case (Step t b)
  consider "is_push (g_pc s t)" "s' = push_step b t s" | "is_pop (g_pc s t)" "s' = pop_step b t s"
    | i f where "g_pc s t = Done i f" "s' = goto t Idle s"
    using step Step by (cases "g_pc s t") (auto simp: conc_step_def)
  then show ?thesis
  proof cases
    case 3
    then show ?thesis by (auto intro!: goto_inv [OF inv] simp: push_local_def pop_local_def)
  qed (use push_step_inv [OF inv range] pop_step_inv [OF inv range] in auto)
next
  case Close
  then show ?thesis
    using step closed_inv [OF inv, where b = True and n = "[]"]
    by (auto simp: conc_step_def awp_ring_close_def awp_ring_wake_all_def)
next
  case Reopen
  then show ?thesis
    using step closed_inv [OF inv, where b = False and n = "[]"]
    by (auto simp: conc_step_def awp_ring_reopen_def awp_ring_wake_all_def)
qed


section \<open>Reachable states\<close>

lemma conc_step_log:
  assumes "conc_step e s = Some s'"
  shows "\<exists>ext. g_log s' = g_log s @ ext"
proof -
  have "\<exists>ext. g_log (push_step b t s) = g_log s @ ext" for b t
    by (cases "g_pc s t") (auto simp: push_step_def Let_def)
  moreover have "g_log (pop_step b t s) = g_log s" for b t
    by (cases "g_pc s t") (auto simp: pop_step_def Let_def)
  ultimately show ?thesis
    using assms
    by (cases e) (auto simp: conc_step_def Let_def split: if_splits pc.splits)
qed

lemma conc_init_inv:
  assumes "fresh_ring r"
  shows "conc_inv (conc_init r)"
proof -
  have ok: "ring_ok r" and z: "r_enqueue_pos r = 0" "r_dequeue_pos r = 0" and G: "ring_geom r"
    using assms by (auto simp: fresh_ring_def open_ring_def ring_ok_def)
  have "cell_inv (conc_init r) i" if "i < ring_cap r" for i
  proof -
    have len: "ring_len r = 0" by (simp add: ring_len_def z)
    have "cell_ok r i" using ok that by (simp add: ring_ok_def)
    then have "c_sequence (ring_cell r (of_nat i)) = of_nat i"
      by (simp add: cell_ok_def Let_def ring_pos_def z len)
    moreover have "ring_index r (of_nat i) = i"
      using ring_index_add [OF G, of 0 i] that by simp
    ultimately show ?thesis
      using that by (simp add: cell_inv_def conc_init_def ring_cell_def)
  qed
  then show ?thesis
    using G z by (simp add: conc_inv_def conc_init_def positions_ok_def thread_ok_def exclusive_def
        out_ok_def push_local_def pop_local_def)
qed

lemma conc_reach_inv:
  assumes "conc_reach r s" and "fresh_ring r" and "in_range s"
  shows "conc_inv s"
  using assms
proof (induction rule: conc_reach.induct)
  case start
  then show ?case by (simp add: conc_init_inv)
next
  case (step s e s')
  have "in_range s" using step.prems(2) conc_step_log [OF step.hyps(2)] by (auto simp: in_range_def)
  with step show ?case by (blast intro: conc_step_inv)
qed

lemma conc_reach_mode:
  assumes "conc_reach r s" shows "gmode s = r_mode r \<and> gcap s = ring_cap r"
  using assms
proof (induction rule: conc_reach.induct)
  case (step s e s')
  have "gmode (push_step b t s) = gmode s \<and> gcap (push_step b t s) = gcap s" for b t
    by (cases "g_pc s t") (auto simp: push_step_def Let_def ring_cap_def set_cell_def)
  moreover have "gmode (pop_step b t s) = gmode s \<and> gcap (pop_step b t s) = gcap s" for b t
    by (cases "g_pc s t") (auto simp: pop_step_def Let_def ring_cap_def set_cell_def)
  ultimately have "gmode s' = gmode s \<and> gcap s' = gcap s"
    using step.hyps(2)
    by (cases e) (auto simp: conc_step_def Let_def awp_ring_close_def awp_ring_reopen_def
        awp_ring_wake_all_def ring_cap_def split: if_splits pc.splits)
  with step.IH show ?case by simp
qed (simp add: conc_init_def)

text \<open>When no thread is inside an operation the ring is a plain queue again.\<close>

definition quiescent :: "conc \<Rightarrow> bool" where
  "quiescent s \<longleftrightarrow> (\<forall>t. g_pc s t = Idle)"

lemma slot_at:
  assumes inv: "conc_inv s" and nh: "\<And>t. holds_push (g_pc s t) = None"
    and p: "g_deq s \<le> p" "p < genq s"
  shows "g_full s (p mod gcap s) \<and> g_cpos s (p mod gcap s) = p"
proof -
  let ?i = "p mod gcap s"
  have i: "?i < gcap s" using gcap_bounds(3) [OF inv] by simp
  have c: "cell_inv s ?i" using inv i by (simp add: conc_inv_def)
  have w: "genq s \<le> g_deq s + gcap s" using inv by (simp add: conc_inv_def positions_ok_def)
  have m: "g_cpos s ?i mod gcap s = p mod gcap s" using c by (simp add: cell_inv_def)
  show ?thesis
  proof (cases "g_full s ?i")
    case True
    then have lt: "g_cpos s ?i < genq s" "genq s \<le> g_cpos s ?i + gcap s" using c by (auto simp: cell_inv_def)
    have "g_cpos s ?i = p" by (rule cong_window [OF m]) (use lt p w in auto)
    then show ?thesis using True by simp
  next
    case False
    then have lt: "genq s \<le> g_cpos s ?i" "g_cpos s ?i < g_deq s + gcap s"
      using c nh by (auto simp: cell_inv_def not_less [symmetric])
    have "g_cpos s ?i = p" by (rule cong_window [OF m]) (use lt p w in auto)
    then show ?thesis using lt p by simp
  qed
qed

lemma quiescent_abs:
  assumes inv: "conc_inv s" and range: "in_range s" and q: "quiescent s"
  shows "ring_abs (g_ring s) = map Some (drop (g_deq s) (g_log s))"
proof (rule nth_equalityI)
  have P: "unat (r_enqueue_pos (g_ring s)) = genq s" "unat (r_dequeue_pos (g_ring s)) = g_deq s"
    "g_deq s \<le> genq s" and G: "ring_geom (g_ring s)"
    using inv q by (auto simp: conc_inv_def positions_ok_def quiescent_def split: if_splits)
  have len: "ring_len (g_ring s) = genq s - g_deq s"
    using P unat_sub [of "r_dequeue_pos (g_ring s)" "r_enqueue_pos (g_ring s)"]
    by (simp add: ring_len_def word_le_nat_alt)
  then show "length (ring_abs (g_ring s)) = length (map Some (drop (g_deq s) (g_log s)))" by simp
  fix j assume "j < length (ring_abs (g_ring s))"
  then have j: "g_deq s + j < genq s" using len by simp
  let ?p = "ring_pos (g_ring s) j"
  have up: "unat ?p = g_deq s + j"
    using j range P by (simp add: ring_pos_def unat_word_ariths unat_of_nat_small64 in_range_def)
  have f: "g_full s (slot_of s ?p)" "g_cpos s (slot_of s ?p) = unat ?p"
    using slot_at [OF inv, of "g_deq s + j"] q j up by (simp_all add: quiescent_def)
  have "c_sequence (ring_cell (g_ring s) ?p) = ?p + 1"
    using inv_cell [OF inv, of ?p] f by (simp add: cell_inv_def slot_cell [OF G])
  moreover have "c_data (ring_cell (g_ring s) ?p) = Some (g_log s ! (g_deq s + j))"
    using inv_cell [OF inv, of ?p] f up by (simp add: cell_inv_def slot_cell [OF G] cell_data_def)
  ultimately show "ring_abs (g_ring s) ! j = map Some (drop (g_deq s) (g_log s)) ! j"
    using j len by (simp add: nth_ring_abs slot_def Let_def P)
qed

lemma quiescent_out:
  assumes inv: "conc_inv s" and q: "quiescent s"
  shows "mset (map snd (g_out s)) = mset (take (g_deq s) (g_log s))"
proof -
  have O: "out_ok s" and d: "g_deq s \<le> genq s" using inv by (auto simp: conc_inv_def positions_ok_def)
  have nh: "holds_pop (g_pc s t) = None" for t using q by (simp add: quiescent_def)
  have "fst ` set (g_out s) = {..<g_deq s}" using O nh by (auto simp: out_ok_def)
  then have "mset (map fst (g_out s)) = mset [0..<g_deq s]"
    using O by (intro iffD2 [OF set_eq_iff_mset_eq_distinct [symmetric]] ) (auto simp: out_ok_def)
  moreover have "map snd (g_out s) = map ((!) (g_log s)) (map fst (g_out s))"
    using O by (auto simp: out_ok_def)
  moreover have "take (g_deq s) (g_log s) = map ((!) (g_log s)) [0..<g_deq s]"
    using d by (simp add: list_eq_iff_nth_eq)
  ultimately show ?thesis by (metis mset_map)
qed


section \<open>Properties\<close>

text \<open>Executing a schedule.\<close>

fun run :: "event list \<Rightarrow> conc \<Rightarrow> conc option" where
  "run [] s = Some s"
| "run (e # es) s = Option.bind (conc_step e s) (run es)"

lemma run_reach: "conc_reach r s \<Longrightarrow> run es s = Some s' \<Longrightarrow> conc_reach r s'"
  by (induction es arbitrary: s) (auto intro: conc_reach.step split: bind_splits)

text \<open>Two producers race for one position: thread 2 wins the compare-and-exchange, thread 3 fails
  and retries; the consumer claims the first frame while thread 3 writes the second.\<close>

definition demo_race :: "event list" where
  "demo_race =
     [CallPush 2 (FramePtr 7 0) False, CallPush 3 (FramePtr 8 0) False,
      Step 2 False, Step 3 False, Step 2 False, Step 3 False, Step 2 False, Step 3 False,
      Step 2 False, Step 3 False, Step 2 False, Step 2 False,
      Step 3 False, Step 3 False, Step 3 False, Step 3 False,
      CallPop 1, Step 1 False, Step 1 False, Step 1 False]"

definition demo_rest :: "event list" where
  "demo_rest =
     [Step 3 False, Step 3 False, Step 1 False, Step 1 False, Step 1 False,
      Step 1 False, Step 2 False, Step 3 False]"

lemmas conc_exec = conc_step_def push_step_def pop_step_def goto_def ring_cell_def ring_index_def
  set_cell_def Let_def multi_prod_def multi_cons_def seq_dif_def conc_init_def demo_ring_def
  zero_ring_def init_cells_def

lemma demo_fresh: "fresh_ring demo_ring"
  using demo_ring_ok by (simp add: fresh_ring_def) (simp add: demo_ring_def zero_ring_def)

lemma demo_race_run:
  "\<exists>s. run demo_race (conc_init demo_ring) = Some s \<and> g_pc s 3 = PushData (FramePtr 8 0) False 1
     \<and> g_pc s 1 = PopRead 0 \<and> g_log s = [FramePtr 7 0, FramePtr 8 0]"
  by (simp add: demo_race_def conc_exec numeral_2_eq_2)

lemma demo_rest_run:
  "\<exists>s. run (demo_race @ demo_rest) (conc_init demo_ring) = Some s \<and> quiescent s
     \<and> g_log s = [FramePtr 7 0, FramePtr 8 0] \<and> g_deq s = 1 \<and> g_out s = [(0, FramePtr 7 0)]"
  by (simp add: demo_race_def demo_rest_def quiescent_def conc_exec numeral_2_eq_2)

text \<open>C1. Exactly once: with any number of producers and consumers, in any interleaving of their
  shared accesses and of close and reopen, every frame handed out is the frame reserved at its
  position, no position is handed out twice, and the frames reserved but not yet claimed
  never exceed the capacity.\<close>

theorem ring_conc_exactly_once:
  assumes "conc_reach r s" and "fresh_ring r" and "length (g_log s) \<le> 2 ^ 62"
  shows "distinct (map fst (g_out s)) \<and> set (g_out s) \<subseteq> {(p, g_log s ! p) |p. p < g_deq s}
    \<and> g_deq s \<le> length (g_log s) \<and> length (g_log s) \<le> g_deq s + ring_cap r"
proof -
  have inv: "conc_inv s" using conc_reach_inv [OF assms(1,2)] assms(3) by (simp add: in_range_def)
  then show ?thesis
    using conc_reach_mode [OF assms(1)] by (auto simp: conc_inv_def out_ok_def positions_ok_def)
qed

theorem ring_conc_exactly_once_witness:
  "\<exists>s. conc_reach demo_ring s \<and> g_out s = [(0, FramePtr 7 0)] \<and> distinct (map fst (g_out s))
     \<and> length (g_log s) \<le> g_deq s + 2"
proof -
  obtain s where s: "run (demo_race @ demo_rest) (conc_init demo_ring) = Some s"
    "g_log s = [FramePtr 7 0, FramePtr 8 0]" "g_out s = [(0, FramePtr 7 0)]"
    using demo_rest_run by auto
  have r: "conc_reach demo_ring s" by (rule run_reach [OF conc_reach.start s(1)])
  from ring_conc_exactly_once [OF r demo_fresh] s r show ?thesis
    by (intro exI [of _ s]) (simp add: demo_ring_ok)
qed

text \<open>Per-ring order: with a single consumer the frames come out in exactly the order of
  their reservation, without a gap.\<close>

theorem ring_conc_single_consumer_fifo:
  assumes "conc_reach r s" and "fresh_ring r" and "length (g_log s) \<le> 2 ^ 62"
    and "r_mode r = AWP_RING_SPSC \<or> r_mode r = AWP_RING_MPSC"
  shows "map snd (g_out s) = take (length (g_out s)) (g_log s)"
proof -
  have inv: "conc_inv s" using conc_reach_inv [OF assms(1,2)] assms(3) by (simp add: in_range_def)
  have "\<not> multi_cons (gmode s)"
    using assms(4) conc_reach_mode [OF assms(1)] by (auto simp: multi_cons_def)
  then have O: "\<forall>(p, f) \<in> set (g_out s). p < g_deq s \<and> f = g_log s ! p"
    and m: "map fst (g_out s) = [0..<length (g_out s)]" and d: "g_deq s \<le> genq s"
    using inv by (auto simp: conc_inv_def out_ok_def positions_ok_def)
  have i: "fst (g_out s ! i) = i" if "i < length (g_out s)" for i
    using arg_cong [OF m, of "\<lambda>l. l ! i"] that by simp
  have x: "i < genq s \<and> snd (g_out s ! i) = g_log s ! i" if "i < length (g_out s)" for i
    using O d i [OF that] nth_mem [OF that] by fastforce
  then have "length (g_out s) \<le> genq s" by (meson linorder_not_le order_refl)
  then show ?thesis using x by (intro nth_equalityI) auto
qed

theorem ring_conc_single_consumer_fifo_witness:
  "\<exists>s. conc_reach demo_ring s \<and> g_out s \<noteq> [] \<and> map snd (g_out s) = take 1 (g_log s)"
proof -
  obtain s where s: "run (demo_race @ demo_rest) (conc_init demo_ring) = Some s"
    "g_log s = [FramePtr 7 0, FramePtr 8 0]" "g_out s = [(0, FramePtr 7 0)]"
    using demo_rest_run by auto
  have r: "conc_reach demo_ring s" by (rule run_reach [OF conc_reach.start s(1)])
  from ring_conc_single_consumer_fifo [OF r demo_fresh] s r show ?thesis
    by (intro exI [of _ s]) (simp add: demo_ring_ok)
qed

text \<open>The position whose cell data a thread is about to read or write without an atomic.\<close>

definition data_access :: "pc \<Rightarrow> u64 option" where
  "data_access c =
     (case c of PushData _ _ pos \<Rightarrow> Some pos | PopRead pos \<Rightarrow> Some pos | PopClear pos _ \<Rightarrow> Some pos
      | _ \<Rightarrow> None)"

text \<open>C19. No data race on \<open>cell->data\<close>: two threads about to access the plain field of a cell are
  never at the same cell.\<close>

theorem ring_conc_no_data_race:
  assumes "conc_reach r s" and "fresh_ring r" and "length (g_log s) \<le> 2 ^ 62"
    and "t \<noteq> u" and "data_access (g_pc s t) = Some p" and "data_access (g_pc s u) = Some q"
  shows "ring_index (g_ring s) p \<noteq> ring_index (g_ring s) q"
proof -
  have inv: "conc_inv s" using conc_reach_inv [OF assms(1,2)] assms(3) by (simp add: in_range_def)
  then have G: "ring_geom (g_ring s)" by (simp add: conc_inv_def)
  have h: "holds_push c = Some (unat x) \<or> holds_pop c = Some (unat x)"
    if "data_access c = Some x" for c x
    using that by (cases c) (auto simp: data_access_def)
  from holder_elsewhere [OF inv not_sym [OF assms(4)] h [OF assms(5)] h [OF assms(6)]]
  show ?thesis by (simp add: slot_index [OF G])
qed

theorem ring_conc_no_data_race_witness:
  "\<exists>s. conc_reach demo_ring s \<and> data_access (g_pc s 3) = Some 1 \<and> data_access (g_pc s 1) = Some 0
     \<and> ring_index (g_ring s) 1 \<noteq> ring_index (g_ring s) 0"
proof -
  obtain s where s: "run demo_race (conc_init demo_ring) = Some s"
    "g_pc s 3 = PushData (FramePtr 8 0) False 1" "g_pc s 1 = PopRead 0"
    "g_log s = [FramePtr 7 0, FramePtr 8 0]"
    using demo_race_run by auto
  have r: "conc_reach demo_ring s" by (rule run_reach [OF conc_reach.start s(1)])
  from ring_conc_no_data_race [OF r demo_fresh, of 3 1 1 0] s r show ?thesis
    by (intro exI [of _ s]) (simp add: data_access_def)
qed

text \<open>Nothing is lost: when no thread is inside an operation, the ring holds exactly the
  reserved frames that were not claimed, in order, and the frames reserved are those handed
  out together with those still in the ring.\<close>

theorem ring_conc_conservation:
  assumes "conc_reach r s" and "fresh_ring r" and "length (g_log s) \<le> 2 ^ 62" and "quiescent s"
  shows "ring_abs (g_ring s) = map Some (drop (g_deq s) (g_log s))
    \<and> mset (map Some (g_log s)) = mset (map (Some \<circ> snd) (g_out s)) + mset (ring_abs (g_ring s))"
proof -
  have range: "in_range s" using assms(3) by (simp add: in_range_def)
  have inv: "conc_inv s" by (rule conc_reach_inv [OF assms(1,2) range])
  have a: "ring_abs (g_ring s) = map Some (drop (g_deq s) (g_log s))"
    by (rule quiescent_abs [OF inv range assms(4)])
  have "mset (g_log s) = mset (map snd (g_out s)) + mset (drop (g_deq s) (g_log s))"
    unfolding quiescent_out [OF inv assms(4)] by (metis append_take_drop_id mset_append)
  then have "image_mset Some (mset (g_log s))
      = image_mset Some (mset (map snd (g_out s))) + image_mset Some (mset (drop (g_deq s) (g_log s)))"
    by simp
  then show ?thesis using a by (simp add: multiset.map_comp)
qed

theorem ring_conc_conservation_witness:
  "\<exists>s. conc_reach demo_ring s \<and> quiescent s \<and> ring_abs (g_ring s) = [Some (FramePtr 8 0)]"
proof -
  obtain s where s: "run (demo_race @ demo_rest) (conc_init demo_ring) = Some s" "quiescent s"
    "g_log s = [FramePtr 7 0, FramePtr 8 0]" "g_deq s = 1"
    using demo_rest_run by auto
  have r: "conc_reach demo_ring s" by (rule run_reach [OF conc_reach.start s(1)])
  from ring_conc_conservation [OF r demo_fresh _ s(2)] s r show ?thesis
    by (intro exI [of _ s]) simp
qed

end
