(* ===== verification/Ring_Refine.thy ===== *)
theory Ring_Refine
  imports Ring_Conc
begin

text \<open>
  The concurrent ring refines a sequential bounded queue. The abstract queue is a list with two
  atomic operations; a history of it is legal when every enqueue finds room and every dequeue
  returns the oldest element. Each step of the machine of theory \<open>Ring_Conc\<close> is an enqueue (the
  reservation of a position), a dequeue (the claim of one) or invisible.
\<close>

section \<open>The abstract queue\<close>

datatype qop = Enq frame_ptr | Deq frame_ptr

fun bq_run :: "nat \<Rightarrow> frame_ptr list \<Rightarrow> qop list \<Rightarrow> frame_ptr list option" where
  "bq_run cap q [] = Some q"
| "bq_run cap q (Enq f # ops) = (if length q < cap then bq_run cap (q @ [f]) ops else None)"
| "bq_run cap [] (Deq f # ops) = None"
| "bq_run cap (x # q) (Deq f # ops) = (if x = f then bq_run cap q ops else None)"

fun enqs :: "qop list \<Rightarrow> frame_ptr list" where
  "enqs [] = []"
| "enqs (Enq f # ops) = f # enqs ops"
| "enqs (Deq f # ops) = enqs ops"

fun deqs :: "qop list \<Rightarrow> frame_ptr list" where
  "deqs [] = []"
| "deqs (Enq f # ops) = deqs ops"
| "deqs (Deq f # ops) = f # deqs ops"

lemma bq_run_append: "bq_run cap q (ops @ ops') = Option.bind (bq_run cap q ops) (\<lambda>q'. bq_run cap q' ops')"
  by (induction cap q ops rule: bq_run.induct) auto

lemma enqs_append [simp]: "enqs (ops @ ops') = enqs ops @ enqs ops'"
  by (induction ops rule: enqs.induct) auto

lemma deqs_append [simp]: "deqs (ops @ ops') = deqs ops @ deqs ops'"
  by (induction ops rule: deqs.induct) auto

section \<open>The simulation\<close>

definition abs_queue :: "conc \<Rightarrow> frame_ptr list" where
  "abs_queue s = drop (g_deq s) (g_log s)"

text \<open>What a step does to the history.\<close>

lemma conc_step_history:
  assumes "conc_step e s = Some s'"
  shows "g_log s' = g_log s \<and> g_deq s' = g_deq s
    \<or> (\<exists>f. g_log s' = g_log s @ [f] \<and> g_deq s' = g_deq s)
    \<or> g_log s' = g_log s \<and> g_deq s' = Suc (g_deq s)"
proof (cases e)
  case (Step t b)
  show ?thesis
    using assms unfolding Step
    by (cases "g_pc s t")
      (auto simp: conc_step_def push_step_def pop_step_def goto_def Let_def split: if_splits)
qed (use assms in \<open>auto simp: conc_step_def goto_def Let_def split: if_splits\<close>)

text \<open>Each step is at most one operation of the abstract queue.\<close>

lemma conc_step_simulates:
  assumes "conc_inv s" and "conc_inv s'" and "gcap s' = gcap s" and "conc_step e s = Some s'"
  shows "\<exists>ops. length ops \<le> 1 \<and> bq_run (gcap s) (abs_queue s) ops = Some (abs_queue s')
    \<and> g_log s' = g_log s @ enqs ops \<and> take (g_deq s') (g_log s') = take (g_deq s) (g_log s) @ deqs ops"
proof -
  have i: "g_deq s \<le> genq s" "g_deq s' \<le> genq s'" "genq s' \<le> g_deq s' + gcap s"
    using assms(1-3) by (auto simp: conc_inv_def positions_ok_def)
  consider "g_log s' = g_log s" "g_deq s' = g_deq s" | f where "g_log s' = g_log s @ [f]" "g_deq s' = g_deq s"
    | "g_log s' = g_log s" "g_deq s' = Suc (g_deq s)"
    using conc_step_history [OF assms(4)] by blast
  then show ?thesis
  proof cases
    case 1
    then show ?thesis by (intro exI [of _ "[]"]) (simp add: abs_queue_def)
  next
    case (2 f)
    then show ?thesis using i by (intro exI [of _ "[Enq f]"]) (simp add: abs_queue_def)
  next
    case 3
    have lt: "g_deq s < genq s" using i(2) 3 by simp
    have q: "abs_queue s = g_log s ! g_deq s # abs_queue s'"
      using lt 3 by (simp add: abs_queue_def Cons_nth_drop_Suc)
    show ?thesis
      using 3 lt by (intro exI [of _ "[Deq (g_log s ! g_deq s)]"]) (simp add: q take_Suc_conv_app_nth)
  qed
qed

lemma conc_reach_history:
  assumes "conc_reach r s" and "fresh_ring r" and "in_range s"
  shows "\<exists>ops. bq_run (ring_cap r) [] ops = Some (abs_queue s) \<and> enqs ops = g_log s
    \<and> deqs ops = take (g_deq s) (g_log s)"
  using assms(1,3)
proof (induction rule: conc_reach.induct)
  case start
  show ?case by (intro exI [of _ "[]"]) (simp add: abs_queue_def conc_init_def)
next
  case (step s e s')
  have r: "conc_reach r s'" by (rule conc_reach.step [OF step.hyps(1,2)])
  have range: "in_range s"
    using step.prems conc_step_history [OF step.hyps(2)] by (auto simp: in_range_def)
  have inv: "conc_inv s" "conc_inv s'"
    using conc_reach_inv [OF step.hyps(1) assms(2) range] conc_reach_inv [OF r assms(2) step.prems] by auto
  have cap: "gcap s = ring_cap r" "gcap s' = gcap s"
    using conc_reach_mode [OF step.hyps(1)] conc_reach_mode [OF r] by auto
  obtain ops where ops: "bq_run (ring_cap r) [] ops = Some (abs_queue s)" "enqs ops = g_log s"
    "deqs ops = take (g_deq s) (g_log s)" using step.IH range by blast
  obtain op where "bq_run (gcap s) (abs_queue s) op = Some (abs_queue s')"
    "g_log s' = g_log s @ enqs op" "take (g_deq s') (g_log s') = take (g_deq s) (g_log s) @ deqs op"
    using conc_step_simulates [OF inv cap(2) step.hyps(2)] by blast
  then show ?case using ops cap(1) by (intro exI [of _ "ops @ op"]) (simp add: bq_run_append)
qed

section \<open>Refinement\<close>



end
