(* ===== verification/Ring_Drain.thy ===== *)
theory Ring_Drain
  imports Ring_Conc
begin

text \<open>
  Draining a closed ring, on the concurrent machine of theory \<open>Ring_Conc\<close>: when a pop may report
  that there is nothing left. A pop that finds its position empty looks at \<open>closed\<close> and then once
  more at the same cell; with several consumers that cell may meanwhile have been filled and
  emptied by another consumer, and the pop gives up although later positions hold frames. A
  consumer that knows the current position never does.
\<close>

section \<open>Consumers that are up to date\<close>

text \<open>The position a thread works on, before it has claimed one, is the next one to be claimed.\<close>

definition at_next :: "conc \<Rightarrow> nat \<Rightarrow> bool" where
  "at_next s t \<longleftrightarrow>
     (case g_pc s t of
        PopSeq pos \<Rightarrow> unat pos = g_deq s
      | PopClaim pos \<Rightarrow> unat pos = g_deq s
      | PopClosed pos \<Rightarrow> unat pos = g_deq s
      | PopSeq2 pos \<Rightarrow> unat pos = g_deq s
      | _ \<Rightarrow> True)"

fun gave_up :: "pc \<Rightarrow> bool" where
  "gave_up (Done rc f) = (rc \<noteq> 0)"
| "gave_up _ = False"

fun claimed :: "pc \<Rightarrow> bool" where
  "claimed (PopRead _) = True"
| "claimed _ = False"

text \<open>Nobody is between the reservation of a cell and its publication.\<close>

definition no_push_open :: "conc \<Rightarrow> bool" where
  "no_push_open s \<longleftrightarrow> (\<forall>t. holds_push (g_pc s t) = None)"

lemma next_cell_ready:
  assumes "conc_inv s" and "no_push_open s" and "unat pos = g_deq s" and "g_deq s < genq s"
  shows "c_sequence (ring_cell (g_ring s) pos) = pos + 1"
proof -
  have "g_full s (slot_of s pos)" "g_cpos s (slot_of s pos) = unat pos"
    using slot_at [OF assms(1), of "unat pos"] assms(2-4) by (simp_all add: no_push_open_def)
  moreover have "ring_geom (g_ring s)" using assms(1) by (simp add: conc_inv_def)
  ultimately show ?thesis using inv_cell [OF assms(1), of pos] by (simp add: cell_inv_def slot_cell)
qed

lemma dequeue_pos: "conc_inv s \<Longrightarrow> unat (r_dequeue_pos (g_ring s)) = g_deq s"
  by (simp add: conc_inv_def positions_ok_def)

text \<open>A thread's own steps keep it at the next position, and it gives up on an empty ring only.\<close>

lemma at_next_pop:
  "conc_inv s \<Longrightarrow> at_next s t \<Longrightarrow> is_pop (g_pc s t) \<Longrightarrow> at_next (pop_step b t s) t"
  using dequeue_pos [of s] by (cases "g_pc s t") (auto simp: pop_step_def at_next_def Let_def goto_def)

lemma gives_up_empty:
  assumes "conc_inv s" and "at_next s t" and "is_pop (g_pc s t)" and "no_push_open s"
    and "gave_up (g_pc (pop_step b t s) t)"
  shows "g_deq s = genq s"
proof -
  obtain pos where p: "g_pc s t = PopSeq2 pos" "c_sequence (ring_cell (g_ring s) pos) \<noteq> pos + 1"
    using assms(3,5) by (cases "g_pc s t") (auto simp: pop_step_def Let_def goto_def split: if_splits)
  have "g_deq s \<le> genq s" using assms(1) by (simp add: conc_inv_def positions_ok_def)
  moreover have "\<not> g_deq s < genq s"
    using next_cell_ready [OF assms(1,4), of pos] p assms(2) by (auto simp: at_next_def)
  ultimately show ?thesis by simp
qed

text \<open>The steps of others keep it there unless they claim the position.\<close>

lemma at_next_cong: "g_pc s' t = g_pc s t \<Longrightarrow> g_deq s' = g_deq s \<Longrightarrow> at_next s' t = at_next s t"
  by (simp add: at_next_def split: pc.split)

lemma at_next_goto [simp]: "u \<noteq> t \<Longrightarrow> at_next (goto t c s) u = at_next s u"
  by (rule at_next_cong) simp_all

lemma at_next_start [simp]: "at_next (goto t PopPos s) t" "at_next (goto t Idle s) t"
  by (simp_all add: at_next_def)

lemma at_next_ring [simp]: "at_next (s\<lparr>g_ring := r\<rparr>) t = at_next s t"
  by (rule at_next_cong) simp_all

lemma push_step_frame:
  "g_deq (push_step b t s) = g_deq s" "g_out (push_step b t s) = g_out s"
  "u \<noteq> t \<Longrightarrow> g_pc (push_step b t s) u = g_pc s u" "r_closed (g_ring (push_step b t s)) = r_closed (g_ring s)"
  by (cases "g_pc s t"; auto simp: push_step_def Let_def goto_def set_cell_def)+

lemma pop_step_frame:
  "g_log (pop_step b t s) = g_log s" "u \<noteq> t \<Longrightarrow> g_pc (pop_step b t s) u = g_pc s u"
  "r_closed (g_ring (pop_step b t s)) = r_closed (g_ring s)"
  "g_deq (pop_step b t s) = g_deq s \<or> claimed (g_pc (pop_step b t s) t)"
  by (cases "g_pc s t"; auto simp: pop_step_def Let_def goto_def set_cell_def)+

lemma push_step_pc: "is_push (g_pc s t) \<Longrightarrow> \<not> is_pop (g_pc (push_step b t s) t)"
  by (cases "g_pc s t") (auto simp: push_step_def Let_def goto_def)

lemma at_next_not_pop: "\<not> is_pop (g_pc s t) \<Longrightarrow> at_next s t"
  by (cases "g_pc s t") (auto simp: at_next_def)

section \<open>A single consumer\<close>

lemma single_at_next_step:
  assumes "conc_inv s" and "\<not> multi_cons (gmode s)" and "\<And>t. at_next s t" and "conc_step e s = Some s'"
  shows "at_next s' u"
proof (cases e)
  case (Step t b)
  consider "is_push (g_pc s t)" "s' = push_step b t s" | "is_pop (g_pc s t)" "s' = pop_step b t s"
    | i f where "g_pc s t = Done i f" "s' = goto t Idle s"
    using assms(4) Step by (cases "g_pc s t") (auto simp: conc_step_def)
  then show ?thesis
  proof cases
    case 1
    then show ?thesis using at_next_not_pop [of s' u] push_step_pc [OF 1(1), of b] assms(3) [of u]
      by (cases "u = t") (auto simp: push_step_frame cong: at_next_cong)
  next
    case 2
    have "at_next s' u" if "u \<noteq> t"
    proof -
      have "\<not> is_pop (g_pc s u)" using assms(1,2) 2(1) that by (auto simp: conc_inv_def thread_ok_def)
      then show ?thesis using that 2(2) by (intro at_next_not_pop) (simp add: pop_step_frame)
    qed
    then show ?thesis using at_next_pop [OF assms(1,3) 2(1)] 2(2) by blast
  next
    case 3
    then show ?thesis using assms(3) [of u] by (cases "u = t") simp_all
  qed
next
  case Close
  then show ?thesis using assms(3,4) by (auto simp: conc_step_def)
next
  case Reopen
  then show ?thesis using assms(3,4) by (auto simp: conc_step_def)
next
  case (CallPush t f y)
  then show ?thesis using assms(3) [of u] assms(4) at_next_not_pop [of s' u]
    by (cases "u = t") (auto simp: conc_step_def Let_def split: if_splits)
next
  case (CallPop t)
  then show ?thesis using assms(3) [of u] assms(4)
    by (cases "u = t") (auto simp: conc_step_def Let_def split: if_splits)
qed

lemma single_at_next:
  assumes "conc_reach r s" and "fresh_ring r" and "in_range s" and "\<not> multi_cons (r_mode r)"
  shows "at_next s t"
  using assms(1,3)
proof (induction arbitrary: t rule: conc_reach.induct)
  case start
  show ?case by (simp add: at_next_def conc_init_def)
next
  case (step s e s')
  have range: "in_range s" using step.prems conc_step_log [OF step.hyps(2)] by (auto simp: in_range_def)
  show ?case
    by (rule single_at_next_step [OF conc_reach_inv [OF step.hyps(1) assms(2) range] _ step.IH [OF range] step.hyps(2)])
      (use conc_reach_mode [OF step.hyps(1)] assms(4) in simp)
qed

lemma out_complete:
  assumes "conc_inv s" and "\<And>t. holds_pop (g_pc s t) = None"
  shows "length (g_out s) = g_deq s"
proof -
  have "set (map fst (g_out s)) = {..<g_deq s}" and d: "distinct (map fst (g_out s))"
    using assms by (auto simp: conc_inv_def out_ok_def)
  then show ?thesis using distinct_card [OF d] by simp
qed

text \<open>C20. A single consumer leaves nothing behind: in the single-consumer modes, which are those of the
  worker queues, a pop that returns -1 while no push is between its reservation and its
  publication has left no frame behind: all that were ever reserved have been handed out, in order.\<close>

theorem pop_sc_leaves_nothing:
  assumes "conc_reach r s" and "fresh_ring r" and "length (g_log s) \<le> 2 ^ 62"
    and "r_mode r = AWP_RING_SPSC \<or> r_mode r = AWP_RING_MPSC" and "is_pop (g_pc s t)" and "no_push_open s"
    and "g_pc (pop_step b t s) t = Done (- 1) None"
  shows "map snd (g_out s) = g_log s"
proof -
  have range: "in_range s" using assms(3) by (simp add: in_range_def)
  have inv: "conc_inv s" by (rule conc_reach_inv [OF assms(1,2) range])
  have sc: "\<not> multi_cons (r_mode r)" using assms(4) by (auto simp: multi_cons_def)
  have e: "g_deq s = genq s"
    by (rule gives_up_empty [OF inv single_at_next [OF assms(1,2) range sc] assms(5,6), of b]) (simp add: assms(7))
  have "holds_pop (g_pc s t) = None"
    using assms(5,7) by (cases "g_pc s t") (auto simp: pop_step_def Let_def goto_def split: if_splits)
  moreover have "holds_pop (g_pc s u) = None" if "u \<noteq> t" for u
  proof -
    have "\<not> is_pop (g_pc s u)"
      using inv sc conc_reach_mode [OF assms(1)] assms(5) that by (auto simp: conc_inv_def thread_ok_def)
    then show ?thesis by (cases "g_pc s u") auto
  qed
  ultimately have "length (g_out s) = genq s" using out_complete [OF inv] e by metis
  then show ?thesis using ring_conc_single_consumer_fifo [OF assms(1-4)] by simp
qed

text \<open>One frame passes through the ring of theory \<open>Ring_Spec\<close>, which is then closed; the next pop is
  about to give up.\<close>

definition demo_last :: "event list" where
  "demo_last =
     [CallPush 2 (FramePtr 7 0) False, Step 2 False, Step 2 False, Step 2 False, Step 2 False, Step 2 False, Step 2 False,
      Step 2 False, CallPop 1, Step 1 False, Step 1 False, Step 1 False, Step 1 False, Step 1 False, Step 1 False, Step 1 False,
      Close, CallPop 1, Step 1 False, Step 1 False, Step 1 False]"

lemma demo_last_run:
  "\<exists>s. run demo_last (conc_init demo_ring) = Some s \<and> g_pc s 1 = PopSeq2 1 \<and> no_push_open s
     \<and> g_log s = [FramePtr 7 0] \<and> g_pc (pop_step False 1 s) 1 = Done (- 1) None"
  by (simp add: demo_last_def no_push_open_def conc_exec awp_ring_close_def awp_ring_wake_all_def numeral_2_eq_2)

theorem pop_sc_leaves_nothing_witness:
  "\<exists>s. conc_reach demo_ring s \<and> g_pc (pop_step False 1 s) 1 = Done (- 1) None \<and> map snd (g_out s) = [FramePtr 7 0]"
proof -
  obtain s where s: "run demo_last (conc_init demo_ring) = Some s" "g_pc s 1 = PopSeq2 1" "no_push_open s"
    "g_log s = [FramePtr 7 0]" "g_pc (pop_step False 1 s) 1 = Done (- 1) None" using demo_last_run by blast
  have r: "conc_reach demo_ring s" by (rule run_reach [OF conc_reach.start s(1)])
  from pop_sc_leaves_nothing [OF r demo_fresh _ _ _ s(3,5)] s r demo_ring_ok show ?thesis by auto
qed

section \<open>Several consumers\<close>

definition mpmc_ring :: awp_ring where
  "mpmc_ring = demo_ring\<lparr>r_mode := AWP_RING_MPMC\<rparr>"

lemma mpmc_ring_init: "awp_ring_init demo_alloc (Some zero_ring) 2 AWP_RING_MPMC = (0, Some mpmc_ring)"
  by (simp add: awp_ring_init_def ring_alloc_cells_def demo_alloc_def demo_ring_def mpmc_ring_def
      awp_round_up_pow2_def AWP_RING_CAP_MAX_def zero_ring_def)

text \<open>Thread 3 finds position 0 empty; thread 2 pushes two frames; thread 5 takes the first; the ring
  is closed; thread 3 sees that it is closed and looks at the cell of position 0 again.\<close>

definition demo_give_up :: "event list" where
  "demo_give_up =
     [CallPop 3, Step 3 False, Step 3 False,
      CallPush 2 (FramePtr 7 0) False, Step 2 False, Step 2 False, Step 2 False, Step 2 False, Step 2 False, Step 2 False, Step 2 False,
      CallPush 2 (FramePtr 7 1) False, Step 2 False, Step 2 False, Step 2 False, Step 2 False, Step 2 False, Step 2 False, Step 2 False,
      CallPop 5, Step 5 False, Step 5 False, Step 5 False, Step 5 False, Step 5 False, Step 5 False, Step 5 False,
      Close, Step 3 False, Step 3 False]"

text \<open>C21. Several consumers: \<open>pop_mc\<close> may report a closed ring as drained while it holds frames. In the
  execution above every push has returned before the ring is closed, the second frame is in
  the ring, and a pop returns -1.\<close>

theorem pop_mc_gives_up_early:
  "\<exists>r s. awp_ring_init demo_alloc (Some zero_ring) 2 AWP_RING_MPMC = (0, Some r)
     \<and> run demo_give_up (conc_init r) = Some s \<and> g_pc s 3 = Done (- 1) None \<and> r_closed (g_ring s)
     \<and> {t. g_pc s t \<noteq> Idle} = {3} \<and> awp_ring_depth (g_ring s) = 1 \<and> ring_abs (g_ring s) = [Some (FramePtr 7 1)]"
proof -
  have "\<exists>s. run demo_give_up (conc_init mpmc_ring) = Some s \<and> g_pc s 3 = Done (- 1) None \<and> r_closed (g_ring s)
     \<and> {t. g_pc s t \<noteq> Idle} = {3} \<and> awp_ring_depth (g_ring s) = 1 \<and> ring_abs (g_ring s) = [Some (FramePtr 7 1)]"
    by (simp add: demo_give_up_def conc_exec mpmc_ring_def awp_ring_close_def awp_ring_wake_all_def awp_ring_depth_def
      numeral_2_eq_2 ring_abs_def ring_len_def slot_def ring_pos_def) auto
  then show ?thesis using mpmc_ring_init by blast
qed

end
