(* ===== verification/Ring_Examples.thy ===== *)
theory Ring_Examples
  imports Ring_Drain
begin

text \<open>
  The programs that share one ring among several threads, \<open>demo_ring\<close> of
  \<open>examples/example_mpmc.c\<close> and \<open>main\<close> of \<open>examples/example_spmc.c\<close>: producers that push frames of
  a static array, consumers that pop, print and count until the ring is closed, and a main
  thread that starts and joins them and closes the ring in between. The threads interleave at
  every access to shared memory, on the machine of theory \<open>Ring_Conc\<close>. Producer \<open>i\<close> is thread
  \<open>2 * i\<close> of that machine and consumer \<open>j\<close> is thread \<open>2 * j + 1\<close>. Creation of a thread succeeds, as
  the programs assume.
\<close>

section \<open>The programs\<close>

text \<open>The numbers a program is written with. In the SPMC example the main thread is the producer
  (\<open>k_self\<close>).\<close>

record client =
  k_self :: bool
  k_prods :: nat
  k_per :: nat
  k_cons :: nat
  k_slab :: nat
  k_spins :: nat

definition mpmc_client :: client where
  "mpmc_client = \<lparr>k_self = False, k_prods = 3, k_per = 20, k_cons = 3, k_slab = 1024, k_spins = 200000\<rparr>"

definition spmc_client :: client where
  "spmc_client = \<lparr>k_self = True, k_prods = 1, k_per = 30, k_cons = 3, k_slab = 256, k_spins = 100000\<rparr>"

abbreviation k_total :: "client \<Rightarrow> nat" where "k_total K \<equiv> k_prods K * k_per K"

text \<open>Where a thread is. \<open>PLoop i\<close> is the head of the loop; \<open>PFill\<close> fills the frame; \<open>PPush\<close> is inside
  \<open>awp_ring_push\<close>; \<open>PErr\<close> is about to count an error and, if the flag is set, to leave the loop.\<close>

datatype pstate = PNew | PLoop nat | PFill nat nat | PPush nat nat | PErr nat bool | PEnd

datatype cstate = CNew | CLoop | CPop | CShow frame_ptr | CCount | CExit

datatype mstate =
    MMakeC nat | MMakeP nat | MJoinP nat | MFeed | MSpin nat | MClose | MJoinC nat | MRet int

text \<open>\<open>x_lines\<close> is what the consumers printed: the consumer, \<open>seq\<close> and \<open>symbol\<close>.\<close>

record prog =
  x_conc :: conc
  x_prod :: "nat \<Rightarrow> pstate"
  x_cons :: "nat \<Rightarrow> cstate"
  x_main :: mstate
  x_fi :: u32
  x_frames :: "awp_frame list"
  x_got :: int
  x_errs :: int
  x_lines :: "(nat \<times> u64 \<times> u8 list) list"

definition label_frame :: "u64 \<Rightarrow> u8 \<Rightarrow> nat \<Rightarrow> awp_frame" where
  "label_frame sq letter n = zero_frame\<lparr>f_seq := sq, f_symbol := snprintf (f_symbol zero_frame) (letter # decimal n)\<rparr>"

text \<open>The block that the array \<open>g_frames\<close> occupies.\<close>

definition g_frames :: nat where "g_frames = 1000"

abbreviation g_frame :: "nat \<Rightarrow> frame_ptr" where "g_frame idx \<equiv> FramePtr g_frames idx"

definition set_prod :: "nat \<Rightarrow> pstate \<Rightarrow> prog \<Rightarrow> prog" where
  "set_prod i p s = s\<lparr>x_prod := (x_prod s)(i := p)\<rparr>"

definition set_cons :: "nat \<Rightarrow> cstate \<Rightarrow> prog \<Rightarrow> prog" where
  "set_cons j c s = s\<lparr>x_cons := (x_cons s)(j := c)\<rparr>"

text \<open>A step of the ring machine inside a program.\<close>

definition on_ring :: "event \<Rightarrow> prog \<Rightarrow> prog option" where
  "on_ring e s = map_option (\<lambda>c. s\<lparr>x_conc := c\<rparr>) (conc_step e (x_conc s))"

text \<open>\<open>prod\<close> of \<open>example_mpmc.c\<close>; \<open>b\<close> makes a weak compare-and-exchange of the ring fail.\<close>

definition mpmc_prod :: "client \<Rightarrow> nat \<Rightarrow> bool \<Rightarrow> prog \<Rightarrow> prog option" where
  "mpmc_prod K i b s =
     (case x_prod s i of
        PLoop n \<Rightarrow>
          if n < k_per K
          then let idx = x_fi s; s = s\<lparr>x_fi := idx + 1\<rparr>
               in Some (set_prod i (if unat idx \<ge> k_slab K then PErr n True else PFill n (unat idx)) s)
          else Some (set_prod i PEnd s)
      | PErr n brk \<Rightarrow> Some (set_prod i (if brk then PEnd else PLoop (Suc n)) (s\<lparr>x_errs := x_errs s + 1\<rparr>))
      | PFill n idx \<Rightarrow>
          on_ring (CallPush (2 * i) (g_frame idx) False)
            (set_prod i (PPush n idx) (s\<lparr>x_frames := (x_frames s)[idx := label_frame (of_nat idx) 80 i]\<rparr>))
      | PPush n idx \<Rightarrow>
          (case g_pc (x_conc s) (2 * i) of
             Done rc _ \<Rightarrow> on_ring (Step (2 * i) b) (set_prod i (if rc \<noteq> 0 then PErr n False else PLoop (Suc n)) s)
           | _ \<Rightarrow> on_ring (Step (2 * i) b) s)
      | _ \<Rightarrow> None)"

text \<open>The producing loop in \<open>main\<close> of \<open>example_spmc.c\<close>.\<close>

definition spmc_feed :: "client \<Rightarrow> bool \<Rightarrow> prog \<Rightarrow> prog option" where
  "spmc_feed K b s =
     (case x_prod s 0 of
        PLoop n \<Rightarrow>
          if n < k_per K
          then on_ring (CallPush 0 (g_frame n) False)
                 (set_prod 0 (PPush n n) (s\<lparr>x_frames := (x_frames s)[n := label_frame (of_nat n) 83 (n mod 5)]\<rparr>))
          else Some (set_prod 0 PEnd s)
      | PPush n idx \<Rightarrow>
          (case g_pc (x_conc s) 0 of
             Done rc _ \<Rightarrow> on_ring (Step 0 b) (set_prod 0 (if rc \<noteq> 0 then PEnd else PLoop (Suc n)) s)
           | _ \<Rightarrow> on_ring (Step 0 b) s)
      | _ \<Rightarrow> None)"

text \<open>\<open>cons\<close> of \<open>example_mpmc.c\<close>.\<close>

definition mpmc_cons :: "nat \<Rightarrow> bool \<Rightarrow> prog \<Rightarrow> prog option" where
  "mpmc_cons j b s =
     (case x_cons s j of
        CLoop \<Rightarrow> on_ring (CallPop (2 * j + 1)) (set_cons j CPop s)
      | CPop \<Rightarrow>
          (case g_pc (x_conc s) (2 * j + 1) of
             Done rc f \<Rightarrow>
               on_ring (Step (2 * j + 1) b)
                 (set_cons j (if rc \<noteq> 0 then CExit else case f of None \<Rightarrow> CLoop | Some p \<Rightarrow> CShow p) s)
           | _ \<Rightarrow> on_ring (Step (2 * j + 1) b) s)
      | CShow p \<Rightarrow>
          let f = x_frames s ! ptr_index p
          in Some (set_cons j CCount (s\<lparr>x_lines := x_lines s @ [(j, f_seq f, content (f_symbol f))]\<rparr>))
      | CCount \<Rightarrow> Some (set_cons j CLoop (s\<lparr>x_got := x_got s + 1\<rparr>))
      | _ \<Rightarrow> None)"

text \<open>\<open>consumer\<close> of \<open>example_spmc.c\<close>: the same loop, with another text printed around the fields.\<close>

definition spmc_consumer :: "nat \<Rightarrow> bool \<Rightarrow> prog \<Rightarrow> prog option" where
  "spmc_consumer j b s = mpmc_cons j b s"

text \<open>What both main threads do after the producers: wait for a while, close the ring, join the
  consumers and compare the counts.\<close>

definition finish :: "client \<Rightarrow> prog \<Rightarrow> prog option" where
  "finish K s =
     (case x_main s of
        MSpin n \<Rightarrow>
          Some (s\<lparr>x_main := (if x_got s < int (k_total K) \<and> n < k_spins K then MSpin (Suc n) else MClose)\<rparr>)
      | MClose \<Rightarrow> on_ring Close (s\<lparr>x_main := MJoinC 0\<rparr>)
      | MJoinC j \<Rightarrow>
          if j < k_cons K then if x_cons s j = CExit then Some (s\<lparr>x_main := MJoinC (Suc j)\<rparr>) else None
          else Some (s\<lparr>x_main := MRet (if x_got s = int (k_total K) \<and> (k_self K \<or> x_errs s = 0) then 0 else 1)\<rparr>)
      | _ \<Rightarrow> None)"

definition start_cons :: "client \<Rightarrow> mstate \<Rightarrow> nat \<Rightarrow> prog \<Rightarrow> prog" where
  "start_cons K after j s =
     (if j < k_cons K then set_cons j CLoop (s\<lparr>x_main := MMakeC (Suc j)\<rparr>) else s\<lparr>x_main := after\<rparr>)"

text \<open>\<open>demo_ring\<close> of \<open>example_mpmc.c\<close> after the initialisation.\<close>

definition demo_ring_main :: "client \<Rightarrow> prog \<Rightarrow> prog option" where
  "demo_ring_main K s =
     (case x_main s of
        MMakeC j \<Rightarrow> Some (start_cons K (MMakeP 0) j s)
      | MMakeP i \<Rightarrow>
          Some (if i < k_prods K then set_prod i (PLoop 0) (s\<lparr>x_main := MMakeP (Suc i)\<rparr>) else s\<lparr>x_main := MJoinP 0\<rparr>)
      | MJoinP i \<Rightarrow>
          if i < k_prods K then if x_prod s i = PEnd then Some (s\<lparr>x_main := MJoinP (Suc i)\<rparr>) else None
          else Some (s\<lparr>x_main := MSpin 0\<rparr>)
      | _ \<Rightarrow> finish K s)"

text \<open>\<open>main\<close> of \<open>example_spmc.c\<close> after the initialisation.\<close>

definition spmc_main :: "client \<Rightarrow> bool \<Rightarrow> prog \<Rightarrow> prog option" where
  "spmc_main K b s =
     (case x_main s of
        MMakeC j \<Rightarrow>
          Some (let s' = start_cons K MFeed j s in if j < k_cons K then s' else set_prod 0 (PLoop 0) s')
      | MFeed \<Rightarrow> if x_prod s 0 = PEnd then Some (s\<lparr>x_main := MSpin 0\<rparr>) else spmc_feed K b s
      | _ \<Rightarrow> finish K s)"

text \<open>One step of the program: of the main thread, of a producer thread or of a consumer thread.\<close>

datatype pevent = MainStep bool | ProdStep nat bool | ConsStep nat bool

definition prog_step :: "client \<Rightarrow> pevent \<Rightarrow> prog \<Rightarrow> prog option" where
  "prog_step K e s =
     (case e of
        MainStep b \<Rightarrow> if k_self K then spmc_main K b s else demo_ring_main K s
      | ProdStep i b \<Rightarrow> if k_self K then None else mpmc_prod K i b s
      | ConsStep j b \<Rightarrow> if k_self K then spmc_consumer j b s else mpmc_cons j b s)"

definition prog_init :: "client \<Rightarrow> awp_ring \<Rightarrow> prog" where
  "prog_init K r =
     \<lparr>x_conc = conc_init r, x_prod = (\<lambda>_. PNew), x_cons = (\<lambda>_. CNew), x_main = MMakeC 0, x_fi = 0,
      x_frames = replicate (k_slab K) zero_frame, x_got = 0, x_errs = 0, x_lines = []\<rparr>"

text \<open>The start of \<open>demo_ring\<close> and of the SPMC \<open>main\<close>: 1 is returned when the ring cannot be made.\<close>

definition demo_ring_start :: "ring_alloc \<Rightarrow> awp_ring \<Rightarrow> int + prog" where
  "demo_ring_start A r0 =
     (case awp_ring_init A (Some r0) 128 AWP_RING_MPMC of
        (rc, ro) \<Rightarrow> if rc \<noteq> 0 then Inl 1 else Inr (prog_init mpmc_client (the ro)))"

definition spmc_start :: "ring_alloc \<Rightarrow> awp_ring \<Rightarrow> int + prog" where
  "spmc_start A r0 =
     (case awp_ring_init A (Some r0) 64 AWP_RING_SPMC of
        (rc, ro) \<Rightarrow> if rc \<noteq> 0 then Inl 1 else Inr (prog_init spmc_client (the ro)))"

inductive prog_reach :: "client \<Rightarrow> awp_ring \<Rightarrow> prog \<Rightarrow> bool" for K r where
  start: "prog_reach K r (prog_init K r)"
| step: "prog_reach K r s \<Longrightarrow> prog_step K e s = Some s' \<Longrightarrow> prog_reach K r s'"


section \<open>What a thread inside an operation of the ring does\<close>

text \<open>The frame of a blocking push; the frames not yet entered in the ring; the frame a pop returns.\<close>

fun push_of :: "pc \<Rightarrow> frame_ptr option" where
  "push_of (PushClosed f y) = (if y then None else Some f)"
| "push_of (PushPos f y) = (if y then None else Some f)"
| "push_of (PushSeq f y _) = (if y then None else Some f)"
| "push_of (PushCas f y _) = (if y then None else Some f)"
| "push_of (PushData f y _) = (if y then None else Some f)"
| "push_of (PushStoreSeq f y _) = (if y then None else Some f)"
| "push_of (PushStorePos f y _) = (if y then None else Some f)"
| "push_of _ = None"

fun unsent :: "pc \<Rightarrow> frame_ptr multiset" where
  "unsent (PushClosed f _) = {#f#}"
| "unsent (PushPos f _) = {#f#}"
| "unsent (PushSeq f _ _) = {#f#}"
| "unsent (PushCas f _ _) = {#f#}"
| "unsent _ = {#}"

fun popped :: "pc \<Rightarrow> frame_ptr multiset" where
  "popped (Done rc (Some f)) = (if rc = 0 then {#f#} else {#})"
| "popped _ = {#}"

lemma push_of_is_push: "push_of c = Some f \<Longrightarrow> is_push c"
  by (cases c) (auto split: if_splits)

lemma push_sent:
  assumes "push_of (g_pc s t) = Some f" and "\<not> r_closed (g_ring s)"
  shows "push_of (g_pc (push_step b t s) t) = Some f \<or> g_pc (push_step b t s) t = Done 0 None"
    and "mset (g_log (push_step b t s)) + unsent (g_pc (push_step b t s) t) = mset (g_log s) + unsent (g_pc s t)"
  using assms by (cases "g_pc s t"; auto simp: push_step_def Let_def goto_def split: if_splits)+

lemma pop_got:
  assumes "conc_inv s" and "is_pop (g_pc s t)"
  shows "is_pop (g_pc (pop_step b t s) t) \<or> (\<exists>f. g_pc (pop_step b t s) t = Done 0 (Some f))
      \<or> g_pc (pop_step b t s) t = Done (- 1) None"
    and "mset (map snd (g_out (pop_step b t s))) = mset (map snd (g_out s)) + popped (g_pc (pop_step b t s) t)"
    and "g_deq s \<le> g_deq (pop_step b t s)"
    and "g_pc (pop_step b t s) t = PopSeq2 pos \<Longrightarrow> r_closed (g_ring s)"
proof -
  have "pop_local s (g_pc s t)" using assms(1) by (simp add: conc_inv_def thread_ok_def)
  then show "is_pop (g_pc (pop_step b t s) t) \<or> (\<exists>f. g_pc (pop_step b t s) t = Done 0 (Some f))
      \<or> g_pc (pop_step b t s) t = Done (- 1) None"
    using assms(2) by (cases "g_pc s t") (auto simp: pop_step_def Let_def goto_def pop_local_def)
qed (use assms(2) in \<open>cases "g_pc s t"; auto simp: pop_step_def Let_def goto_def split: option.splits if_splits\<close>)+

lemma step_push: "is_push (g_pc s t) \<Longrightarrow> conc_step (Step t b) s = Some (push_step b t s)"
  by (cases "g_pc s t") (auto simp: conc_step_def)

lemma step_pop: "is_pop (g_pc s t) \<Longrightarrow> conc_step (Step t b) s = Some (pop_step b t s)"
  by (cases "g_pc s t") (auto simp: conc_step_def)

section \<open>The invariant\<close>

abbreviation xpc :: "prog \<Rightarrow> nat \<Rightarrow> pc" where "xpc s \<equiv> g_pc (x_conc s)"

definition prod_ok :: "client \<Rightarrow> pstate \<Rightarrow> pc \<Rightarrow> bool" where
  "prod_ok K p c \<longleftrightarrow>
     (case p of
        PLoop n \<Rightarrow> n \<le> k_per K \<and> c = Idle
      | PFill n idx \<Rightarrow> \<not> k_self K \<and> n < k_per K \<and> idx < k_slab K \<and> c = Idle
      | PPush n idx \<Rightarrow> n < k_per K \<and> (push_of c = Some (g_frame idx) \<or> c = Done 0 None)
      | PErr _ _ \<Rightarrow> False
      | _ \<Rightarrow> c = Idle)"

definition cons_ok :: "cstate \<Rightarrow> pc \<Rightarrow> bool" where
  "cons_ok q c \<longleftrightarrow>
     (case q of CPop \<Rightarrow> is_pop c \<or> (\<exists>f. c = Done 0 (Some f)) \<or> c = Done (- 1) None | _ \<Rightarrow> c = Idle)"

definition threads_ok :: "client \<Rightarrow> prog \<Rightarrow> bool" where
  "threads_ok K s \<longleftrightarrow>
     (\<forall>i. prod_ok K (x_prod s i) (xpc s (2 * i))) \<and> (\<forall>j. cons_ok (x_cons s j) (xpc s (2 * j + 1)))
     \<and> (\<forall>i\<ge>k_prods K. x_prod s i = PNew) \<and> (\<forall>j\<ge>k_cons K. x_cons s j = CNew)"

text \<open>The main thread has seen all producers end; it has closed the ring.\<close>

fun sealed :: "mstate \<Rightarrow> bool" where
  "sealed (MSpin _) = True"
| "sealed MClose = True"
| "sealed (MJoinC _) = True"
| "sealed (MRet _) = True"
| "sealed _ = False"

fun closing :: "mstate \<Rightarrow> bool" where
  "closing (MJoinC _) = True"
| "closing (MRet _) = True"
| "closing _ = False"

definition verdict :: "client \<Rightarrow> prog \<Rightarrow> int" where
  "verdict K s = (if x_got s = int (k_total K) \<and> (k_self K \<or> x_errs s = 0) then 0 else 1)"

definition phase_ok :: "client \<Rightarrow> prog \<Rightarrow> bool" where
  "phase_ok K s \<longleftrightarrow>
     r_closed (g_ring (x_conc s)) = closing (x_main s) \<and> (sealed (x_main s) \<longrightarrow> (\<forall>i<k_prods K. x_prod s i = PEnd))
     \<and> (case x_main s of
          MMakeC k \<Rightarrow> (\<forall>i. x_prod s i = PNew) \<and> (\<forall>j\<ge>k. x_cons s j = CNew) \<and> (\<forall>j<k. x_cons s j \<noteq> CNew)
        | MMakeP k \<Rightarrow> \<not> k_self K \<and> (\<forall>i\<ge>k. x_prod s i = PNew) \<and> (\<forall>i<k. x_prod s i \<noteq> PNew) \<and> (\<forall>j<k_cons K. x_cons s j \<noteq> CNew)
        | MJoinP k \<Rightarrow> \<not> k_self K \<and> (\<forall>i<k. x_prod s i = PEnd) \<and> (\<forall>i<k_prods K. x_prod s i \<noteq> PNew) \<and> (\<forall>j<k_cons K. x_cons s j \<noteq> CNew)
        | MFeed \<Rightarrow> k_self K \<and> (\<forall>i<k_prods K. x_prod s i \<noteq> PNew) \<and> (\<forall>j<k_cons K. x_cons s j \<noteq> CNew)
        | MJoinC k \<Rightarrow> (\<forall>j<k. x_cons s j = CExit) \<and> (\<forall>j<k_cons K. x_cons s j \<noteq> CNew)
        | MRet rc \<Rightarrow> (\<forall>j<k_cons K. x_cons s j = CExit) \<and> rc = verdict K s
        | _ \<Rightarrow> (\<forall>i<k_prods K. x_prod s i \<noteq> PNew) \<and> (\<forall>j<k_cons K. x_cons s j \<noteq> CNew))"

text \<open>The frames a producer has taken and not yet entered; how many it has taken.\<close>

definition hold :: "pstate \<Rightarrow> pc \<Rightarrow> frame_ptr multiset" where
  "hold p c = (case p of PFill _ idx \<Rightarrow> {#g_frame idx#} | PPush _ _ \<Rightarrow> unsent c | _ \<Rightarrow> {#})"

definition takes :: "client \<Rightarrow> pstate \<Rightarrow> nat" where
  "takes K p = (case p of PLoop n \<Rightarrow> n | PFill n _ \<Rightarrow> Suc n | PPush n _ \<Rightarrow> Suc n | PEnd \<Rightarrow> k_per K | _ \<Rightarrow> 0)"

definition held :: "client \<Rightarrow> prog \<Rightarrow> frame_ptr multiset" where
  "held K s = (\<Sum>i<k_prods K. hold (x_prod s i) (xpc s (2 * i)))"

definition taken :: "client \<Rightarrow> prog \<Rightarrow> nat" where
  "taken K s = (\<Sum>i<k_prods K. takes K (x_prod s i))"

definition sent_ok :: "client \<Rightarrow> prog \<Rightarrow> bool" where
  "sent_ok K s \<longleftrightarrow>
     mset (g_log (x_conc s)) + held K s = mset (map g_frame [0..<taken K s])
     \<and> (\<not> k_self K \<longrightarrow> unat (x_fi s) = taken K s) \<and> x_errs s = 0"

definition frames_ok :: "client \<Rightarrow> prog \<Rightarrow> bool" where
  "frames_ok K s \<longleftrightarrow>
     length (x_frames s) = k_slab K
     \<and> (\<forall>idx<taken K s. (\<forall>i n. x_prod s i \<noteq> PFill n idx) \<longrightarrow> f_seq (x_frames s ! idx) = of_nat idx)"

text \<open>The frames a consumer has popped and not yet printed.\<close>

definition hand :: "cstate \<Rightarrow> pc \<Rightarrow> frame_ptr multiset" where
  "hand q c = (case q of CPop \<Rightarrow> popped c | CShow f \<Rightarrow> {#f#} | _ \<Rightarrow> {#})"

definition shown_ok :: "client \<Rightarrow> prog \<Rightarrow> bool" where
  "shown_ok K s \<longleftrightarrow>
     image_mset (\<lambda>f. of_nat (ptr_index f)) (mset (map snd (g_out (x_conc s)))) =
       mset (map (\<lambda>(j, sq, sym). sq) (x_lines s))
       + image_mset (\<lambda>f. of_nat (ptr_index f)) (\<Sum>j<k_cons K. hand (x_cons s j) (xpc s (2 * j + 1)))
     \<and> (\<forall>j f. x_cons s j = CShow f \<or> x_cons s j = CPop \<and> xpc s (2 * j + 1) = Done 0 (Some f) \<longrightarrow> f \<in> set (g_log (x_conc s)))
     \<and> x_got s + int (\<Sum>j<k_cons K. if x_cons s j = CCount then 1 else 0) = int (length (x_lines s))"

text \<open>Somebody will look at the next position, or nothing is left.\<close>

definition drain_ok :: "client \<Rightarrow> prog \<Rightarrow> bool" where
  "drain_ok K s \<longleftrightarrow>
     ((\<exists>j<k_cons K. x_cons s j \<noteq> CExit \<and> at_next (x_conc s) (2 * j + 1) \<and> \<not> gave_up (xpc s (2 * j + 1)))
      \<or> sealed (x_main s) \<and> g_deq (x_conc s) = length (g_log (x_conc s)))
     \<and> (\<forall>t pos. xpc s t = PopSeq2 pos \<longrightarrow> r_closed (g_ring (x_conc s)))"

definition client_ok :: "client \<Rightarrow> awp_ring \<Rightarrow> bool" where
  "client_ok K r \<longleftrightarrow>
     fresh_ring r \<and> r_mode r = (if k_self K then AWP_RING_SPMC else AWP_RING_MPMC) \<and> 0 < k_cons K
     \<and> (k_self K \<longrightarrow> k_prods K = 1) \<and> k_total K \<le> k_slab K \<and> k_slab K < 2 ^ 32"

definition prog_inv :: "client \<Rightarrow> awp_ring \<Rightarrow> prog \<Rightarrow> bool" where
  "prog_inv K r s \<longleftrightarrow>
     conc_reach r (x_conc s) \<and> threads_ok K s \<and> phase_ok K s \<and> sent_ok K s \<and> frames_ok K s \<and> shown_ok K s \<and> drain_ok K s"

lemma takes_le: "prod_ok K p c \<Longrightarrow> takes K p \<le> k_per K"
  by (cases p) (auto simp: prod_ok_def takes_def)

lemma taken_le:
  assumes "threads_ok K s" shows "taken K s \<le> k_total K"
proof -
  have "takes K (x_prod s i) \<le> k_per K" for i using assms takes_le by (auto simp: threads_ok_def)
  then show ?thesis using sum_bounded_above [of "{..<k_prods K}" "\<lambda>i. takes K (x_prod s i)" "k_per K"] by (simp add: taken_def)
qed

lemma log_le:
  assumes "sent_ok K s" and "threads_ok K s"
  shows "length (g_log (x_conc s)) + size (held K s) = taken K s" and "length (g_log (x_conc s)) \<le> k_total K"
proof -
  show e: "length (g_log (x_conc s)) + size (held K s) = taken K s"
    using arg_cong [where f = size, OF conjunct1 [OF assms(1) [unfolded sent_ok_def]]] by simp
  show "length (g_log (x_conc s)) \<le> k_total K" using e taken_le [OF assms(2)] by simp
qed

lemma prog_conc_inv:
  assumes "prog_inv K r s" and "client_ok K r"
  shows "conc_inv (x_conc s)" and "in_range (x_conc s)"
proof -
  have "length (g_log (x_conc s)) \<le> k_total K" using assms(1) log_le(2) by (simp add: prog_inv_def)
  also have "\<dots> < 2 ^ 32" using assms(2) by (simp add: client_ok_def)
  finally show r: "in_range (x_conc s)" by (simp add: in_range_def)
  show "conc_inv (x_conc s)" by (rule conc_reach_inv [OF _ _ r]) (use assms in \<open>auto simp: prog_inv_def client_ok_def\<close>)
qed

lemma prog_init_inv: "client_ok K r \<Longrightarrow> prog_inv K r (prog_init K r)"
  using conc_reach.start [of r, unfolded conc_init_def]
  by (auto simp: prog_inv_def prog_init_def threads_ok_def phase_ok_def sent_ok_def frames_ok_def shown_ok_def
      drain_ok_def client_ok_def prod_ok_def cons_ok_def conc_init_def held_def taken_def hold_def takes_def hand_def at_next_def
      fresh_ring_def open_ring_def)

text \<open>Once the producers have ended, no push is open.\<close>

lemma sealed_no_push:
  assumes "prog_inv K r s" and "sealed (x_main s)"
  shows "no_push_open (x_conc s)"
proof -
  have "holds_push (xpc s t) = None" for t
  proof (cases "even t")
    case True
    then obtain i where t: "t = 2 * i" by blast
    have "x_prod s i = PEnd \<or> x_prod s i = PNew"
      using assms by (cases "i < k_prods K") (auto simp: prog_inv_def phase_ok_def threads_ok_def)
    moreover have "prod_ok K (x_prod s i) (xpc s (2 * i))" using assms(1) by (simp add: prog_inv_def threads_ok_def)
    ultimately show ?thesis using t by (auto simp: prod_ok_def)
  next
    case False
    then obtain j where t: "t = 2 * j + 1" using oddE by blast
    have "cons_ok (x_cons s j) (xpc s (2 * j + 1))" using assms(1) by (simp add: prog_inv_def threads_ok_def)
    then have "xpc s t = Idle \<or> is_pop (xpc s t) \<or> (\<exists>rc f. xpc s t = Done rc f)"
      using t by (cases "x_cons s j") (auto simp: cons_ok_def)
    then show ?thesis by (cases "xpc s t") auto
  qed
  then show ?thesis by (simp add: no_push_open_def)
qed


section \<open>Steps of a producer\<close>

lemma producer_step:
  assumes I: "prog_inv K r s" and i: "i < k_prods K" and act: "x_prod s i \<noteq> PNew" "x_prod s i \<noteq> PEnd"
    and R: "conc_reach r (x_conc s')"
    and same: "x_cons s' = x_cons s" "x_main s' = x_main s" "x_got s' = x_got s" "x_errs s' = x_errs s" "x_lines s' = x_lines s"
      "g_out (x_conc s') = g_out (x_conc s)" "g_deq (x_conc s') = g_deq (x_conc s)"
      "r_closed (g_ring (x_conc s')) = r_closed (g_ring (x_conc s))"
    and p: "x_prod s' = (x_prod s)(i := p')" "prod_ok K p' (xpc s' (2 * i))" "p' \<noteq> PNew"
    and others: "\<And>t. t \<noteq> 2 * i \<Longrightarrow> xpc s' t = xpc s t" and new: "\<not> is_pop (xpc s' (2 * i))"
    and log: "set (g_log (x_conc s)) \<subseteq> set (g_log (x_conc s'))"
    and sent: "sent_ok K s'" and fr: "frames_ok K s'"
  shows "prog_inv K r s'"
proof -
  have T: "threads_ok K s" and P: "phase_ok K s" and S: "shown_ok K s" and D: "drain_ok K s" using I by (auto simp: prog_inv_def)
  have odd: "xpc s' (2 * j + 1) = xpc s (2 * j + 1)" for j by (rule others) presburger
  have even: "xpc s' (2 * k) = xpc s (2 * k)" if "k \<noteq> i" for k by (rule others) (use that in simp)
  have "prod_ok K (x_prod s' k) (xpc s' (2 * k))" for k
    using T p even by (cases "k = i") (auto simp: threads_ok_def)
  then have T': "threads_ok K s'" using T p(1) i odd by (auto simp: threads_ok_def same)
  have ns: "\<not> sealed (x_main s)" using P i act by (auto simp: phase_ok_def)
  have P': "phase_ok K s'"
    using P ns i act p by (cases "x_main s") (auto simp: phase_ok_def same)
  have S': "shown_ok K s'" using S odd log unfolding shown_ok_def same by auto
  have "at_next (x_conc s') (2 * j + 1) = at_next (x_conc s) (2 * j + 1)" for j
    by (rule at_next_cong [OF odd same(7)])
  moreover have "r_closed (g_ring (x_conc s'))" if "xpc s' t = PopSeq2 pos" for t pos
    using that new D others [of t] by (cases "t = 2 * i") (auto simp: drain_ok_def same)
  ultimately have D': "drain_ok K s'" using D ns odd by (auto simp: drain_ok_def same)
  show ?thesis using R T' P' sent fr S' D' by (simp add: prog_inv_def)
qed


lemma taken_change:
  assumes "i < k_prods K" and "x_prod s' = (x_prod s)(i := p')" and "takes K p' = takes K (x_prod s i) + d"
  shows "taken K s' = taken K s + d"
  using sum_change [OF assms(1), of "\<lambda>k. takes K (x_prod s' k)" "\<lambda>k. takes K (x_prod s k)"] assms(2,3)
  by (simp add: taken_def)

lemma sent_change:
  assumes "sent_ok K s" and "i < k_prods K" and "x_prod s' = (x_prod s)(i := p')" and "takes K p' = takes K (x_prod s i) + d"
    and "\<And>t. t \<noteq> 2 * i \<Longrightarrow> xpc s' t = xpc s t" and "x_errs s' = x_errs s"
    and "mset (g_log (x_conc s')) + hold p' (xpc s' (2 * i)) =
      mset (g_log (x_conc s)) + hold (x_prod s i) (xpc s (2 * i)) + mset (map g_frame [taken K s..<taken K s + d])"
    and "\<not> k_self K \<Longrightarrow> unat (x_fi s) = taken K s \<Longrightarrow> unat (x_fi s') = unat (x_fi s) + d"
  shows "sent_ok K s'"
proof -
  note t = taken_change [of i K s' s p' d, OF assms(2-4)]
  let ?h = "\<lambda>s k. hold (x_prod s k) (xpc s (2 * k))" and ?L = "\<lambda>s. mset (g_log (x_conc s))"
  have "held K s' + ?h s i = held K s + ?h s' i"
    unfolding held_def by (rule sum_change [OF assms(2)]) (use assms(3,5) in simp)
  then have "(?L s' + held K s') + ?h s i = (?L s' + ?h s' i) + held K s" by (simp add: ac_simps)
  also have "\<dots> = (?L s + held K s) + mset (map g_frame [taken K s..<taken K s + d]) + ?h s i"
    using assms(3,7) by (simp add: ac_simps)
  also have "?L s + held K s = mset (map g_frame [0..<taken K s])" using assms(1) by (simp add: sent_ok_def)
  finally have "?L s' + held K s' = mset (map g_frame ([0..<taken K s] @ [taken K s..<taken K s + d]))" by simp
  then show ?thesis using assms(1,6,8) t upt_add_eq_append [of 0 "taken K s" d] by (simp add: sent_ok_def)
qed

lemma taken_lt:
  assumes "threads_ok K s" and "i < k_prods K" and "x_prod s i = PLoop n" and "n < k_per K"
  shows "taken K s < k_total K"
proof -
  let ?s = "s\<lparr>x_prod := (x_prod s)(i := PEnd)\<rparr>"
  have "takes K (x_prod ?s k) \<le> k_per K" for k
    using assms(1) takes_le by (cases "k = i") (auto simp: threads_ok_def takes_def)
  then have "taken K ?s \<le> k_total K"
    using sum_bounded_above [of "{..<k_prods K}" "\<lambda>i. takes K (x_prod ?s i)" "k_per K"] by (simp add: taken_def)
  moreover have "taken K ?s = taken K s + (k_per K - n)"
    by (rule taken_change [OF assms(2), where p' = PEnd]) (use assms(3,4) in \<open>simp_all add: takes_def\<close>)
  ultimately show ?thesis using assms(4) by simp
qed

text \<open>A producer's own frames are below the number taken.\<close>

lemma hold_lt:
  assumes "sent_ok K s" and "f \<in># held K s \<or> f \<in> set (g_log (x_conc s))"
  shows "\<exists>idx<taken K s. f = g_frame idx"
proof -
  have "f \<in># mset (g_log (x_conc s)) + held K s" using assms(2) by auto
  then have "f \<in># mset (map g_frame [0..<taken K s])" using assms(1) by (simp only: sent_ok_def)
  then show ?thesis by auto
qed

lemma frames_same:
  assumes "frames_ok K s" and "taken K s' = taken K s" and "x_frames s' = x_frames s"
    and "x_prod s' = (x_prod s)(i := p')" and "\<And>n idx. x_prod s i \<noteq> PFill n idx"
  shows "frames_ok K s'"
proof -
  have "x_prod s k \<noteq> PFill n idx" if "\<forall>k n. x_prod s' k \<noteq> PFill n idx" for k n idx
    using that assms(4,5) by (metis fun_upd_apply)
  then show ?thesis using assms(1-3) by (auto simp: frames_ok_def)
qed

lemma on_ring_Some: "on_ring e s = Some s' \<longleftrightarrow> (\<exists>c. conc_step e (x_conc s) = Some c \<and> s' = s\<lparr>x_conc := c\<rparr>)"
  by (auto simp: on_ring_def)

text \<open>The part that both producing loops share: inside \<open>awp_ring_push\<close>, and on its return.\<close>

lemma push_inside:
  assumes I: "prog_inv K r s" and i: "i < k_prods K" and q: "x_prod s i = PPush n idx"
    and nd: "push_of (xpc s (2 * i)) = Some (g_frame idx)" and step: "on_ring (Step (2 * i) b) s = Some s'"
  shows "prog_inv K r s'"
proof -
  let ?c = "x_conc s" and ?t = "2 * i"
  have c: "s' = s\<lparr>x_conc := push_step b ?t ?c\<rparr>"
    using step step_push [OF push_of_is_push [OF nd]] by (auto simp: on_ring_Some)
  have P: "phase_ok K s" "prod_ok K (x_prod s i) (xpc s ?t)" "sent_ok K s" "frames_ok K s" "conc_reach r ?c"
    using I by (auto simp: prog_inv_def threads_ok_def)
  have "\<not> r_closed (g_ring ?c)" using P(1) i q by (cases "x_main s") (auto simp: phase_ok_def)
  note S = push_sent [OF nd this, of b]
  have oth: "t \<noteq> ?t \<Longrightarrow> xpc s' t = xpc s t" for t by (simp add: c push_step_frame)
  have e: "x_prod s' = (x_prod s)(i := PPush n idx)" using q by (auto simp: c)
  have s1: "sent_ok K s'"
    by (rule sent_change [where d = 0, OF P(3) i e _ oth]) (use q S(2) in \<open>simp_all add: c takes_def hold_def\<close>)
  have f1: "frames_ok K s'" using P(4) by (simp add: c frames_ok_def taken_def)
  have r1: "conc_reach r (push_step b ?t ?c)"
    by (rule conc_reach.step [OF P(5) step_push [OF push_of_is_push [OF nd]]])
  obtain ext where "g_log (push_step b ?t ?c) = g_log ?c @ ext"
    using conc_step_log [OF step_push [OF push_of_is_push [OF nd]]] by blast
  moreover have "\<not> is_pop (xpc s' ?t)" using push_step_pc [OF push_of_is_push [OF nd], of b] by (simp add: c)
  ultimately show ?thesis
    by (intro producer_step [OF I i _ _ _ _ _ _ _ _ _ _ _ e _ _ oth _ _ s1 f1])
      (use q S(1) P(2) r1 in \<open>auto simp: c push_step_frame prod_ok_def\<close>)
qed

lemma push_returned:
  assumes I: "prog_inv K r s" and i: "i < k_prods K" and q: "x_prod s i = PPush n idx"
    and d: "xpc s (2 * i) = Done 0 None" and step: "on_ring (Step (2 * i) b) (set_prod i (PLoop (Suc n)) s) = Some s'"
  shows "prog_inv K r s'"
proof -
  let ?c = "x_conc s" and ?t = "2 * i"
  have st: "conc_step (Step ?t b) ?c = Some (goto ?t Idle ?c)" using d by (simp add: conc_step_def)
  then have c: "s' = set_prod i (PLoop (Suc n)) (s\<lparr>x_conc := goto ?t Idle ?c\<rparr>)"
    using step by (auto simp: on_ring_Some set_prod_def)
  have P: "prod_ok K (x_prod s i) (xpc s ?t)" "sent_ok K s" "frames_ok K s" "conc_reach r ?c"
    using I by (auto simp: prog_inv_def threads_ok_def)
  have oth: "t \<noteq> ?t \<Longrightarrow> xpc s' t = xpc s t" for t by (simp add: c set_prod_def)
  have e: "x_prod s' = (x_prod s)(i := PLoop (Suc n))" by (simp add: c set_prod_def)
  have tk: "takes K (PLoop (Suc n)) = takes K (x_prod s i) + 0" using q by (simp add: takes_def)
  have s1: "sent_ok K s'"
    by (rule sent_change [OF P(2) i e tk oth]) (use q d in \<open>simp_all add: c set_prod_def hold_def\<close>)
  have f1: "frames_ok K s'"
    by (rule frames_same [OF P(3) _ _ e]) (use q taken_change [OF i e tk] in \<open>simp_all add: c set_prod_def\<close>)
  have r1: "conc_reach r (goto ?t Idle ?c)" by (rule conc_reach.step [OF P(4) st])
  show ?thesis
    by (intro producer_step [OF I i _ _ _ _ _ _ _ _ _ _ _ e _ _ oth _ _ s1 f1])
      (use q P(1) r1 in \<open>auto simp: c set_prod_def prod_ok_def\<close>)
qed


text \<open>The call of \<open>awp_ring_push\<close> on a frame just filled.\<close>

lemma push_called:
  assumes I: "prog_inv K r s" and i: "i < k_prods K" and act: "x_prod s i \<noteq> PNew" "x_prod s i \<noteq> PEnd"
    and c: "s' = s\<lparr>x_conc := goto (2 * i) (PushClosed (g_frame idx) False) (x_conc s), x_prod := (x_prod s)(i := PPush n idx),
      x_frames := (x_frames s)[idx := f]\<rparr>"
    and call: "conc_step (CallPush (2 * i) (g_frame idx) False) (x_conc s) = Some (x_conc s')"
    and n: "n < k_per K" and seq: "f_seq f = of_nat idx" and s1: "sent_ok K s'"
    and taken: "\<And>j. j < taken K s' \<Longrightarrow> j \<noteq> idx \<Longrightarrow> j < taken K s" and old: "\<And>m j. x_prod s i = PFill m j \<Longrightarrow> j = idx"
    and lt: "idx < k_slab K"
  shows "prog_inv K r s'"
proof -
  have P: "frames_ok K s" "conc_reach r (x_conc s)" using I by (auto simp: prog_inv_def)
  have e: "x_prod s' = (x_prod s)(i := PPush n idx)" by (simp add: c)
  have oth: "t \<noteq> 2 * i \<Longrightarrow> xpc s' t = xpc s t" for t by (simp add: c)
  have "f_seq (x_frames s' ! j) = of_nat j" if j: "j < taken K s'" "\<forall>k m. x_prod s' k \<noteq> PFill m j" for j
  proof (cases "j = idx")
    case True
    then show ?thesis using lt seq P(1) by (simp add: c frames_ok_def)
  next
    case False
    have "x_prod s k \<noteq> PFill m j" for k m
      using j(2) e old False by (metis fun_upd_apply)
    then show ?thesis using P(1) taken [OF j(1) False] False by (simp add: frames_ok_def c)
  qed
  then have f1: "frames_ok K s'" using P(1) by (simp add: frames_ok_def c)
  show ?thesis
    by (intro producer_step [OF I i act conc_reach.step [OF P(2) call] _ _ _ _ _ _ _ _ e _ _ oth _ _ s1 f1])
      (use n in \<open>simp_all add: c prod_ok_def\<close>)
qed

lemma mpmc_prod_inv:
  assumes I: "prog_inv K r s" and ok: "client_ok K r" and self: "\<not> k_self K" and step: "mpmc_prod K i b s = Some s'"
  shows "prog_inv K r s'"
proof -
  have T: "threads_ok K s" and P: "prod_ok K (x_prod s i) (xpc s (2 * i))" "sent_ok K s" "frames_ok K s" "conc_reach r (x_conc s)"
    using I by (auto simp: prog_inv_def threads_ok_def)
  have act: "x_prod s i \<noteq> PNew" "x_prod s i \<noteq> PEnd" using step by (auto simp: mpmc_prod_def)
  then have i: "i < k_prods K" using T by (meson not_le threads_ok_def)
  note mode = conc_reach_mode [OF P(4)]
  have size: "k_total K \<le> k_slab K" "k_slab K < 2 ^ 32" and mp: "multi_prod (gmode (x_conc s))"
    using ok self mode by (auto simp: client_ok_def multi_prod_def)
  show ?thesis
  proof (cases "x_prod s i")
    case (PLoop n)
    have idle: "xpc s (2 * i) = Idle" and n: "n \<le> k_per K" using P(1) PLoop by (auto simp: prod_ok_def)
    show ?thesis
    proof (cases "n < k_per K")
      case True
      have fi: "unat (x_fi s) = taken K s" using P(2) self by (simp add: sent_ok_def)
      then have lt: "unat (x_fi s) < k_slab K" using taken_lt [OF T i PLoop True] size by simp
      let ?p = "PFill n (unat (x_fi s))"
      have c: "s' = set_prod i ?p (s\<lparr>x_fi := x_fi s + 1\<rparr>)" using step PLoop True lt by (simp add: mpmc_prod_def Let_def)
      have e: "x_prod s' = (x_prod s)(i := ?p)" by (simp add: c set_prod_def)
      have tk: "takes K ?p = takes K (x_prod s i) + 1" using PLoop by (simp add: takes_def)
      have "unat (x_fi s + 1) = unat (x_fi s) + 1" using lt size by (simp add: unat_word_ariths)
      then have s1: "sent_ok K s'"
        by (intro sent_change [OF P(2) i e tk]) (use PLoop fi in \<open>simp_all add: c set_prod_def hold_def\<close>)
      have fr: "x_frames s' = x_frames s" by (simp add: c set_prod_def)
      have "f_seq (x_frames s' ! j) = of_nat j" if j: "j < taken K s'" "\<forall>k m. x_prod s' k \<noteq> PFill m j" for j
      proof -
        have "j \<noteq> taken K s" using j(2) e fi by (metis fun_upd_same)
        moreover have "x_prod s k \<noteq> PFill m j" for k m using j(2) e PLoop by (metis fun_upd_apply pstate.distinct(11))
        ultimately show ?thesis using P(3) j(1) taken_change [OF i e tk] by (simp add: frames_ok_def fr)
      qed
      then have f1: "frames_ok K s'" using P(3) by (simp add: frames_ok_def fr)
      show ?thesis
        by (intro producer_step [OF I i act _ _ _ _ _ _ _ _ _ e _ _ _ _ _ s1 f1])
          (use True lt idle self P(4) in \<open>simp_all add: c set_prod_def prod_ok_def\<close>)
    next
      case False
      then have c: "s' = set_prod i PEnd s" using step PLoop by (simp add: mpmc_prod_def)
      have e: "x_prod s' = (x_prod s)(i := PEnd)" by (simp add: c set_prod_def)
      have tk: "takes K PEnd = takes K (x_prod s i) + 0" using PLoop n False by (simp add: takes_def)
      have s1: "sent_ok K s'" by (rule sent_change [OF P(2) i e tk]) (use PLoop in \<open>simp_all add: c set_prod_def hold_def\<close>)
      have f1: "frames_ok K s'"
        by (rule frames_same [OF P(3) _ _ e]) (use PLoop taken_change [OF i e tk] in \<open>simp_all add: c set_prod_def\<close>)
      show ?thesis
        by (intro producer_step [OF I i act _ _ _ _ _ _ _ _ _ e _ _ _ _ _ s1 f1])
          (use idle P(4) in \<open>simp_all add: c set_prod_def prod_ok_def\<close>)
    qed
  next
    case (PFill n idx)
    have idle: "xpc s (2 * i) = Idle" and n: "n < k_per K" "idx < k_slab K" using P(1) PFill by (auto simp: prod_ok_def)
    have call: "conc_step (CallPush (2 * i) (g_frame idx) False) (x_conc s) = Some (goto (2 * i) (PushClosed (g_frame idx) False) (x_conc s))"
      using idle mp by (simp add: conc_step_def)
    let ?f = "label_frame (of_nat idx) 80 i"
    have c: "s' = s\<lparr>x_conc := goto (2 * i) (PushClosed (g_frame idx) False) (x_conc s), x_prod := (x_prod s)(i := PPush n idx),
        x_frames := (x_frames s)[idx := ?f]\<rparr>"
      using step call PFill by (auto simp: mpmc_prod_def on_ring_Some set_prod_def)
    have e: "x_prod s' = (x_prod s)(i := PPush n idx)" by (simp add: c)
    have tk: "takes K (PPush n idx) = takes K (x_prod s i) + 0" using PFill by (simp add: takes_def)
    have s1: "sent_ok K s'" by (rule sent_change [OF P(2) i e tk]) (use PFill in \<open>simp_all add: c hold_def\<close>)
    show ?thesis
      by (rule push_called [OF I i act c _ n(1) _ s1 _ _ n(2)])
        (use call PFill taken_change [OF i e tk] in \<open>simp_all add: c label_frame_def\<close>)
  next
    case (PPush n idx)
    then consider "push_of (xpc s (2 * i)) = Some (g_frame idx)" | "xpc s (2 * i) = Done 0 None"
      using P(1) by (auto simp: prod_ok_def)
    then show ?thesis
    proof cases
      case 1
      then have "on_ring (Step (2 * i) b) s = Some s'" using step PPush by (cases "xpc s (2 * i)") (auto simp: mpmc_prod_def)
      then show ?thesis by (rule push_inside [OF I i PPush 1])
    next
      case 2
      then show ?thesis using push_returned [OF I i PPush 2] step PPush by (simp add: mpmc_prod_def)
    qed
  qed (use act P(1) in \<open>simp_all add: prod_ok_def\<close>)
qed


lemma spmc_feed_inv:
  assumes I: "prog_inv K r s" and ok: "client_ok K r" and self: "k_self K" and step: "spmc_feed K b s = Some s'"
  shows "prog_inv K r s'"
proof -
  have P: "prod_ok K (x_prod s 0) (xpc s 0)" "sent_ok K s" "frames_ok K s" "conc_reach r (x_conc s)"
    using I by (auto simp: prog_inv_def threads_ok_def elim: allE [of _ 0])
  have act: "x_prod s 0 \<noteq> PNew" "x_prod s 0 \<noteq> PEnd" using step by (auto simp: spmc_feed_def)
  have one: "k_prods K = 1" and size: "k_per K \<le> k_slab K" using ok self by (auto simp: client_ok_def)
  then have i: "0 < k_prods K" by simp
  show ?thesis
  proof (cases "x_prod s 0")
    case (PLoop n)
    have idle: "xpc s 0 = Idle" and n: "n \<le> k_per K" using P(1) PLoop by (auto simp: prod_ok_def)
    have t: "taken K s = n" using one PLoop by (simp add: taken_def takes_def)
    show ?thesis
    proof (cases "n < k_per K")
      case True
      have call: "conc_step (CallPush (2 * 0) (g_frame n) False) (x_conc s) = Some (goto (2 * 0) (PushClosed (g_frame n) False) (x_conc s))"
        using idle by (simp add: conc_step_def)
      let ?f = "label_frame (of_nat n) 83 (n mod 5)"
      have c: "s' = s\<lparr>x_conc := goto (2 * 0) (PushClosed (g_frame n) False) (x_conc s), x_prod := (x_prod s)(0 := PPush n n),
          x_frames := (x_frames s)[n := ?f]\<rparr>"
        using step call PLoop True by (auto simp: spmc_feed_def on_ring_Some set_prod_def)
      have e: "x_prod s' = (x_prod s)(0 := PPush n n)" by (simp add: c)
      have tk: "takes K (PPush n n) = takes K (x_prod s 0) + 1" using PLoop by (simp add: takes_def)
      have s1: "sent_ok K s'" by (rule sent_change [OF P(2) i e tk]) (use PLoop self t in \<open>simp_all add: c hold_def\<close>)
      show ?thesis
        by (rule push_called [OF I i act c _ True _ s1])
          (use call PLoop taken_change [OF i e tk] t True size in \<open>simp_all add: c label_frame_def\<close>)
    next
      case False
      then have c: "s' = set_prod 0 PEnd s" using step PLoop by (simp add: spmc_feed_def)
      have e: "x_prod s' = (x_prod s)(0 := PEnd)" by (simp add: c set_prod_def)
      have tk: "takes K PEnd = takes K (x_prod s 0) + 0" using PLoop n False by (simp add: takes_def)
      have s1: "sent_ok K s'" by (rule sent_change [OF P(2) i e tk]) (use PLoop in \<open>simp_all add: c set_prod_def hold_def\<close>)
      have f1: "frames_ok K s'"
        by (rule frames_same [OF P(3) _ _ e]) (use PLoop taken_change [OF i e tk] in \<open>simp_all add: c set_prod_def\<close>)
      show ?thesis
        by (intro producer_step [OF I i act _ _ _ _ _ _ _ _ _ e _ _ _ _ _ s1 f1])
          (use idle P(4) in \<open>simp_all add: c set_prod_def prod_ok_def\<close>)
    qed
  next
    case (PPush n idx)
    then consider "push_of (xpc s (2 * 0)) = Some (g_frame idx)" | "xpc s (2 * 0) = Done 0 None"
      using P(1) by (auto simp: prod_ok_def)
    then show ?thesis
    proof cases
      case 1
      then have "on_ring (Step (2 * 0) b) s = Some s'" using step PPush by (cases "xpc s 0") (auto simp: spmc_feed_def)
      then show ?thesis by (rule push_inside [OF I i PPush 1])
    next
      case 2
      then show ?thesis using push_returned [OF I i PPush 2] step PPush by (simp add: spmc_feed_def)
    qed
  qed (use act P(1) step in \<open>simp_all add: prod_ok_def spmc_feed_def\<close>)
qed

section \<open>Steps of a consumer\<close>

lemma consumer_step:
  assumes I: "prog_inv K r s" and j: "j < k_cons K" and act: "x_cons s j \<noteq> CNew" "x_cons s j \<noteq> CExit"
    and R: "conc_reach r (x_conc s')"
    and same: "x_prod s' = x_prod s" "x_main s' = x_main s" "x_errs s' = x_errs s" "x_fi s' = x_fi s" "x_frames s' = x_frames s"
      "g_log (x_conc s') = g_log (x_conc s)" "r_closed (g_ring (x_conc s')) = r_closed (g_ring (x_conc s))"
    and q: "x_cons s' = (x_cons s)(j := q')" "cons_ok q' (xpc s' (2 * j + 1))" "q' \<noteq> CNew"
    and others: "\<And>t. t \<noteq> 2 * j + 1 \<Longrightarrow> xpc s' t = xpc s t"
    and shown: "shown_ok K s'" and drain: "drain_ok K s'"
  shows "prog_inv K r s'"
proof -
  have T: "threads_ok K s" and P: "phase_ok K s" and S: "sent_ok K s" and F: "frames_ok K s" using I by (auto simp: prog_inv_def)
  have even: "xpc s' (2 * i) = xpc s (2 * i)" for i by (rule others) presburger
  have odd: "xpc s' (2 * k + 1) = xpc s (2 * k + 1)" if "k \<noteq> j" for k by (rule others) (use that in simp)
  have "cons_ok (x_cons s' k) (xpc s' (2 * k + 1))" for k
    using T q odd by (cases "k = j") (auto simp: threads_ok_def)
  then have T': "threads_ok K s'" using T q(1) j even by (auto simp: threads_ok_def same)
  have P': "phase_ok K s'"
    using P j act q by (cases "x_main s") (auto simp: phase_ok_def same)
  have "taken K s' = taken K s" "held K s' = held K s" using even by (simp_all add: taken_def held_def same)
  then have "sent_ok K s'" "frames_ok K s'" using S F by (simp_all add: sent_ok_def frames_ok_def same)
  then show ?thesis using R T' P' shown drain by (simp add: prog_inv_def)
qed


text \<open>The three accounts of a consumer: what it has in hand, what is counted, who looks at the next
  position.\<close>

lemma shown_change:
  assumes "shown_ok K s" and "j < k_cons K" and "x_cons s' = (x_cons s)(j := q')"
    and "\<And>t. t \<noteq> 2 * j + 1 \<Longrightarrow> xpc s' t = xpc s t" and "set (g_log (x_conc s')) = set (g_log (x_conc s))"
    and "image_mset (\<lambda>f. of_nat (ptr_index f)) (mset (map snd (g_out (x_conc s'))) + hand (x_cons s j) (xpc s (2 * j + 1)))
        + mset (map (\<lambda>(j, sq, sym). sq) (x_lines s))
      = image_mset (\<lambda>f. of_nat (ptr_index f)) (mset (map snd (g_out (x_conc s))) + hand q' (xpc s' (2 * j + 1)))
        + mset (map (\<lambda>(j, sq, sym). sq) (x_lines s'))"
    and "x_got s' + (if q' = CCount then 1 else 0) + int (length (x_lines s))
      = x_got s + (if x_cons s j = CCount then 1 else 0) + int (length (x_lines s'))"
    and "\<And>f. q' = CShow f \<or> q' = CPop \<and> xpc s' (2 * j + 1) = Done 0 (Some f) \<Longrightarrow> f \<in> set (g_log (x_conc s))"
  shows "shown_ok K s'"
proof -
  let ?H = "\<lambda>s k. hand (x_cons s k) (xpc s (2 * k + 1))" and ?C = "\<lambda>s k. if x_cons s k = CCount then 1 else 0 :: nat"
  let ?f = "image_mset (\<lambda>f. of_nat (ptr_index f) :: u64)"
  have o: "?H s' k = ?H s k" "?C s' k = ?C s k" if "k \<noteq> j" for k
    using that assms(3) assms(4) [of "2 * k + 1"] by simp_all
  have h: "(\<Sum>k<k_cons K. ?H s' k) + ?H s j = (\<Sum>k<k_cons K. ?H s k) + ?H s' j"
    and n: "(\<Sum>k<k_cons K. ?C s' k) + ?C s j = (\<Sum>k<k_cons K. ?C s k) + ?C s' j"
    using sum_change [OF assms(2), of "?H s'" "?H s"] sum_change [OF assms(2), of "?C s'" "?C s"] o by blast+
  have A: "?f (mset (map snd (g_out (x_conc s')))) = mset (map (\<lambda>(j, sq, sym). sq) (x_lines s')) + ?f (\<Sum>k<k_cons K. ?H s' k)"
  proof -
    let ?L = "\<lambda>s. mset (map (\<lambda>(j, sq, sym). sq) (x_lines s))" and ?O = "\<lambda>s. mset (map snd (g_out (x_conc s)))"
    let ?S = "\<lambda>s. \<Sum>k<k_cons K. ?H s k"
    have q: "?H s' j = hand q' (xpc s' (2 * j + 1))" using assms(3) by simp
    have "?f (?O s') + (?f (?H s j) + ?L s) = ?f (?O s) + ?f (?H s' j) + ?L s'"
      using assms(6) unfolding q by (simp add: ac_simps)
    also have "?f (?O s) = ?L s + ?f (?S s)" using assms(1) by (simp add: shown_ok_def)
    also have "?L s + ?f (?S s) + ?f (?H s' j) + ?L s' = ?L s + ?f (?S s + ?H s' j) + ?L s'" by simp
    also have "\<dots> = (?L s' + ?f (?S s')) + (?f (?H s j) + ?L s)" unfolding h [symmetric] by (simp add: ac_simps)
    finally show ?thesis by (rule add_right_imp_eq)
  qed
  have B: "x_got s' + int (\<Sum>k<k_cons K. ?C s' k) = int (length (x_lines s'))"
  proof -
    have "int (\<Sum>k<k_cons K. ?C s' k) + int (?C s j) = int (\<Sum>k<k_cons K. ?C s k) + int (?C s' j)"
      using arg_cong [OF n, of int] by (simp only: of_nat_add)
    moreover have "x_got s + int (\<Sum>k<k_cons K. ?C s k) = int (length (x_lines s))" using assms(1) by (simp add: shown_ok_def)
    moreover have "x_cons s' j = q'" using assms(3) by simp
    ultimately show ?thesis using assms(7) by (auto split: if_splits)
  qed
  have "f \<in> set (g_log (x_conc s'))"
    if "x_cons s' k = CShow f \<or> x_cons s' k = CPop \<and> xpc s' (2 * k + 1) = Done 0 (Some f)" for k f
    using that assms(1,3,5,8) assms(4) [of "2 * k + 1"] by (cases "k = j") (auto simp: shown_ok_def)
  then show ?thesis using A B by (simp add: shown_ok_def)
qed


lemma drain_other:
  assumes D: "drain_ok K s" and j: "j < k_cons K" and q: "x_cons s' = (x_cons s)(j := q')" and m: "x_main s' = x_main s"
    and oth: "\<And>t. t \<noteq> 2 * j + 1 \<Longrightarrow> xpc s' t = xpc s t" and inv: "conc_inv (x_conc s')"
    and log: "g_log (x_conc s') = g_log (x_conc s)" and cl: "r_closed (g_ring (x_conc s')) = r_closed (g_ring (x_conc s))"
    and deq: "g_deq (x_conc s) \<le> g_deq (x_conc s')"
      "g_deq (x_conc s') = g_deq (x_conc s) \<or> q' = CPop \<and> claimed (xpc s' (2 * j + 1))"
    and pc: "\<And>pos. xpc s' (2 * j + 1) = PopSeq2 pos \<Longrightarrow> r_closed (g_ring (x_conc s))"
    and own: "x_cons s j \<noteq> CExit \<Longrightarrow> at_next (x_conc s) (2 * j + 1) \<Longrightarrow> \<not> gave_up (xpc s (2 * j + 1)) \<Longrightarrow>
      q' \<noteq> CExit \<and> at_next (x_conc s') (2 * j + 1) \<and> \<not> gave_up (xpc s' (2 * j + 1))
      \<or> sealed (x_main s) \<and> g_deq (x_conc s) = length (g_log (x_conc s))"
  shows "drain_ok K s'"
proof -
  let ?W = "\<lambda>s k. x_cons s k \<noteq> CExit \<and> at_next (x_conc s) (2 * k + 1) \<and> \<not> gave_up (xpc s (2 * k + 1))"
  have le: "g_deq (x_conc s') \<le> length (g_log (x_conc s))" using inv log by (simp add: conc_inv_def positions_ok_def)
  have fin: "sealed (x_main s') \<and> g_deq (x_conc s') = length (g_log (x_conc s'))"
    if "sealed (x_main s) \<and> g_deq (x_conc s) = length (g_log (x_conc s))" using that le deq(1) m log by simp
  have cj: "?W s' j" if "q' = CPop" "claimed (xpc s' (2 * j + 1))"
    using that q by (cases "xpc s' (2 * j + 1)") (auto simp: at_next_def)
  have "?W s' j \<or> ?W s' k \<or> sealed (x_main s') \<and> g_deq (x_conc s') = length (g_log (x_conc s'))" if w: "k < k_cons K" "?W s k" for k
  proof (cases "k = j")
    case True
    then show ?thesis using own w(2) q fin by auto
  next
    case False
    have "?W s' k" if "g_deq (x_conc s') = g_deq (x_conc s)"
      using w(2) q False oth [of "2 * k + 1"] at_next_cong [OF _ that, of "2 * k + 1"] by simp
    then show ?thesis using deq(2) cj by blast
  qed
  then have "(\<exists>k<k_cons K. ?W s' k) \<or> sealed (x_main s') \<and> g_deq (x_conc s') = length (g_log (x_conc s'))"
    using D fin j unfolding drain_ok_def by blast
  moreover have "r_closed (g_ring (x_conc s'))" if "xpc s' t = PopSeq2 pos" for t pos
    using that D pc cl oth [of t] by (cases "t = 2 * j + 1") (auto simp: drain_ok_def)
  ultimately show ?thesis by (simp add: drain_ok_def)
qed


text \<open>A frame in the ring's log is not one that a producer is still filling.\<close>

lemma log_not_filling:
  assumes "sent_ok K s" and "threads_ok K s" and "g_frame idx \<in> set (g_log (x_conc s))"
  shows "x_prod s i \<noteq> PFill n idx"
proof
  assume p: "x_prod s i = PFill n idx"
  then have i: "i < k_prods K" using assms(2) by (metis not_le pstate.distinct(3) threads_ok_def)
  have "hold (x_prod s i) (xpc s (2 * i)) \<subseteq># held K s"
    unfolding held_def using i by (simp add: sum.remove [of "{..<k_prods K}" i])
  then have h: "g_frame idx \<in># held K s" using p by (auto simp: hold_def)
  have "count (mset (g_log (x_conc s)) + held K s) (g_frame idx) \<ge> 2"
    using assms(3) h by (metis add_mono count_greater_eq_one_iff one_add_one plus_multiset.rep_eq set_mset_mset)
  moreover have "distinct (map g_frame [0..<taken K s])" by (simp add: distinct_map inj_on_def)
  then have "count (mset (map g_frame [0..<taken K s])) (g_frame idx) \<le> 1"
    by (metis distinct_count_atmost_1 le_refl zero_le_one)
  ultimately show False using assms(1) by (simp only: sent_ok_def)
qed

lemma out_in_log:
  assumes "conc_inv c" and "f \<in> set (map snd (g_out c))" shows "f \<in> set (g_log c)"
proof -
  obtain p where "(p, f) \<in> set (g_out c)" using assms(2) by auto
  then have "p < g_deq c" "f = g_log c ! p" using assms(1) by (auto simp: conc_inv_def out_ok_def)
  moreover have "g_deq c \<le> genq c" using assms(1) by (simp add: conc_inv_def positions_ok_def)
  ultimately show ?thesis by simp
qed

lemma pop_inside:
  assumes I: "prog_inv K r s" and ok: "client_ok K r" and j: "j < k_cons K" and q: "x_cons s j = CPop"
    and pop: "is_pop (xpc s (2 * j + 1))" and step: "on_ring (Step (2 * j + 1) b) s = Some s'"
  shows "prog_inv K r s'"
proof -
  let ?t = "2 * j + 1" and ?c = "x_conc s"
  note inv = prog_conc_inv [OF I ok]
  have st: "conc_step (Step ?t b) ?c = Some (pop_step b ?t ?c)" by (rule step_pop [OF pop])
  have c: "s' = s\<lparr>x_conc := pop_step b ?t ?c\<rparr>" using step st by (auto simp: on_ring_Some)
  have P: "shown_ok K s" "drain_ok K s" "conc_reach r ?c" "phase_ok K s" using I by (auto simp: prog_inv_def)
  have e: "x_cons s' = (x_cons s)(j := CPop)" using q by (auto simp: c)
  have oth: "t \<noteq> ?t \<Longrightarrow> xpc s' t = xpc s t" for t by (simp add: c pop_step_frame)
  have inv': "conc_inv (pop_step b ?t ?c)" by (rule conc_step_inv [OF inv st])
  note G = pop_got [OF inv(1) pop, where b = b]
  have pp: "popped (xpc s ?t) = {#}" using pop by (cases "xpc s ?t") auto
  have "f \<in> set (g_log ?c)" if "xpc s' ?t = Done 0 (Some f)" for f
    using out_in_log [OF inv', of f] G(2) that by (auto simp: c pop_step_frame dest: arg_cong [where f = set_mset])
  then have s1: "shown_ok K s'"
    by (intro shown_change [OF P(1) j e oth]) (use q G(2) pp in \<open>auto simp: c pop_step_frame hand_def\<close>)
  have own: "\<not> gave_up (xpc s' ?t) \<or> sealed (x_main s) \<and> g_deq ?c = length (g_log ?c)" if "at_next ?c ?t"
  proof (cases "gave_up (xpc s' ?t)")
    case True
    then obtain pos where "xpc s ?t = PopSeq2 pos"
      using pop by (cases "xpc s ?t") (auto simp: c pop_step_def Let_def goto_def split: if_splits)
    then have "closing (x_main s)" using P(2,4) by (auto simp: drain_ok_def phase_ok_def)
    then have "sealed (x_main s)" by (cases "x_main s") auto
    then show ?thesis using gives_up_empty [OF inv(1) that pop sealed_no_push [OF I], of b] True by (simp add: c)
  qed simp
  have d1: "drain_ok K s'"
    by (rule drain_other [OF P(2) j e _ oth])
      (use q inv' G(3) G(4) pop_step_frame [where b = b and t = ?t and s = ?c] at_next_pop [OF inv(1) _ pop, of b] own in \<open>auto simp: c\<close>)
  have r1: "conc_reach r (x_conc s')" using conc_reach.step [OF P(3) st] by (simp add: c)
  show ?thesis
    by (intro consumer_step [OF I j _ _ r1 _ _ _ _ _ _ _ e _ _ oth s1 d1])
      (use q G(1) in \<open>auto simp: c pop_step_frame cons_ok_def\<close>)
qed


text \<open>The remaining steps of a consumer leave the positions of the ring alone.\<close>

lemma consumer_local:
  assumes I: "prog_inv K r s" and ok: "client_ok K r" and j: "j < k_cons K" and act: "x_cons s j \<noteq> CNew" "x_cons s j \<noteq> CExit"
    and c: "s' = s\<lparr>x_conc := goto (2 * j + 1) pc' (x_conc s), x_cons := (x_cons s)(j := q'), x_lines := ls, x_got := g\<rparr>"
    and R: "conc_reach r (goto (2 * j + 1) pc' (x_conc s))" and q: "cons_ok q' pc'" "q' \<noteq> CNew" and pc: "pc' = Idle \<or> pc' = PopPos"
    and exit: "q' = CExit \<Longrightarrow> gave_up (xpc s (2 * j + 1))" and shown: "shown_ok K s'"
  shows "prog_inv K r s'"
proof -
  have D: "drain_ok K s" using I by (simp add: prog_inv_def)
  have e: "x_cons s' = (x_cons s)(j := q')" by (simp add: c)
  have oth: "t \<noteq> 2 * j + 1 \<Longrightarrow> xpc s' t = xpc s t" for t by (simp add: c)
  have r1: "conc_reach r (x_conc s')" using R by (simp add: c)
  have "in_range (x_conc s')" using prog_conc_inv(2) [OF I ok] by (simp add: c in_range_def)
  then have inv': "conc_inv (x_conc s')" using conc_reach_inv [OF r1] ok by (simp add: client_ok_def)
  have d1: "drain_ok K s'"
    by (rule drain_other [OF D j e _ oth inv']) (use exit pc in \<open>auto simp: c\<close>)
  show ?thesis
    by (intro consumer_step [OF I j act r1 _ _ _ _ _ _ _ e _ _ oth shown d1]) (use q in \<open>simp_all add: c\<close>)
qed

lemma goto_same: "g_pc c t = pc \<Longrightarrow> goto t pc c = c"
  by (simp add: goto_def fun_upd_idem)

lemma mpmc_cons_inv:
  assumes I: "prog_inv K r s" and ok: "client_ok K r" and step: "mpmc_cons j b s = Some s'"
  shows "prog_inv K r s'"
proof -
  let ?t = "2 * j + 1" and ?c = "x_conc s"
  have T: "threads_ok K s" "sent_ok K s" "frames_ok K s" and P: "cons_ok (x_cons s j) (xpc s ?t)" "shown_ok K s" "conc_reach r ?c"
    using I by (auto simp: prog_inv_def threads_ok_def)
  have act: "x_cons s j \<noteq> CNew" "x_cons s j \<noteq> CExit" using step by (auto simp: mpmc_cons_def)
  then have j: "j < k_cons K" using T(1) by (meson not_le threads_ok_def)
  have mc: "multi_cons (gmode ?c)" using ok conc_reach_mode [OF P(3)] by (auto simp: client_ok_def multi_cons_def)
  note local = consumer_local [OF I ok j act]
  show ?thesis
  proof (cases "x_cons s j")
    case CLoop
    have st: "conc_step (CallPop ?t) ?c = Some (goto ?t PopPos ?c)" using P(1) CLoop mc by (simp add: conc_step_def cons_ok_def)
    have c: "s' = s\<lparr>x_conc := goto ?t PopPos ?c, x_cons := (x_cons s)(j := CPop), x_lines := x_lines s, x_got := x_got s\<rparr>"
      using step st CLoop by (auto simp: mpmc_cons_def on_ring_Some set_cons_def)
    show ?thesis
      by (rule local [OF c conc_reach.step [OF P(3) st]])
        (use CLoop in \<open>auto simp: cons_ok_def c hand_def intro!: shown_change [OF P(2) j, where q' = CPop]\<close>)
  next
    case CPop
    show ?thesis
    proof (cases "is_pop (xpc s ?t)")
      case True
      then have "on_ring (Step ?t b) s = Some s'" using step CPop by (cases "xpc s ?t") (auto simp: mpmc_cons_def)
      then show ?thesis by (rule pop_inside [OF I ok j CPop True])
    next
      case False
      then obtain rc f where d: "xpc s ?t = Done rc f" and v: "rc = 0 \<and> f \<noteq> None \<or> rc = - 1 \<and> f = None"
        using P(1) CPop by (auto simp: cons_ok_def)
      have st: "conc_step (Step ?t b) ?c = Some (goto ?t Idle ?c)" using d by (simp add: conc_step_def)
      define q' where "q' = (if rc \<noteq> 0 then CExit else case f of None \<Rightarrow> CLoop | Some p \<Rightarrow> CShow p)"
      have c: "s' = s\<lparr>x_conc := goto ?t Idle ?c, x_cons := (x_cons s)(j := q'), x_lines := x_lines s, x_got := x_got s\<rparr>"
        using step st CPop d by (auto simp: mpmc_cons_def on_ring_Some set_cons_def q'_def)
      have log: "f = Some p \<Longrightarrow> rc = 0 \<Longrightarrow> p \<in> set (g_log ?c)" for p
        using P(2) CPop d by (auto simp: shown_ok_def)
      have s1: "shown_ok K s'"
        by (rule shown_change [OF P(2) j, where q' = q']) (use CPop d v log in \<open>auto simp: c hand_def q'_def\<close>)
      show ?thesis
        by (rule local [OF c conc_reach.step [OF P(3) st] _ _ _ _ s1])
          (use d v in \<open>auto simp: cons_ok_def q'_def split: option.splits\<close>)
    qed
  next
    case (CShow p)
    have idle: "xpc s ?t = Idle" using P(1) CShow by (simp add: cons_ok_def)
    have "p \<in> set (g_log ?c)" using P(2) CShow by (auto simp: shown_ok_def)
    then obtain idx where p: "p = g_frame idx" "idx < taken K s" "p \<in> set (g_log ?c)" using hold_lt [OF T(2)] by blast
    then have "x_prod s i \<noteq> PFill n idx" for i n using log_not_filling [OF T(2,1)] by blast
    then have sq: "f_seq (x_frames s ! ptr_index p) = of_nat (ptr_index p)" using T(3) p(1,2) by (simp add: frames_ok_def)
    let ?l = "(j, f_seq (x_frames s ! ptr_index p), content (f_symbol (x_frames s ! ptr_index p)))"
    have c: "s' = s\<lparr>x_conc := goto ?t Idle ?c, x_cons := (x_cons s)(j := CCount), x_lines := x_lines s @ [?l], x_got := x_got s\<rparr>"
      using step CShow by (auto simp: mpmc_cons_def set_cons_def goto_same [OF idle, simplified] Let_def)
    have s1: "shown_ok K s'"
      by (rule shown_change [OF P(2) j, where q' = CCount]) (use CShow sq in \<open>auto simp: c hand_def\<close>)
    show ?thesis
      by (rule local [OF c _ _ _ _ _ s1]) (use P(3) in \<open>auto simp: cons_ok_def goto_same [OF idle, simplified]\<close>)
  next
    case CCount
    have idle: "xpc s ?t = Idle" using P(1) CCount by (simp add: cons_ok_def)
    have c: "s' = s\<lparr>x_conc := goto ?t Idle ?c, x_cons := (x_cons s)(j := CLoop), x_lines := x_lines s, x_got := x_got s + 1\<rparr>"
      using step CCount by (auto simp: mpmc_cons_def set_cons_def goto_same [OF idle, simplified])
    have s1: "shown_ok K s'"
      by (rule shown_change [OF P(2) j, where q' = CLoop]) (use CCount in \<open>auto simp: c hand_def\<close>)
    show ?thesis
      by (rule local [OF c _ _ _ _ _ s1]) (use P(3) in \<open>auto simp: cons_ok_def goto_same [OF idle, simplified]\<close>)
  qed (use act in simp_all)
qed


section \<open>Steps of the main thread\<close>

lemma main_step:
  assumes I: "prog_inv K r s" and R: "conc_reach r (x_conc s')"
    and same: "x_got s' = x_got s" "x_errs s' = x_errs s" "x_lines s' = x_lines s" "x_fi s' = x_fi s" "x_frames s' = x_frames s"
      "xpc s' = xpc s" "g_log (x_conc s') = g_log (x_conc s)" "g_out (x_conc s') = g_out (x_conc s)" "g_deq (x_conc s') = g_deq (x_conc s)"
    and p: "\<And>i. x_prod s' i = x_prod s i \<or> i < k_prods K \<and> x_prod s i = PNew \<and> x_prod s' i = PLoop 0"
    and q: "\<And>j. x_cons s' j = x_cons s j \<or> j < k_cons K \<and> x_cons s j = CNew \<and> x_cons s' j = CLoop"
    and m: "sealed (x_main s) \<Longrightarrow> sealed (x_main s')" and cl: "r_closed (g_ring (x_conc s)) \<Longrightarrow> r_closed (g_ring (x_conc s'))"
    and P: "phase_ok K s'"
  shows "prog_inv K r s'"
proof -
  have T: "threads_ok K s" and S: "sent_ok K s" and F: "frames_ok K s" and W: "shown_ok K s" and D: "drain_ok K s"
    using I by (auto simp: prog_inv_def)
  have "prod_ok K (x_prod s' i) (xpc s' (2 * i))" "cons_ok (x_cons s' i) (xpc s' (2 * i + 1))" for i
    using p [of i] q [of i] T by (auto simp: threads_ok_def prod_ok_def cons_ok_def same dest: spec [of _ i])
  then have T': "threads_ok K s'" using T p q unfolding threads_ok_def by (metis not_le)
  have "takes K (x_prod s' i) = takes K (x_prod s i)" "hold (x_prod s' i) c = hold (x_prod s i) c" for i c
    using p [of i] by (auto simp: takes_def hold_def)
  then have th: "taken K s' = taken K s" "held K s' = held K s" by (simp_all add: taken_def held_def same)
  have pf: "x_prod s' i = PFill n idx \<longleftrightarrow> x_prod s i = PFill n idx" for i n idx using p [of i] by auto
  have hc: "hand (x_cons s' j) c = hand (x_cons s j) c" "x_cons s' j = CCount \<longleftrightarrow> x_cons s j = CCount"
      "x_cons s' j = CPop \<longleftrightarrow> x_cons s j = CPop" "x_cons s' j = CShow f \<longleftrightarrow> x_cons s j = CShow f"
      "x_cons s' j = CExit \<longleftrightarrow> x_cons s j = CExit" for j c f
    using q [of j] by (auto simp: hand_def)
  have an: "at_next (x_conc s') t = at_next (x_conc s) t" for t by (rule at_next_cong) (simp_all add: same)
  have "sent_ok K s'" "frames_ok K s'" "shown_ok K s'" "drain_ok K s'"
    using S F W D th m cl by (auto simp: sent_ok_def frames_ok_def shown_ok_def drain_ok_def pf hc an same)
  then show ?thesis using R T' P by (simp add: prog_inv_def)
qed

lemma finish_inv:
  assumes I: "prog_inv K r s" and step: "finish K s = Some s'"
  shows "prog_inv K r s'"
proof -
  have P: "phase_ok K s" "conc_reach r (x_conc s)" using I by (auto simp: prog_inv_def)
  show ?thesis
  proof (cases "x_main s")
    case (MSpin n)
    then show ?thesis using step P by (intro main_step [OF I]) (auto simp: finish_def phase_ok_def split: if_splits)
  next
    case MClose
    have st: "conc_step Close (x_conc s) = Some ((x_conc s)\<lparr>g_ring := awp_ring_close (g_ring (x_conc s))\<rparr>)"
      by (simp add: conc_step_def)
    then have c: "s' = s\<lparr>x_conc := (x_conc s)\<lparr>g_ring := awp_ring_close (g_ring (x_conc s))\<rparr>, x_main := MJoinC 0\<rparr>"
      using step MClose by (auto simp: finish_def on_ring_Some)
    show ?thesis
      by (intro main_step [OF I])
        (use P(1) MClose conc_reach.step [OF P(2) st] in \<open>auto simp: c phase_ok_def awp_ring_close_def awp_ring_wake_all_def\<close>)
  next
    case (MJoinC j)
    then show ?thesis
      using step P
      by (intro main_step [OF I]) (auto simp: finish_def phase_ok_def less_Suc_eq verdict_def split: if_splits)
  qed (use step in \<open>simp_all add: finish_def\<close>)
qed

lemma start_cons_inv:
  assumes I: "prog_inv K r s" and m: "x_main s = MMakeC j" and "j < k_cons K"
  shows "prog_inv K r (start_cons K after j s)"
proof -
  have P: "phase_ok K s" "conc_reach r (x_conc s)" using I by (auto simp: prog_inv_def)
  show ?thesis
    by (intro main_step [OF I]) (use P m assms(3) in \<open>auto simp: start_cons_def set_cons_def phase_ok_def\<close>)
qed

lemma demo_ring_main_inv:
  assumes I: "prog_inv K r s" and self: "\<not> k_self K" and step: "demo_ring_main K s = Some s'"
  shows "prog_inv K r s'"
proof -
  have P: "phase_ok K s" "conc_reach r (x_conc s)" using I by (auto simp: prog_inv_def)
  show ?thesis
  proof (cases "x_main s")
    case (MMakeC j)
    show ?thesis
    proof (cases "j < k_cons K")
      case True
      then show ?thesis using start_cons_inv [OF I MMakeC True] step MMakeC by (auto simp: demo_ring_main_def)
    next
      case False
      then show ?thesis
        using step P MMakeC self by (intro main_step [OF I]) (auto simp: demo_ring_main_def start_cons_def phase_ok_def)
    qed
  next
    case (MMakeP i)
    then show ?thesis
      using step P self by (intro main_step [OF I]) (auto simp: demo_ring_main_def set_prod_def phase_ok_def less_Suc_eq split: if_splits)
  next
    case (MJoinP i)
    then show ?thesis
      using step P self by (intro main_step [OF I]) (auto simp: demo_ring_main_def phase_ok_def less_Suc_eq split: if_splits)
  next
    case MFeed
    then show ?thesis using step by (simp add: demo_ring_main_def finish_def)
  qed (use step finish_inv [OF I] in \<open>simp_all add: demo_ring_main_def\<close>)
qed

lemma spmc_main_inv:
  assumes I: "prog_inv K r s" and ok: "client_ok K r" "k_self K" and step: "spmc_main K b s = Some s'"
  shows "prog_inv K r s'"
proof -
  have P: "phase_ok K s" "conc_reach r (x_conc s)" and one: "k_prods K = 1" using I ok by (auto simp: prog_inv_def client_ok_def)
  show ?thesis
  proof (cases "x_main s")
    case (MMakeC j)
    show ?thesis
    proof (cases "j < k_cons K")
      case True
      then show ?thesis using start_cons_inv [OF I MMakeC True] step MMakeC by (auto simp: spmc_main_def)
    next
      case False
      then show ?thesis
        using step P MMakeC one ok(2)
        by (intro main_step [OF I]) (auto simp: spmc_main_def start_cons_def set_prod_def phase_ok_def split: if_splits)
    qed
  next
    case MFeed
    then show ?thesis
      using step P one spmc_feed_inv [OF I ok]
      by (cases "x_prod s 0 = PEnd") (auto simp: spmc_main_def phase_ok_def intro!: main_step [OF I])
  qed (use step finish_inv [OF I] in \<open>simp_all add: spmc_main_def finish_def\<close>)
qed

lemma prog_step_inv:
  assumes "prog_inv K r s" and "client_ok K r" and "prog_step K e s = Some s'"
  shows "prog_inv K r s'"
proof (cases e)
  case (MainStep b)
  then show ?thesis
    using assms(3) demo_ring_main_inv [OF assms(1)] spmc_main_inv [OF assms(1,2)] by (simp add: prog_step_def split: if_splits)
next
  case (ProdStep i b)
  then show ?thesis using assms(3) mpmc_prod_inv [OF assms(1,2)] by (simp add: prog_step_def split: if_splits)
next
  case (ConsStep j b)
  then show ?thesis using assms(3) mpmc_cons_inv [OF assms(1,2)] by (simp add: prog_step_def spmc_consumer_def split: if_splits)
qed

lemma prog_reach_inv: "prog_reach K r s \<Longrightarrow> client_ok K r \<Longrightarrow> prog_inv K r s"
  by (induction rule: prog_reach.induct) (blast intro: prog_init_inv prog_step_inv)+

section \<open>Properties\<close>

lemma returned_idle:
  assumes "prog_inv K r s" and "x_main s = MRet rc"
  shows "quiescent (x_conc s)" and "\<forall>i<k_prods K. x_prod s i = PEnd" and "\<forall>j<k_cons K. x_cons s j = CExit" and "rc = verdict K s"
proof -
  show e: "\<forall>i<k_prods K. x_prod s i = PEnd" "\<forall>j<k_cons K. x_cons s j = CExit" "rc = verdict K s"
    using assms by (auto simp: prog_inv_def phase_ok_def)
  have T: "threads_ok K s" using assms(1) by (simp add: prog_inv_def)
  have p: "x_prod s i = PEnd \<or> x_prod s i = PNew" and q: "x_cons s i = CExit \<or> x_cons s i = CNew" for i
    using e T by (meson not_le threads_ok_def)+
  have o: "prod_ok K (x_prod s i) (xpc s (2 * i))" "cons_ok (x_cons s i) (xpc s (2 * i + 1))" for i
    using T by (simp_all add: threads_ok_def)
  have "xpc s (2 * i) = Idle \<and> xpc s (2 * i + 1) = Idle" for i
    using p [of i] q [of i] o [of i] by (auto simp: prod_ok_def cons_ok_def)
  then have "xpc s t = Idle" for t by (metis evenE oddE)
  then show "quiescent (x_conc s)" by (simp add: quiescent_def)
qed


text \<open>A thread of the program that is running can step; so the program never gets stuck.\<close>

lemma step_enabled: "g_pc c t \<noteq> Idle \<Longrightarrow> \<exists>c'. conc_step (Step t b) c = Some c'"
  by (cases "g_pc c t") (auto simp: conc_step_def)

lemma on_ring_enabled: "\<exists>c'. conc_step e (x_conc s) = Some c' \<Longrightarrow> \<exists>s'. on_ring e s = Some s'"
  by (auto simp: on_ring_Some)

lemma on_ring_set [simp]: "x_conc (set_prod i p s) = x_conc s" "x_conc (set_cons j q s) = x_conc s"
  by (simp_all add: set_prod_def set_cons_def)

lemma prod_running:
  assumes "prog_inv K r s" and "client_ok K r" and "x_prod s i \<noteq> PNew" "x_prod s i \<noteq> PEnd"
  shows "\<exists>s'. (if k_self K then spmc_feed K b s else mpmc_prod K i b s) = Some s'"
proof -
  have T: "threads_ok K s" "conc_reach r (x_conc s)" using assms(1) by (auto simp: prog_inv_def)
  have i: "i < k_prods K" using T(1) assms(3) by (meson not_le threads_ok_def)
  have o: "prod_ok K (x_prod s i) (xpc s (2 * i))" using T(1) by (simp add: threads_ok_def)
  have z: "i = 0" if "k_self K" using that assms(2) i by (simp add: client_ok_def)
  have mp: "multi_prod (gmode (x_conc s)) \<or> i = 0"
    using z assms(2) conc_reach_mode [OF T(2)] by (auto simp: client_ok_def multi_prod_def split: if_splits)
  have call: "\<exists>c'. conc_step (CallPush (2 * i) f y) (x_conc s) = Some c'" if "xpc s (2 * i) = Idle" for f y
    using that mp by (auto simp: conc_step_def)
  have st: "\<exists>c'. conc_step (Step (2 * i) b) (x_conc s) = Some c'" if "x_prod s i = PPush n idx" for n idx
    using o that by (intro step_enabled) (auto simp: prod_ok_def)
  have loop: "\<exists>s'. on_ring (Step (2 * i) b) t = Some s'" if "x_prod s i = PPush n idx" "x_conc t = x_conc s" for n idx t
    using st [OF that(1)] that(2) by (auto simp: on_ring_def)
  have new: "\<exists>s'. on_ring (CallPush (2 * i) f y) t = Some s'" if "xpc s (2 * i) = Idle" "x_conc t = x_conc s" for f y t
    using call [OF that(1)] that(2) by (auto simp: on_ring_def)
  show ?thesis
  proof (cases "x_prod s i")
    case (PLoop n)
    then show ?thesis using o z new by (auto simp: spmc_feed_def mpmc_prod_def Let_def prod_ok_def)
  next
    case (PFill n idx)
    then show ?thesis using o new by (auto simp: mpmc_prod_def prod_ok_def)
  next
    case (PPush n idx)
    then show ?thesis using z loop [OF PPush] by (cases "xpc s (2 * i)") (auto simp: spmc_feed_def mpmc_prod_def)
  qed (use assms(3,4) o in \<open>simp_all add: prod_ok_def\<close>)
qed

lemma cons_running:
  assumes "prog_inv K r s" and "client_ok K r" and "x_cons s j \<noteq> CNew" "x_cons s j \<noteq> CExit"
  shows "\<exists>s'. mpmc_cons j b s = Some s'"
proof -
  let ?t = "2 * j + 1"
  have T: "threads_ok K s" "conc_reach r (x_conc s)" using assms(1) by (auto simp: prog_inv_def)
  have o: "cons_ok (x_cons s j) (xpc s ?t)" using T(1) by (simp add: threads_ok_def)
  have mc: "multi_cons (gmode (x_conc s))"
    using assms(2) conc_reach_mode [OF T(2)] by (auto simp: client_ok_def multi_cons_def split: if_splits)
  show ?thesis
  proof (cases "x_cons s j")
    case CLoop
    then show ?thesis using o mc by (auto simp: mpmc_cons_def on_ring_def conc_step_def cons_ok_def)
  next
    case CPop
    then have "\<exists>c'. conc_step (Step ?t b) (x_conc s) = Some c'" using o by (intro step_enabled) (auto simp: cons_ok_def)
    then show ?thesis using CPop by (cases "xpc s ?t") (auto simp: mpmc_cons_def on_ring_def)
  qed (use assms(3,4) in \<open>simp_all add: mpmc_cons_def Let_def\<close>)
qed

lemma never_stuck:
  assumes I: "prog_inv K r s" and ok: "client_ok K r" and m: "\<And>rc. x_main s \<noteq> MRet rc"
  shows "\<exists>e s'. prog_step K e s = Some s'"
proof -
  have P: "phase_ok K s" using I by (simp add: prog_inv_def)
  have main: ?thesis if "\<exists>s'. (if k_self K then spmc_main K False s else demo_ring_main K s) = Some s'"
    using that by (intro exI [of _ "MainStep False"]) (simp add: prog_step_def)
  show ?thesis
  proof (cases "x_main s")
    case (MMakeC j)
    then show ?thesis by (intro main) (simp add: spmc_main_def demo_ring_main_def)
  next
    case (MMakeP i)
    then show ?thesis using P by (intro main) (simp add: demo_ring_main_def phase_ok_def)
  next
    case (MJoinP i)
    have self: "\<not> k_self K" using MJoinP P by (simp add: phase_ok_def)
    show ?thesis
    proof (cases "i < k_prods K \<and> x_prod s i \<noteq> PEnd")
      case True
      then have "x_prod s i \<noteq> PNew" using P MJoinP by (auto simp: phase_ok_def)
      then show ?thesis using prod_running [OF I ok, of i False] True self
        by (intro exI [of _ "ProdStep i False"]) (simp add: prog_step_def)
    qed (use MJoinP self in \<open>intro main, auto simp: demo_ring_main_def\<close>)
  next
    case MFeed
    have self: "k_self K" "k_prods K = 1" using MFeed P ok by (auto simp: phase_ok_def client_ok_def)
    then have "x_prod s 0 \<noteq> PNew" using P MFeed by (simp add: phase_ok_def)
    then show ?thesis using prod_running [OF I ok, of 0 False] self MFeed
      by (intro main) (auto simp: spmc_main_def)
  next
    case (MJoinC j)
    show ?thesis
    proof (cases "j < k_cons K \<and> x_cons s j \<noteq> CExit")
      case True
      then have "x_cons s j \<noteq> CNew" using P MJoinC by (auto simp: phase_ok_def)
      then show ?thesis using cons_running [OF I ok, of j False] True
        by (intro exI [of _ "ConsStep j False"]) (simp add: prog_step_def spmc_consumer_def)
    qed (use MJoinC in \<open>intro main, auto simp: demo_ring_main_def spmc_main_def finish_def\<close>)
  qed (use m in \<open>(intro main, simp add: demo_ring_main_def spmc_main_def finish_def on_ring_def conc_step_def)+\<close>)
qed

text \<open>The two examples as they are written, on the rings they initialise.\<close>

lemma init_fresh:
  assumes "awp_ring_init A (Some r0) capacity mode = (0, Some r)"
  shows "fresh_ring r" and "r_mode r = mode"
proof -
  have "r_enqueue_pos r = 0 \<and> r_dequeue_pos r = 0"
    using assms by (auto simp: awp_ring_init_def ring_alloc_cells_def zero_ring_def Let_def errno_defs split: if_splits)
  then show "fresh_ring r" "r_mode r = mode" using awp_ring_init_ok [OF assms] by (simp_all add: fresh_ring_def)
qed

lemma init_Some: "snd (awp_ring_init A (Some r0) capacity mode) \<noteq> None"
  by (auto simp: awp_ring_init_def ring_alloc_cells_def Let_def)

lemma examples_ok:
  "demo_ring_start A r0 = Inr s \<Longrightarrow> \<exists>r. s = prog_init mpmc_client r \<and> client_ok mpmc_client r"
  "spmc_start A r0 = Inr s \<Longrightarrow> \<exists>r. s = prog_init spmc_client r \<and> client_ok spmc_client r"
  using init_Some [of A r0 128 AWP_RING_MPMC] init_Some [of A r0 64 AWP_RING_SPMC] init_fresh [of A r0]
  by (auto simp: demo_ring_start_def spmc_start_def client_ok_def mpmc_client_def spmc_client_def split: prod.splits if_splits)



text \<open>A run of the MPMC program with one producer, one consumer and one frame, in which the main
  thread closes the ring before the consumer has looked at it.\<close>

fun prog_run :: "client \<Rightarrow> pevent list \<Rightarrow> prog \<Rightarrow> prog option" where
  "prog_run K [] s = Some s"
| "prog_run K (e # es) s = Option.bind (prog_step K e s) (prog_run K es)"

lemma prog_run_reach: "prog_reach K r s \<Longrightarrow> prog_run K es s = Some s' \<Longrightarrow> prog_reach K r s'"
  by (induction es arbitrary: s) (auto intro: prog_reach.step split: bind_splits)

definition tiny_client :: client where
  "tiny_client = \<lparr>k_self = False, k_prods = 1, k_per = 1, k_cons = 1, k_slab = 1, k_spins = 0\<rparr>"

definition demo_schedule :: "pevent list" where
  "demo_schedule =
     replicate 4 (MainStep False) @ replicate 10 (ProdStep 0 False) @ replicate 4 (MainStep False)
     @ replicate 16 (ConsStep 0 False) @ replicate 2 (MainStep False)"

lemma demo_schedule_run:
  "\<exists>s. prog_run tiny_client demo_schedule (prog_init tiny_client mpmc_ring) = Some s \<and> x_main s = MRet 0"
  by (simp add: demo_schedule_def tiny_client_def prog_init_def prog_step_def demo_ring_main_def mpmc_prod_def mpmc_cons_def
      finish_def start_cons_def set_prod_def set_cons_def on_ring_def label_frame_def conc_exec mpmc_ring_def
      awp_ring_close_def awp_ring_wake_all_def eval_nat_numeral)


end
