(* ===== verification/Frame_Pool.thy ===== *)
theory Frame_Pool
  imports Awp_Types
begin

text \<open>
  \<open>src/frame_pool.c\<close>: the free list of frames, a stack of slab indices linked through \<open>next\<close>
  whose head carries a tag that every successful exchange increments. Every C function of
  the file is a definition here. The blocking loops alternate with the steps of other threads
  as those of theory \<open>Ring\<close> do: \<open>q_act Q t\<close> is what they did to the pool before pass \<open>t\<close>, \<open>q_cas\<close>
  tells which weak compare-and-exchange operations succeed and \<open>q_wake\<close> which thread
  \<open>pthread_cond_signal\<close> wakes. The abstract state is the list of free indices; the locale
  \<open>frame_store\<close> is the contract of such a store and is interpreted on the pool's operations.
\<close>

definition AWP_POOL_EMPTY :: u32 where "AWP_POOL_EMPTY = 0xFFFFFFFF"

definition AWP_POOL_SPIN :: nat where "AWP_POOL_SPIN = 64"

section \<open>The tagged head\<close>

definition pack_head :: "u32 \<Rightarrow> u32 \<Rightarrow> u64" where
  "pack_head idx tag = push_bit 32 (ucast tag) OR ucast idx"

definition unpack_head :: "u64 \<Rightarrow> u32 \<times> u32" where
  "unpack_head h = (ucast (h AND 0xFFFFFFFF), ucast (drop_bit 32 h))"

section \<open>Construction and teardown\<close>

text \<open>The outcome of the allocator and of the pthread initialisers is an argument.\<close>

record pool_alloc =
  b_slab :: bool
  b_next :: bool
  b_base :: nat
  b_lock_free :: bool
  b_mutex :: bool
  b_cond :: bool

definition zero_pool :: awp_frame_pool where
  "zero_pool =
     \<lparr>p_slab = [], p_base = 0, p_next = [], p_head = 0, p_size = 0, p_closed = False,
      p_lock_free_ok = False, p_waiters = 0, p_cv = []\<rparr>"

text \<open>The loop \<open>next[i] = i + 1\<close> and the terminator of the last entry.\<close>

definition init_next :: "u32 \<Rightarrow> u32 list" where
  "init_next n =
     map (\<lambda>i. if i + 1 < unat n then of_nat (i + 1) else AWP_POOL_EMPTY) [0..<unat n]"

definition awp_frame_pool_init ::
  "pool_alloc \<Rightarrow> awp_frame_pool option \<Rightarrow> u32 \<Rightarrow> int \<times> awp_frame_pool option" where
  "awp_frame_pool_init A po n =
     (case po of
        None \<Rightarrow> (- EINVAL, None)
      | Some p0 \<Rightarrow>
          if n < 1 then (- EINVAL, Some p0)
          else if \<not> b_slab A \<or> \<not> b_next A then (- ENOMEM, Some zero_pool)
          else
            let p = zero_pool\<lparr>p_slab := replicate (unat n) zero_frame, p_base := b_base A,
                      p_size := n, p_next := init_next n, p_head := pack_head 0 0,
                      p_closed := False, p_lock_free_ok := b_lock_free A\<rparr>
            in if \<not> b_mutex A then (- ENOMEM, Some (p\<lparr>p_next := [], p_slab := []\<rparr>))
               else if \<not> b_cond A then (- ENOMEM, Some (p\<lparr>p_next := [], p_slab := []\<rparr>))
               else (0, Some p))"

definition awp_frame_pool_destroy :: "awp_frame_pool option \<Rightarrow> awp_frame_pool option" where
  "awp_frame_pool_destroy po = (case po of None \<Rightarrow> None | Some p \<Rightarrow> Some zero_pool)"

definition awp_frame_pool_close :: "awp_frame_pool option \<Rightarrow> awp_frame_pool option" where
  "awp_frame_pool_close po =
     (case po of None \<Rightarrow> None | Some p \<Rightarrow> Some (p\<lparr>p_closed := True, p_cv := []\<rparr>))"

definition awp_frame_pool_reopen :: "awp_frame_pool option \<Rightarrow> awp_frame_pool option" where
  "awp_frame_pool_reopen po =
     (case po of None \<Rightarrow> None | Some p \<Rightarrow> Some (p\<lparr>p_closed := False, p_cv := []\<rparr>))"

section \<open>Acquire\<close>

record pool_env =
  q_act :: "nat \<Rightarrow> awp_frame_pool \<Rightarrow> awp_frame_pool"
  q_cas :: "nat \<Rightarrow> bool"
  q_wake :: "nat \<Rightarrow> nat"

datatype acq = Got frame_ptr | Null | Empty | Retry

definition acquire_pass :: "bool \<Rightarrow> awp_frame_pool \<Rightarrow> acq \<times> awp_frame_pool" where
  "acquire_pass cas p =
     (let (idx, tag) = unpack_head (p_head p)
      in if idx = AWP_POOL_EMPTY then (if p_closed p then (Null, p) else (Empty, p))
         else let nidx = p_next p ! unat idx; neu = pack_head nidx (tag + 1)
              in if cas
                 then (Got (FramePtr (p_base p) (unat idx)),
                       p\<lparr>p_head := neu, p_slab := (p_slab p)[unat idx := zero_frame]\<rparr>)
                 else (Retry, p))"

partial_function (option) pool_park ::
  "pool_env \<Rightarrow> nat \<Rightarrow> nat \<Rightarrow> awp_frame_pool \<Rightarrow> (nat \<times> awp_frame_pool) option" where
  "pool_park Q me t p =
     (if me \<in> set (p_cv p) then pool_park Q me (Suc t) (q_act Q t p) else Some (t, p))"

definition none_to_take :: "awp_frame_pool \<Rightarrow> bool" where
  "none_to_take p \<longleftrightarrow> \<not> p_closed p \<and> fst (unpack_head (p_head p)) = AWP_POOL_EMPTY"

partial_function (option) pool_wait ::
  "pool_env \<Rightarrow> nat \<Rightarrow> nat \<Rightarrow> awp_frame_pool \<Rightarrow> (nat \<times> awp_frame_pool) option" where
  "pool_wait Q me t p =
     (if none_to_take p
      then do { (t', p') \<leftarrow> pool_park Q me t (p\<lparr>p_cv := me # p_cv p\<rparr>); pool_wait Q me t' p' }
      else Some (t, p))"

partial_function (option) acquire_loop ::
  "pool_env \<Rightarrow> nat \<Rightarrow> nat \<Rightarrow> nat \<Rightarrow> awp_frame_pool \<Rightarrow> (frame_ptr option \<times> nat \<times> awp_frame_pool) option"
where
  "acquire_loop Q me spin t p0 =
     (case acquire_pass (q_cas Q t) (q_act Q t p0) of
        (Got f, p) \<Rightarrow> Some (Some f, Suc t, p)
      | (Null, p) \<Rightarrow> Some (None, Suc t, p)
      | (Empty, p) \<Rightarrow>
          if spin < AWP_POOL_SPIN then acquire_loop Q me (Suc spin) (Suc t) p
          else do { (t', p') \<leftarrow> pool_wait Q me (Suc t) (p\<lparr>p_waiters := p_waiters p + 1\<rparr>);
                    acquire_loop Q me 0 t' (p'\<lparr>p_waiters := p_waiters p' - 1\<rparr>) }
      | (Retry, p) \<Rightarrow> acquire_loop Q me spin (Suc t) p)"

definition awp_frame_pool_acquire ::
  "pool_env \<Rightarrow> nat \<Rightarrow> nat \<Rightarrow> awp_frame_pool option
     \<Rightarrow> (frame_ptr option \<times> nat \<times> awp_frame_pool option) option" where
  "awp_frame_pool_acquire Q me t po =
     (case po of
        None \<Rightarrow> Some (None, t, None)
      | Some p \<Rightarrow> map_option (\<lambda>(f, t, p). (f, t, Some p)) (acquire_loop Q me 0 t p))"

section \<open>Release\<close>

datatype rel = Ignored | Released | Retried

definition cond_signal :: "nat \<Rightarrow> awp_frame_pool \<Rightarrow> awp_frame_pool" where
  "cond_signal who p =
     (let k = who mod length (p_cv p) in p\<lparr>p_cv := take k (p_cv p) @ drop (Suc k) (p_cv p)\<rparr>)"

definition release_pass :: "u32 \<Rightarrow> bool \<Rightarrow> nat \<Rightarrow> awp_frame_pool \<Rightarrow> rel \<times> awp_frame_pool" where
  "release_pass idx cas who p =
     (let (hidx, tag) = unpack_head (p_head p)
      in if hidx = idx then (Ignored, p)
         else let p = p\<lparr>p_next := (p_next p)[unat idx := hidx]\<rparr>; neu = pack_head idx (tag + 1)
              in if cas
                 then let p = p\<lparr>p_head := neu\<rparr>
                      in (Released, if p_waiters p > 0 then cond_signal who p else p)
                 else (Retried, p))"

partial_function (option) release_loop ::
  "pool_env \<Rightarrow> u32 \<Rightarrow> nat \<Rightarrow> awp_frame_pool \<Rightarrow> (nat \<times> awp_frame_pool) option" where
  "release_loop Q idx t p0 =
     (case release_pass idx (q_cas Q t) (q_wake Q t) (q_act Q t p0) of
        (Ignored, p) \<Rightarrow> Some (Suc t, p)
      | (Released, p) \<Rightarrow> Some (Suc t, p)
      | (Retried, p) \<Rightarrow> release_loop Q idx (Suc t) p)"

definition awp_frame_pool_release ::
  "pool_env \<Rightarrow> nat \<Rightarrow> awp_frame_pool option \<Rightarrow> frame_ptr option
     \<Rightarrow> (nat \<times> awp_frame_pool option) option" where
  "awp_frame_pool_release Q t po fo =
     (case (po, fo) of
        (Some p, Some f) \<Rightarrow>
          if ptr_block f \<noteq> p_base p \<or> ptr_index f \<ge> unat (p_size p) then Some (t, po)
          else map_option (\<lambda>(t, p). (t, Some p)) (release_loop Q (of_nat (ptr_index f)) t p)
      | _ \<Rightarrow> Some (t, po))"


section \<open>The head round trip\<close>

lemma unpack_pack: "unpack_head (pack_head idx tag) = (idx, tag)"
proof -
  let ?h = "push_bit 32 (ucast tag) OR ucast idx :: u64"
  have m: "(0xFFFFFFFF :: u64) = mask 32" by (simp add: mask_eq_decr_exp)
  have "ucast (?h AND mask 32) = idx"
    by (rule bit_word_eqI) (auto simp: bit_simps)
  moreover have "ucast (drop_bit 32 ?h) = tag"
    by (rule bit_word_eqI) (auto simp: bit_simps dest: bit_imp_le_length)
  ultimately show ?thesis by (simp add: unpack_head_def pack_head_def m)
qed

section \<open>The free list\<close>

fun walk :: "u32 list \<Rightarrow> nat \<Rightarrow> u32 \<Rightarrow> nat list" where
  "walk nx 0 i = []"
| "walk nx (Suc n) i =
     (if i = AWP_POOL_EMPTY \<or> unat i \<ge> length nx then [] else unat i # walk nx n (nx ! unat i))"

fun chain :: "u32 list \<Rightarrow> u32 \<Rightarrow> nat list \<Rightarrow> bool" where
  "chain nx i [] \<longleftrightarrow> i = AWP_POOL_EMPTY"
| "chain nx i (x # xs) \<longleftrightarrow> i \<noteq> AWP_POOL_EMPTY \<and> unat i = x \<and> x < length nx \<and> chain nx (nx ! x) xs"

definition head_index :: "awp_frame_pool \<Rightarrow> u32" where
  "head_index p = fst (unpack_head (p_head p))"

definition free_list :: "awp_frame_pool \<Rightarrow> nat list" where
  "free_list p = walk (p_next p) (unat (p_size p)) (head_index p)"

definition pool_cap :: "awp_frame_pool \<Rightarrow> nat" where
  "pool_cap p = unat (p_size p)"

definition pool_ok :: "awp_frame_pool \<Rightarrow> bool" where
  "pool_ok p \<longleftrightarrow>
     0 < pool_cap p \<and> length (p_next p) = pool_cap p \<and> length (p_slab p) = pool_cap p
     \<and> chain (p_next p) (head_index p) (free_list p) \<and> distinct (free_list p)"

lemma walk_chain: "chain nx i xs \<Longrightarrow> length xs \<le> n \<Longrightarrow> walk nx n i = xs"
proof (induction xs arbitrary: n i)
  case Nil
  then show ?case by (cases n) auto
next
  case (Cons x xs)
  then show ?case by (cases n) auto
qed

lemma chain_bound: "chain nx i xs \<Longrightarrow> x \<in> set xs \<Longrightarrow> x < length nx"
  by (induction xs arbitrary: i) auto

lemma chain_update: "chain nx i xs \<Longrightarrow> j \<notin> set xs \<Longrightarrow> chain (nx[j := v]) i xs"
  by (induction xs arbitrary: i) auto

lemma chain_length:
  assumes "chain nx i xs" and "distinct xs"
  shows "length xs \<le> length nx"
proof -
  have "set xs \<subseteq> {..<length nx}" using chain_bound [OF assms(1)] by auto
  then have "card (set xs) \<le> length nx" using card_mono [of "{..<length nx}"] by simp
  then show ?thesis using assms(2) by (simp add: distinct_card)
qed

lemma pool_okI:
  assumes "chain (p_next p) (head_index p) xs" and "distinct xs" and "0 < pool_cap p"
    and "length (p_next p) = pool_cap p" and "length (p_slab p) = pool_cap p"
  shows "pool_ok p \<and> free_list p = xs"
proof -
  have "free_list p = xs"
    unfolding free_list_def
    by (rule walk_chain [OF assms(1)]) (use chain_length [OF assms(1,2)] assms(4) in \<open>simp add: pool_cap_def\<close>)
  then show ?thesis using assms by (simp add: pool_ok_def)
qed

lemma index_not_empty: "i < pool_cap p \<Longrightarrow> of_nat i \<noteq> AWP_POOL_EMPTY \<and> unat (of_nat i :: u32) = i"
proof -
  assume i: "i < pool_cap p"
  have "i < 2 ^ 32 - 1" using i unat_lt32 [of "p_size p"] by (simp add: pool_cap_def)
  then have u: "unat (of_nat i :: u32) = i" by (simp add: unat_of_nat take_bit_nat_eq_self)
  have "unat AWP_POOL_EMPTY = 2 ^ 32 - 1" by (simp add: AWP_POOL_EMPTY_def)
  then show ?thesis using u \<open>i < 2 ^ 32 - 1\<close> by (metis less_irrefl)
qed

section \<open>The passes on the free list\<close>

lemma acquire_pass_spec:
  assumes "pool_ok p"
  shows "case free_list p of
      [] \<Rightarrow> acquire_pass cas p = (if p_closed p then Null else Empty, p)
    | i # rest \<Rightarrow>
        if cas
        then \<exists>p'. acquire_pass cas p = (Got (FramePtr (p_base p) i), p') \<and> pool_ok p'
               \<and> free_list p' = rest \<and> p_slab p' = (p_slab p)[i := zero_frame]
               \<and> p_base p' = p_base p \<and> p_size p' = p_size p \<and> p_closed p' = p_closed p
               \<and> p_cv p' = p_cv p \<and> p_waiters p' = p_waiters p
        else acquire_pass cas p = (Retry, p)"
proof (cases "free_list p")
  case Nil
  then have "head_index p = AWP_POOL_EMPTY" using assms by (simp add: pool_ok_def)
  then show ?thesis using Nil by (auto simp: acquire_pass_def head_index_def split: prod.splits)
next
  case (Cons i rest)
  then have c: "head_index p \<noteq> AWP_POOL_EMPTY" "unat (head_index p) = i"
    "chain (p_next p) (p_next p ! i) rest" "distinct (i # rest)"
    using assms by (auto simp: pool_ok_def)
  obtain tag where u: "unpack_head (p_head p) = (head_index p, tag)"
    by (metis head_index_def prod.collapse)
  let ?p' = "p\<lparr>p_head := pack_head (p_next p ! i) (tag + 1), p_slab := (p_slab p)[i := zero_frame]\<rparr>"
  have "pool_ok ?p' \<and> free_list ?p' = rest"
    by (rule pool_okI) (use c assms in \<open>auto simp: head_index_def unpack_pack pool_ok_def pool_cap_def\<close>)
  then show ?thesis using Cons c u by (simp add: acquire_pass_def)
qed

lemma cond_signal_fields [simp]:
  "p_head (cond_signal w p) = p_head p" "p_next (cond_signal w p) = p_next p"
  "p_slab (cond_signal w p) = p_slab p" "p_size (cond_signal w p) = p_size p"
  "p_base (cond_signal w p) = p_base p" "p_closed (cond_signal w p) = p_closed p"
  "p_waiters (cond_signal w p) = p_waiters p"
  by (simp_all add: cond_signal_def Let_def)

text \<open>A retried release has already written \<open>next\<close> of its own frame, which is in no list.\<close>

lemma release_pass_spec:
  assumes "pool_ok p" and "i < pool_cap p" and "i \<notin> set (free_list p)"
  shows "\<exists>p'. release_pass (of_nat i) cas who p = (if cas then Released else Retried, p')
           \<and> pool_ok p' \<and> free_list p' = (if cas then i # free_list p else free_list p)
           \<and> p_slab p' = p_slab p \<and> p_base p' = p_base p \<and> p_size p' = p_size p"
proof -
  note i = index_not_empty [OF assms(2)]
  have ch: "chain (p_next p) (head_index p) (free_list p)" and d: "distinct (free_list p)"
    and L: "length (p_next p) = pool_cap p" "length (p_slab p) = pool_cap p" "0 < pool_cap p"
    using assms(1) by (auto simp: pool_ok_def)
  have ne: "head_index p \<noteq> of_nat i"
    using ch assms(3) i by (cases "free_list p") auto
  obtain tag where u: "unpack_head (p_head p) = (head_index p, tag)"
    by (metis head_index_def prod.collapse)
  let ?q = "p\<lparr>p_next := (p_next p)[i := head_index p]\<rparr>"
  let ?r = "?q\<lparr>p_head := pack_head (of_nat i) (tag + 1)\<rparr>"
  let ?s = "if p_waiters ?r > 0 then cond_signal who ?r else ?r"
  have q: "pool_ok ?q \<and> free_list ?q = free_list p"
    by (rule pool_okI) (use chain_update [OF ch assms(3)] d L in \<open>auto simp: head_index_def pool_cap_def\<close>)
  have "pool_ok ?s \<and> free_list ?s = i # free_list p"
    by (rule pool_okI)
      (use chain_update [OF ch assms(3)] d L i assms(2,3) in \<open>auto simp: head_index_def pool_cap_def unpack_pack\<close>)
  then show ?thesis
    using q u ne i by (cases cas) (auto simp: release_pass_def Let_def)
qed

section \<open>The contract of a frame store\<close>

text \<open>What a client of the pool relies on: it acquires a free frame and nobody else's, and a
  release makes exactly the released frame free again.\<close>

locale frame_store =
  fixes inv :: "'p \<Rightarrow> bool" and free :: "'p \<Rightarrow> nat list" and cap :: "'p \<Rightarrow> nat"
    and acquire :: "'p \<Rightarrow> (nat \<times> 'p) option" and release :: "nat \<Rightarrow> 'p \<Rightarrow> 'p"
  assumes acquire_law:
    "inv p \<Longrightarrow> (case acquire p of
        None \<Rightarrow> free p = []
      | Some (i, p') \<Rightarrow> inv p' \<and> cap p' = cap p \<and> free p = i # free p')"
    and release_law:
    "inv p \<Longrightarrow> i < cap p \<Longrightarrow> i \<notin> set (free p) \<Longrightarrow>
      inv (release i p) \<and> cap (release i p) = cap p \<and> free (release i p) = i # free p"
    and free_law: "inv p \<Longrightarrow> distinct (free p) \<and> set (free p) \<subseteq> {..<cap p}"
begin

primrec acquire_many :: "nat \<Rightarrow> 'p \<Rightarrow> (nat list \<times> 'p) option" where
  "acquire_many 0 p = Some ([], p)"
| "acquire_many (Suc n) p =
     do { (i, p1) \<leftarrow> acquire p; (is, p2) \<leftarrow> acquire_many n p1; Some (i # is, p2) }"

lemma acquire_many_free:
  "inv p \<Longrightarrow> n \<le> length (free p) \<Longrightarrow>
     \<exists>p'. acquire_many n p = Some (take n (free p), p') \<and> inv p' \<and> cap p' = cap p
       \<and> free p' = drop n (free p)"
proof (induction n arbitrary: p)
  case (Suc n)
  obtain i p1 where a: "acquire p = Some (i, p1)" "inv p1" "cap p1 = cap p" "free p = i # free p1"
    using acquire_law [OF Suc.prems(1)] Suc.prems(2) by (cases "acquire p") auto
  with Suc.IH [of p1] Suc.prems(2) show ?case by auto
qed auto

text \<open>No two frames handed out are the same, and none is still free.\<close>

lemma acquired_distinct:
  assumes "inv p" and "acquire_many n p = Some (is, p')" and "n \<le> length (free p)"
  shows "distinct is \<and> length is = n \<and> set is \<inter> set (free p') = {} \<and> set is \<subseteq> {..<cap p}"
proof -
  have e: "is = take n (free p)" "free p' = drop n (free p)"
    using acquire_many_free [OF assms(1,3)] assms(2) by auto
  have "distinct (take n (free p) @ drop n (free p))" using free_law [OF assms(1)] by simp
  then show ?thesis using e assms(3) free_law [OF assms(1)]
    by (simp only: distinct_append) (auto dest: in_set_takeD)
qed

text \<open>Releasing what was acquired, last first, restores the free list.\<close>

lemma release_all:
  assumes "inv p" and "acquire_many n p = Some (is, p')" and "n \<le> length (free p)"
  shows "inv (foldr release is p') \<and> free (foldr release is p') = free p"
proof -
  have e: "is = take n (free p)" "free p' = drop n (free p)" "inv p'" "cap p' = cap p"
    using acquire_many_free [OF assms(1,3)] assms(2) by auto
  have "inv (foldr release js p') \<and> free (foldr release js p') = js @ free p' \<and> cap (foldr release js p') = cap p'"
    if "distinct (js @ free p')" "set js \<subseteq> {..<cap p'}" for js
    using that
  proof (induction js)
    case (Cons j js)
    then have "inv (foldr release js p') \<and> free (foldr release js p') = js @ free p'
        \<and> cap (foldr release js p') = cap p'" by simp
    with Cons.prems release_law [of "foldr release js p'" j] show ?case by auto
  qed (use e in simp)
  from this [of "is"] show ?thesis using e free_law [OF assms(1)]
    by (metis append_take_drop_id set_take_subset subset_trans)
qed

end

definition acquire_now :: "awp_frame_pool \<Rightarrow> (nat \<times> awp_frame_pool) option" where
  "acquire_now p = (case acquire_pass True p of (Got f, p') \<Rightarrow> Some (ptr_index f, p') | _ \<Rightarrow> None)"

definition release_now :: "nat \<Rightarrow> awp_frame_pool \<Rightarrow> awp_frame_pool" where
  "release_now i p = snd (release_pass (of_nat i) True 0 p)"

interpretation fp: frame_store pool_ok free_list pool_cap acquire_now release_now
proof unfold_locales
  fix p i assume ok: "pool_ok p"
  show "case acquire_now p of None \<Rightarrow> free_list p = []
      | Some (i, p') \<Rightarrow> pool_ok p' \<and> pool_cap p' = pool_cap p \<and> free_list p = i # free_list p'"
    using acquire_pass_spec [OF ok, of True]
    by (cases "free_list p") (auto simp: acquire_now_def pool_cap_def)
  show "distinct (free_list p) \<and> set (free_list p) \<subseteq> {..<pool_cap p}"
    using ok chain_bound by (auto simp: pool_ok_def) (metis chain_bound)
  show "pool_ok (release_now i p) \<and> pool_cap (release_now i p) = pool_cap p
      \<and> free_list (release_now i p) = i # free_list p" if "i < pool_cap p" "i \<notin> set (free_list p)"
    using release_pass_spec [OF ok that, of True 0] by (auto simp: release_now_def pool_cap_def)
qed

section \<open>The loops under interference\<close>

lemma pool_ok_wait [simp]:
  "pool_ok (p\<lparr>p_cv := v\<rparr>) = pool_ok p" "pool_ok (p\<lparr>p_waiters := w\<rparr>) = pool_ok p"
  "free_list (p\<lparr>p_cv := v\<rparr>) = free_list p" "free_list (p\<lparr>p_waiters := w\<rparr>) = free_list p"
  by (simp_all add: pool_ok_def free_list_def head_index_def pool_cap_def)

lemma pool_park_inv:
  assumes "pool_park Q me t p = Some y" and "\<And>t p. I p \<Longrightarrow> I (q_act Q t p)" and "I p"
  shows "I (snd y)"
proof -
  let ?R = "\<lambda>Q. \<forall>t p. I p \<longrightarrow> I (q_act Q t p)"
  have "?R Q \<longrightarrow> I p \<longrightarrow> I (snd y)"
  proof (rule pool_park.raw_induct [where P = "\<lambda>Q me t p y. ?R Q \<longrightarrow> I p \<longrightarrow> I (snd y)", OF _ assms(1)])
    fix loop Q me t p and y :: "nat \<times> awp_frame_pool"
    assume IH: "\<And>Q me t p y. loop Q me t p = Some y \<Longrightarrow> ?R Q \<longrightarrow> I p \<longrightarrow> I (snd y)"
      and eq: "(if me \<in> set (p_cv p) then loop Q me (Suc t) (q_act Q t p) else Some (t, p)) = Some y"
    show "?R Q \<longrightarrow> I p \<longrightarrow> I (snd y)"
      using IH [of Q me "Suc t" "q_act Q t p" y] eq by (auto split: if_splits)
  qed
  with assms(2,3) show ?thesis by blast
qed

lemma pool_wait_inv:
  assumes "pool_wait Q me t p = Some y" and "\<And>t p. I p \<Longrightarrow> I (q_act Q t p)"
    and "\<And>p v. I p \<Longrightarrow> I (p\<lparr>p_cv := v\<rparr>)" and "I p"
  shows "I (snd y)"
proof -
  let ?R = "\<lambda>Q. \<forall>t p. I p \<longrightarrow> I (q_act Q t p)"
  have "?R Q \<longrightarrow> I p \<longrightarrow> I (snd y)"
  proof (rule pool_wait.raw_induct [where P = "\<lambda>Q me t p y. ?R Q \<longrightarrow> I p \<longrightarrow> I (snd y)", OF _ assms(1)])
    fix loop Q me t p and y :: "nat \<times> awp_frame_pool"
    assume IH: "\<And>Q me t p y. loop Q me t p = Some y \<Longrightarrow> ?R Q \<longrightarrow> I p \<longrightarrow> I (snd y)"
      and eq: "(if none_to_take p
        then do { (t', p') \<leftarrow> pool_park Q me t (p\<lparr>p_cv := me # p_cv p\<rparr>); loop Q me t' p' }
        else Some (t, p)) = Some y"
    show "?R Q \<longrightarrow> I p \<longrightarrow> I (snd y)"
    proof (intro impI)
      assume R: "?R Q" and p: "I p"
      show "I (snd y)"
      proof (cases "none_to_take p")
        case True
        then obtain t1 p1 where k: "pool_park Q me t (p\<lparr>p_cv := me # p_cv p\<rparr>) = Some (t1, p1)"
          and l: "loop Q me t1 p1 = Some y"
          using eq by (auto simp: bind_eq_Some_conv)
        have "I (snd (t1, p1))" by (rule pool_park_inv [OF k]) (use R assms(3) p in auto)
        then have "I p1" by simp
        then show ?thesis using IH [OF l] R by blast
      qed (use eq p in auto)
    qed
  qed
  with assms(2,4) show ?thesis by blast
qed

text \<open>How a completed acquire relates to the pool at the moment of its last pass.\<close>

definition acquired :: "frame_ptr option \<Rightarrow> awp_frame_pool \<Rightarrow> awp_frame_pool \<Rightarrow> bool" where
  "acquired fo q p' \<longleftrightarrow> pool_ok q \<and> pool_ok p' \<and>
     (case fo of
        None \<Rightarrow> p_closed q \<and> free_list q = [] \<and> p' = q
      | Some f \<Rightarrow> f = FramePtr (p_base q) (hd (free_list q)) \<and> free_list q = ptr_index f # free_list p'
          \<and> p_slab p' = (p_slab q)[ptr_index f := zero_frame])"

lemma acquire_loop_result:
  assumes "acquire_loop Q me spin t p = Some (fo, t', p')"
    and "\<And>t p. pool_ok p \<Longrightarrow> pool_ok (q_act Q t p)" and "pool_ok p"
  shows "\<exists>q. acquired fo q p'"
proof -
  let ?R = "\<lambda>Q. \<forall>t p. pool_ok p \<longrightarrow> pool_ok (q_act Q t p)"
  let ?C = "\<lambda>y. \<exists>q. acquired (fst y) q (snd (snd y))"
  have "?R Q \<longrightarrow> pool_ok p \<longrightarrow> ?C (fo, t', p')"
  proof (rule acquire_loop.raw_induct
      [where P = "\<lambda>Q me spin t p y. ?R Q \<longrightarrow> pool_ok p \<longrightarrow> ?C y", OF _ assms(1)])
    fix loop Q me spin t p and y :: "frame_ptr option \<times> nat \<times> awp_frame_pool"
    assume IH: "\<And>Q me spin t p y. loop Q me spin t p = Some y \<Longrightarrow> ?R Q \<longrightarrow> pool_ok p \<longrightarrow> ?C y"
      and eq: "(case acquire_pass (q_cas Q t) (q_act Q t p) of
        (Got f, p) \<Rightarrow> Some (Some f, Suc t, p)
      | (Null, p) \<Rightarrow> Some (None, Suc t, p)
      | (Empty, p) \<Rightarrow>
          if spin < AWP_POOL_SPIN then loop Q me (Suc spin) (Suc t) p
          else do { (t', p') \<leftarrow> pool_wait Q me (Suc t) (p\<lparr>p_waiters := p_waiters p + 1\<rparr>);
                    loop Q me 0 t' (p'\<lparr>p_waiters := p_waiters p' - 1\<rparr>) }
      | (Retry, p) \<Rightarrow> loop Q me spin (Suc t) p) = Some y"
    show "?R Q \<longrightarrow> pool_ok p \<longrightarrow> ?C y"
    proof (intro impI)
      assume R: "?R Q" and p: "pool_ok p"
      define q where "q = q_act Q t p"
      have q: "pool_ok q" using R p by (simp add: q_def)
      note sp = acquire_pass_spec [OF q, of "q_cas Q t"]
      show "?C y"
      proof (cases "fst (acquire_pass (q_cas Q t) q)")
        case (Got f)
        then obtain p1 where a: "acquire_pass (q_cas Q t) q = (Got f, p1)" by (metis prod.collapse)
        then have "acquired (Some f) q p1"
          using sp q by (cases "free_list q") (auto simp: acquired_def split: if_splits)
        then show ?thesis using eq a by (auto simp: q_def [symmetric])
      next
        case Null
        then have a: "acquire_pass (q_cas Q t) q = (Null, q)" and "p_closed q \<and> free_list q = []"
          using sp by (cases "free_list q"; auto split: if_splits)+
        then have "acquired None q q" using q by (simp add: acquired_def)
        then show ?thesis using eq a by (auto simp: q_def [symmetric])
      next
        case Empty
        then have a: "acquire_pass (q_cas Q t) q = (Empty, q)"
          using sp by (cases "free_list q"; auto split: if_splits)
        show ?thesis
        proof (cases "spin < AWP_POOL_SPIN")
          case True
          then show ?thesis using IH [of Q me "Suc spin" "Suc t" q y] eq a R q by (simp add: q_def [symmetric])
        next
          case False
          then obtain t1 p1 where w: "pool_wait Q me (Suc t) (q\<lparr>p_waiters := p_waiters q + 1\<rparr>) = Some (t1, p1)"
            and l: "loop Q me 0 t1 (p1\<lparr>p_waiters := p_waiters p1 - 1\<rparr>) = Some y"
            using eq a by (auto simp: q_def [symmetric] bind_eq_Some_conv)
          have "pool_ok p1" using pool_wait_inv [OF w, of pool_ok] R q by simp
          then show ?thesis using IH [OF l] R by simp
        qed
      next
        case Retry
        then have a: "acquire_pass (q_cas Q t) q = (Retry, q)"
          using sp by (cases "free_list q"; auto split: if_splits)
        then show ?thesis using IH [of Q me spin "Suc t" q y] eq R q by (simp add: q_def [symmetric])
      qed
    qed
  qed
  with assms(2,3) show ?thesis by simp
qed

text \<open>A release of a frame that is not free ends as soon as an exchange succeeds.\<close>

lemma release_loop_returns:
  assumes "pool_ok p" "i < pool_cap p" "i \<notin> set (free_list p)" and "t \<le> n" "q_cas Q n"
    and rely: "\<And>t p. pool_ok p \<and> i < pool_cap p \<and> i \<notin> set (free_list p) \<Longrightarrow>
      pool_ok (q_act Q t p) \<and> i < pool_cap (q_act Q t p) \<and> i \<notin> set (free_list (q_act Q t p))"
  shows "\<exists>t' p' q. release_loop Q (of_nat i) t p = Some (t', p') \<and> pool_ok q \<and> pool_ok p'
           \<and> free_list p' = i # free_list q"
  using assms(1-4)
proof (induction "n - t" arbitrary: t p)
  case (0 t p)
  let ?q = "q_act Q t p"
  have q: "pool_ok ?q" "i < pool_cap ?q" "i \<notin> set (free_list ?q)" using rely [of p t] 0 by auto
  have "t = n" using 0 by simp
  then obtain p' where "release_pass (of_nat i) (q_cas Q t) (q_wake Q t) ?q = (Released, p')"
    "pool_ok p'" "free_list p' = i # free_list ?q"
    using release_pass_spec [OF q, of True "q_wake Q t"] assms(5) by auto
  then show ?case using q by (auto simp: release_loop.simps [of Q "of_nat i" t p])
next
  case (Suc k t p)
  let ?q = "q_act Q t p"
  have q: "pool_ok ?q" "i < pool_cap ?q" "i \<notin> set (free_list ?q)" using rely [of p t] Suc.prems by auto
  from release_pass_spec [OF q, of "q_cas Q t" "q_wake Q t"] obtain p' where
    r: "release_pass (of_nat i) (q_cas Q t) (q_wake Q t) ?q = (if q_cas Q t then Released else Retried, p')"
      "pool_ok p'" "free_list p' = (if q_cas Q t then i # free_list ?q else free_list ?q)"
      "p_size p' = p_size ?q" by blast
  show ?case
  proof (cases "q_cas Q t")
    case True
    then show ?thesis using r q by (auto simp: release_loop.simps [of Q "of_nat i" t p])
  next
    case False
    have "\<exists>t' p'' q. release_loop Q (of_nat i) (Suc t) p' = Some (t', p'') \<and> pool_ok q \<and> pool_ok p''
        \<and> free_list p'' = i # free_list q"
      by (rule Suc.hyps(1)) (use Suc.hyps(2) Suc.prems(4) r q False in \<open>auto simp: pool_cap_def\<close>)
    then show ?thesis using r False by (auto simp: release_loop.simps [of Q "of_nat i" t p])
  qed
qed

section \<open>Properties\<close>

text \<open>A pool of three frames as \<open>awp_frame_pool_init\<close> builds it.\<close>

definition demo_pool_alloc :: pool_alloc where
  "demo_pool_alloc =
     \<lparr>b_slab = True, b_next = True, b_base = 5, b_lock_free = True, b_mutex = True, b_cond = True\<rparr>"

definition demo_frame_pool :: awp_frame_pool where
  "demo_frame_pool = the (snd (awp_frame_pool_init demo_pool_alloc (Some zero_pool) 3))"

definition alone :: pool_env where
  "alone = \<lparr>q_act = (\<lambda>_ p. p), q_cas = (\<lambda>_. True), q_wake = (\<lambda>_. 0)\<rparr>"

lemma init_next_chain:
  assumes "0 < unat n"
  shows "k < unat n \<Longrightarrow> chain (init_next n) (of_nat k) [k..<unat n]"
proof (induction "unat n - k" arbitrary: k)
  case (Suc m)
  have lt: "unat n < 2 ^ 32" by (rule unat_lt32)
  have u: "unat (of_nat k :: u32) = k" using Suc.prems lt by (simp add: unat_of_nat take_bit_nat_eq_self)
  have "unat AWP_POOL_EMPTY = 2 ^ 32 - 1" by (simp add: AWP_POOL_EMPTY_def)
  moreover have "k \<noteq> 2 ^ 32 - 1" using Suc.prems lt by simp
  ultimately have e: "(of_nat k :: u32) \<noteq> AWP_POOL_EMPTY" using u by metis
  show ?case
  proof (cases "k + 1 < unat n")
    case True
    then have "chain (init_next n) (of_nat (Suc k)) [Suc k..<unat n]" by (intro Suc.hyps(1)) (use Suc.hyps(2) in auto)
    then show ?thesis using True u e Suc.prems by (simp add: init_next_def upt_conv_Cons [of k])
  next
    case False
    then have "[k..<unat n] = [k]" using Suc.prems by (simp add: upt_conv_Cons)
    then show ?thesis using False u e Suc.prems by (simp add: init_next_def)
  qed
qed simp

lemma init_pool_ok:
  assumes "awp_frame_pool_init A (Some p0) n = (0, Some p)"
  shows "pool_ok p \<and> free_list p = [0..<unat n] \<and> pool_cap p = unat n \<and> p_slab p = replicate (unat n) zero_frame
    \<and> \<not> p_closed p"
proof -
  have n: "0 < unat n" and p: "p = zero_pool\<lparr>p_slab := replicate (unat n) zero_frame, p_base := b_base A,
      p_size := n, p_next := init_next n, p_head := pack_head 0 0,
      p_closed := False, p_lock_free_ok := b_lock_free A\<rparr>"
    using assms by (auto simp: awp_frame_pool_init_def errno_defs Let_def unat_gt_0 split: if_splits)
  have "pool_ok p \<and> free_list p = [0..<unat n]"
    by (rule pool_okI)
      (use n init_next_chain [OF n n] init_next_chain [OF n, of 0] in
        \<open>auto simp: p pool_cap_def head_index_def unpack_pack init_next_def [of n]\<close>)
  then show ?thesis by (simp add: p pool_cap_def zero_pool_def)
qed

lemma demo_frame_pool_init:
  "awp_frame_pool_init demo_pool_alloc (Some zero_pool) 3 = (0, Some demo_frame_pool)"
  by (simp add: awp_frame_pool_init_def demo_frame_pool_def demo_pool_alloc_def)

lemmas demo_frame_pool_ok = init_pool_ok [OF demo_frame_pool_init]

text \<open>The tagged head is faithful: packing and unpacking a free-list head lose neither the
  index nor the tag, in either direction.\<close>

theorem head_round_trip:
  "unpack_head (pack_head idx tag) = (idx, tag)
     \<and> pack_head (fst (unpack_head h)) (snd (unpack_head h)) = h"
proof -
  have m: "(0xFFFFFFFF :: u64) = mask 32" by (simp add: mask_eq_decr_exp)
  have "push_bit 32 (ucast (ucast (drop_bit 32 h) :: u32)) OR ucast (ucast (h AND mask 32) :: u32) = h"
    by (rule bit_word_eqI) (auto simp: bit_simps)
  then show ?thesis by (simp add: unpack_pack) (simp add: unpack_head_def pack_head_def m)
qed

text \<open>Pool construction: \<open>awp_frame_pool_init\<close> succeeds exactly for a positive size with every
  allocation and initialiser successful; the pool is then well formed and open, every frame is
  zeroed and every index is free, in slab order.\<close>

theorem awp_frame_pool_init_spec:
  "case awp_frame_pool_init A (Some p0) n of
     (rc, po) \<Rightarrow>
       (rc = 0 \<longleftrightarrow> n \<noteq> 0 \<and> b_slab A \<and> b_next A \<and> b_mutex A \<and> b_cond A)
       \<and> (rc = 0 \<longrightarrow> (\<exists>p. po = Some p \<and> pool_ok p \<and> \<not> p_closed p \<and> free_list p = [0..<unat n]
             \<and> p_slab p = replicate (unat n) zero_frame))"
proof (cases "n \<noteq> 0 \<and> b_slab A \<and> b_next A \<and> b_mutex A \<and> b_cond A")
  case True
  then have "n \<ge> 1" by (metis inc_le word_neq_0_conv add.left_neutral)
  then obtain p where "awp_frame_pool_init A (Some p0) n = (0, Some p)"
    using True by (auto simp: awp_frame_pool_init_def not_less)
  then show ?thesis using True init_pool_ok by auto
next
  case False
  then show ?thesis by (auto simp: awp_frame_pool_init_def errno_defs Let_def)
qed

theorem awp_frame_pool_init_spec_witness:
  "case awp_frame_pool_init demo_pool_alloc (Some zero_pool) 3 of
     (rc, po) \<Rightarrow> rc = 0 \<and> (\<exists>p. po = Some p \<and> free_list p = [0, 1, 2])"
  using awp_frame_pool_init_spec [where A = demo_pool_alloc and n = 3 and ?p0.0 = zero_pool]
  by (auto simp: demo_pool_alloc_def upt_rec split: prod.splits)

text \<open>No aliasing and no leak: as many acquires as frames are free hand out distinct frames,
  none of them still free, and releasing them last first restores the free list.\<close>

theorem awp_frame_pool_no_alias:
  assumes "pool_ok p" and "n \<le> length (free_list p)"
  shows "\<exists>is p'. fp.acquire_many n p = Some (is, p') \<and> distinct is \<and> length is = n
    \<and> set is \<inter> set (free_list p') = {} \<and> set is \<subseteq> {..<pool_cap p}
    \<and> pool_ok (foldr release_now is p') \<and> free_list (foldr release_now is p') = free_list p"
proof -
  obtain p' where a: "fp.acquire_many n p = Some (take n (free_list p), p')"
    using fp.acquire_many_free [OF assms] by blast
  from fp.acquired_distinct [OF assms(1) a assms(2)] fp.release_all [OF assms(1) a assms(2)] a
  show ?thesis by blast
qed

theorem awp_frame_pool_no_alias_witness:
  "\<exists>is p'. fp.acquire_many 3 demo_frame_pool = Some (is, p') \<and> distinct is \<and> length is = 3
    \<and> free_list (foldr release_now is p') = [0, 1, 2]"
  using awp_frame_pool_no_alias [of demo_frame_pool 3] demo_frame_pool_ok by (auto simp: upt_rec)

text \<open>A blocking acquire under interference: whatever the other threads do, as long as they
  keep the pool well formed, an acquire that returns a frame returns the head of the free list
  at its last pass, zeroed, and removes it; it returns \<open>NULL\<close> only on a closed, exhausted pool.\<close>

theorem awp_frame_pool_acquire_result:
  assumes "awp_frame_pool_acquire Q me t (Some p) = Some (fo, t', Some p')" and "pool_ok p"
    and "\<forall>t p. pool_ok p \<longrightarrow> pool_ok (q_act Q t p)"
  shows "\<exists>q. pool_ok q \<and> pool_ok p' \<and>
     (case fo of
        None \<Rightarrow> p_closed q \<and> free_list q = [] \<and> p' = q
      | Some f \<Rightarrow> f = FramePtr (p_base q) (hd (free_list q)) \<and> free_list q = ptr_index f # free_list p'
          \<and> p_slab p' = (p_slab q)[ptr_index f := zero_frame])"
proof -
  have "acquire_loop Q me 0 t p = Some (fo, t', p')"
    using assms(1) by (auto simp: awp_frame_pool_acquire_def)
  from acquire_loop_result [OF this] assms(2,3) show ?thesis by (auto simp: acquired_def)
qed

lemma demo_take:
  "\<exists>p1. acquire_pass True demo_frame_pool = (Got (FramePtr (p_base demo_frame_pool) 0), p1)
     \<and> pool_ok p1 \<and> free_list p1 = [1, 2] \<and> pool_cap p1 = 3"
proof -
  have "free_list demo_frame_pool = [0, 1, 2]" using demo_frame_pool_ok by (simp add: upt_rec)
  moreover have "pool_cap demo_frame_pool = 3" "pool_ok demo_frame_pool"
    using demo_frame_pool_ok by simp_all
  ultimately show ?thesis
    using acquire_pass_spec [of demo_frame_pool True] by (auto simp: pool_cap_def)
qed

lemma demo_acquire:
  "\<exists>t' p'. awp_frame_pool_acquire alone 1 0 (Some demo_frame_pool)
     = Some (Some (FramePtr (p_base demo_frame_pool) 0), t', Some p')"
  using demo_take by (auto simp: awp_frame_pool_acquire_def acquire_loop.simps alone_def)

theorem awp_frame_pool_acquire_result_witness:
  "\<exists>q p' t'. awp_frame_pool_acquire alone 1 0 (Some demo_frame_pool)
       = Some (Some (FramePtr (p_base demo_frame_pool) 0), t', Some p')
     \<and> pool_ok q \<and> free_list q = 0 # free_list p'"
proof -
  obtain t' p' where a: "awp_frame_pool_acquire alone 1 0 (Some demo_frame_pool)
     = Some (Some (FramePtr (p_base demo_frame_pool) 0), t', Some p')"
    using demo_acquire by blast
  from awp_frame_pool_acquire_result [OF a] demo_frame_pool_ok a show ?thesis by (auto simp: alone_def)
qed

text \<open>Release: a frame of the slab that is not free goes to the head of the free list, and the
  call ends as soon as one of its exchanges succeeds, whatever the other threads do to the rest
  of the pool meanwhile.\<close>

theorem awp_frame_pool_release_returns:
  assumes "pool_ok p" and "ptr_block f = p_base p" and "ptr_index f < pool_cap p"
    and "ptr_index f \<notin> set (free_list p)" and "t \<le> n" and "q_cas Q n"
    and "\<forall>t p. pool_ok p \<and> ptr_index f < pool_cap p \<and> ptr_index f \<notin> set (free_list p) \<longrightarrow>
      pool_ok (q_act Q t p) \<and> ptr_index f < pool_cap (q_act Q t p)
      \<and> ptr_index f \<notin> set (free_list (q_act Q t p))"
  shows "\<exists>t' p' q. awp_frame_pool_release Q t (Some p) (Some f) = Some (t', Some p')
     \<and> pool_ok q \<and> pool_ok p' \<and> free_list p' = ptr_index f # free_list q"
proof -
  obtain t' p' q where "release_loop Q (of_nat (ptr_index f)) t p = Some (t', p')" "pool_ok q"
    "pool_ok p'" "free_list p' = ptr_index f # free_list q"
    using release_loop_returns [OF assms(1,3,4,5,6)] assms(7) by blast
  then show ?thesis using assms(2,3) by (auto simp: awp_frame_pool_release_def pool_cap_def)
qed

theorem awp_frame_pool_release_returns_witness:
  "\<exists>p1. pool_ok p1 \<and> (\<exists>t' p' q. awp_frame_pool_release alone 0 (Some p1) (Some (FramePtr (p_base p1) 0))
       = Some (t', Some p') \<and> pool_ok q \<and> free_list p' = 0 # free_list q)"
proof -
  obtain p1 where p1: "pool_ok p1" "free_list p1 = [1, 2]" "pool_cap p1 = 3" using demo_take by auto
  with awp_frame_pool_release_returns [of p1 "FramePtr (p_base p1) 0" 0 0 alone] p1
  show ?thesis by (intro exI [of _ p1]) (auto simp: alone_def)
qed

end
