(* ===== verification/Frame_Conc.thy ===== *)
theory Frame_Conc
  imports Frame_Pool
begin

text \<open>
  The free list of \<open>src/frame_pool.c\<close> as a concurrent system: any number of threads in
  \<open>awp_frame_pool_acquire\<close> and \<open>awp_frame_pool_release\<close>, one step per access to shared memory,
  interleaved in any order. Memory is sequentially consistent. Spinning, parking and the signal
  after a release change neither the head nor a link, so a thread that finds the list empty and
  the pool open goes back to the head of its loop.

  The state keeps what the code does not have: the frames that callers have got and not yet given
  back, the number of successful exchanges, for each thread that number at its last load of
  the head, and the history of takes and puts. The tag of the head is the number of exchanges
  modulo \<open>2 ^ 32\<close>, so the machine excludes executions in which a thread is overtaken by \<open>2 ^ 32\<close>
  exchanges between its load and its exchange, which is the limit of the tag that \<open>awp.h\<close> states.
\<close>

section \<open>The machine\<close>

text \<open>Program counters, named after the access they are about to make.\<close>

datatype fpc =
    FIdle
  | AcqHead
  | AcqClosed
  | AcqNext u64
  | AcqCas u64 u32
  | AcqClear u32
  | RelHead u32
  | RelNext u32 u64
  | RelCas u32 u64
  | FDone "frame_ptr option"

datatype fop = Take nat | Put nat

record fconc =
  f_pool :: awp_frame_pool
  f_pc :: "nat \<Rightarrow> fpc"
  f_out :: "nat set"
  f_xchg :: nat
  f_at :: "nat \<Rightarrow> nat"
  f_ops :: "fop list"

fun is_acq :: "fpc \<Rightarrow> bool" where
  "is_acq AcqHead = True"
| "is_acq AcqClosed = True"
| "is_acq (AcqNext _) = True"
| "is_acq (AcqCas _ _) = True"
| "is_acq (AcqClear _) = True"
| "is_acq _ = False"

definition fgoto :: "nat \<Rightarrow> fpc \<Rightarrow> fconc \<Rightarrow> fconc" where
  "fgoto t c s = s\<lparr>f_pc := (f_pc s)(t := c)\<rparr>"

text \<open>One access of thread \<open>t\<close>; \<open>spurious\<close> makes a weak compare-and-exchange fail.\<close>

definition acquire_step :: "bool \<Rightarrow> nat \<Rightarrow> fconc \<Rightarrow> fconc" where
  "acquire_step spurious t s =
     (let p = f_pool s
      in case f_pc s t of
           AcqHead \<Rightarrow>
             fgoto t (if fst (unpack_head (p_head p)) = AWP_POOL_EMPTY then AcqClosed else AcqNext (p_head p))
               (s\<lparr>f_at := (f_at s)(t := f_xchg s)\<rparr>)
         | AcqClosed \<Rightarrow> fgoto t (if p_closed p then FDone None else AcqHead) s
         | AcqNext head \<Rightarrow> fgoto t (AcqCas head (p_next p ! unat (fst (unpack_head head)))) s
         | AcqCas head nidx \<Rightarrow>
             let (idx, tag) = unpack_head head
             in if p_head p = head \<and> \<not> spurious
                then fgoto t (AcqClear idx)
                       (s\<lparr>f_pool := p\<lparr>p_head := pack_head nidx (tag + 1)\<rparr>, f_xchg := Suc (f_xchg s),
                          f_ops := f_ops s @ [Take (unat idx)]\<rparr>)
                else fgoto t AcqHead s
         | AcqClear idx \<Rightarrow>
             fgoto t (FDone (Some (FramePtr (p_base p) (unat idx))))
               (s\<lparr>f_pool := p\<lparr>p_slab := (p_slab p)[unat idx := zero_frame]\<rparr>,
                  f_out := insert (unat idx) (f_out s)\<rparr>)
         | _ \<Rightarrow> s)"

definition release_step :: "bool \<Rightarrow> nat \<Rightarrow> fconc \<Rightarrow> fconc" where
  "release_step spurious t s =
     (let p = f_pool s
      in case f_pc s t of
           RelHead idx \<Rightarrow>
             fgoto t (if fst (unpack_head (p_head p)) = idx then FDone None else RelNext idx (p_head p))
               (s\<lparr>f_at := (f_at s)(t := f_xchg s)\<rparr>)
         | RelNext idx head \<Rightarrow>
             fgoto t (RelCas idx head)
               (s\<lparr>f_pool := p\<lparr>p_next := (p_next p)[unat idx := fst (unpack_head head)]\<rparr>\<rparr>)
         | RelCas idx head \<Rightarrow>
             if p_head p = head \<and> \<not> spurious
             then fgoto t (FDone None)
                    (s\<lparr>f_pool := p\<lparr>p_head := pack_head idx (snd (unpack_head head) + 1)\<rparr>,
                       f_xchg := Suc (f_xchg s), f_ops := f_ops s @ [Put (unat idx)]\<rparr>)
             else fgoto t (RelHead idx) s
         | _ \<Rightarrow> s)"

text \<open>A caller gives back a frame that some caller got and nobody gave back yet; the argument
  check of \<open>awp_frame_pool_release\<close> passes for such a frame.\<close>

datatype fevent = CallAcquire nat | CallRelease nat nat | FStep nat bool | FClose | FReopen

definition fconc_step :: "fevent \<Rightarrow> fconc \<Rightarrow> fconc option" where
  "fconc_step e s =
     (case e of
        CallAcquire t \<Rightarrow> if f_pc s t = FIdle then Some (fgoto t AcqHead s) else None
      | CallRelease t i \<Rightarrow>
          if f_pc s t = FIdle \<and> i \<in> f_out s
          then Some (fgoto t (RelHead (of_nat i)) (s\<lparr>f_out := f_out s - {i}\<rparr>)) else None
      | FStep t spurious \<Rightarrow>
          (case f_pc s t of
             FIdle \<Rightarrow> None
           | FDone _ \<Rightarrow> Some (fgoto t FIdle s)
           | c \<Rightarrow> Some (if is_acq c then acquire_step spurious t s else release_step spurious t s))
      | FClose \<Rightarrow> map_option (\<lambda>p. s\<lparr>f_pool := p\<rparr>) (awp_frame_pool_close (Some (f_pool s)))
      | FReopen \<Rightarrow> map_option (\<lambda>p. s\<lparr>f_pool := p\<rparr>) (awp_frame_pool_reopen (Some (f_pool s))))"

definition fconc_init :: "awp_frame_pool \<Rightarrow> fconc" where
  "fconc_init p = \<lparr>f_pool = p, f_pc = (\<lambda>_. FIdle), f_out = {}, f_xchg = 0, f_at = (\<lambda>_. 0), f_ops = []\<rparr>"

text \<open>The head a thread compares with, and the frame it alone holds.\<close>

fun snapshot :: "fpc \<Rightarrow> u64 option" where
  "snapshot (AcqNext h) = Some h"
| "snapshot (AcqCas h _) = Some h"
| "snapshot (RelNext _ h) = Some h"
| "snapshot (RelCas _ h) = Some h"
| "snapshot _ = None"

fun in_hand :: "fpc \<Rightarrow> nat option" where
  "in_hand (AcqClear i) = Some (unat i)"
| "in_hand (RelHead i) = Some (unat i)"
| "in_hand (RelNext i _) = Some (unat i)"
| "in_hand (RelCas i _) = Some (unat i)"
| "in_hand _ = None"

definition not_overtaken :: "fconc \<Rightarrow> bool" where
  "not_overtaken s \<longleftrightarrow> (\<forall>t. snapshot (f_pc s t) \<noteq> None \<longrightarrow> f_xchg s < f_at s t + 2 ^ 32)"

inductive fconc_reach :: "awp_frame_pool \<Rightarrow> fconc \<Rightarrow> bool" for p0 where
  start: "fconc_reach p0 (fconc_init p0)"
| step: "fconc_reach p0 s \<Longrightarrow> fconc_step e s = Some s' \<Longrightarrow> not_overtaken s' \<Longrightarrow> fconc_reach p0 s'"

section \<open>The invariant\<close>

definition hands :: "(nat \<Rightarrow> fpc) \<Rightarrow> nat set" where
  "hands pc = {i. \<exists>t. in_hand (pc t) = Some i}"

definition one_holder :: "(nat \<Rightarrow> fpc) \<Rightarrow> bool" where
  "one_holder pc \<longleftrightarrow> (\<forall>t u i. in_hand (pc t) = Some i \<and> in_hand (pc u) = Some i \<longrightarrow> t = u)"

definition owners_ok :: "awp_frame_pool \<Rightarrow> (nat \<Rightarrow> fpc) \<Rightarrow> nat set \<Rightarrow> bool" where
  "owners_ok p pc out \<longleftrightarrow>
     set (free_list p) \<inter> out = {} \<and> hands pc \<inter> out = {} \<and> hands pc \<inter> set (free_list p) = {} \<and> one_holder pc
     \<and> set (free_list p) \<union> out \<union> hands pc = {..<pool_cap p}"

lemma hands_upd:
  assumes "one_holder pc"
  shows "hands (pc(t := c)) = (hands pc - set_option (in_hand (pc t))) \<union> set_option (in_hand c)"
proof -
  have "x \<in> hands (pc(t := c)) \<longleftrightarrow> in_hand c = Some x \<or> (\<exists>u. u \<noteq> t \<and> in_hand (pc u) = Some x)" for x
    by (auto simp: hands_def split: if_splits)
  moreover have "(\<exists>u. u \<noteq> t \<and> in_hand (pc u) = Some x) \<longleftrightarrow> x \<in> hands pc \<and> in_hand (pc t) \<noteq> Some x" for x
    using assms by (auto simp: hands_def one_holder_def)
  ultimately show ?thesis by (auto simp: elem_set)
qed

lemma one_holder_upd:
  assumes "one_holder pc" and "set_option (in_hand c) \<inter> (hands pc - set_option (in_hand (pc t))) = {}"
  shows "one_holder (pc(t := c))"
  using assms by (auto simp: one_holder_def hands_def)

lemma owned:
  assumes "owners_ok p pc out" and "in_hand (pc t) = Some i"
  shows "i \<in> hands pc" "i \<notin> set (free_list p)" "i \<notin> out" "i < pool_cap p"
proof -
  show "i \<in> hands pc" using assms(2) by (auto simp: hands_def)
  then show "i \<notin> set (free_list p)" "i \<notin> out" "i < pool_cap p" using assms(1) by (auto simp: owners_ok_def)
qed

text \<open>Frames change hands: what thread \<open>t\<close> held and what the list and the callers had is shared
  out anew.\<close>

lemma owners_upd:
  assumes O: "owners_ok p pc out" and "pool_cap q = pool_cap p"
    and d: "set (free_list q) \<inter> out' = {}" "set_option (in_hand c) \<inter> (out' \<union> set (free_list q)) = {}"
    and e: "set (free_list q) \<union> out' \<union> set_option (in_hand c) = set (free_list p) \<union> out \<union> set_option (in_hand (pc t))"
  shows "owners_ok q (pc(t := c)) out'"
proof -
  let ?H = "hands pc - set_option (in_hand (pc t))"
  have one: "one_holder pc" using O by (simp add: owners_ok_def)
  have sub: "set_option (in_hand (pc t)) \<subseteq> hands pc" by (auto simp: hands_def)
  have "?H \<inter> (set (free_list p) \<union> out \<union> set_option (in_hand (pc t))) = {}" using O by (auto simp: owners_ok_def)
  then have H: "?H \<inter> (set (free_list q) \<union> out' \<union> set_option (in_hand c)) = {}" unfolding e [symmetric] .
  have "one_holder (pc(t := c))" by (rule one_holder_upd [OF one]) (use H in blast)
  moreover have "set (free_list q) \<union> out' \<union> (?H \<union> set_option (in_hand c)) = {..<pool_cap q}"
  proof -
    have "set (free_list q) \<union> out' \<union> (?H \<union> set_option (in_hand c)) = set (free_list p) \<union> out \<union> set_option (in_hand (pc t)) \<union> ?H"
      using e by blast
    also have "\<dots> = {..<pool_cap q}" using O sub assms(2) by (auto simp: owners_ok_def)
    finally show ?thesis .
  qed
  ultimately show ?thesis using d H unfolding owners_ok_def hands_upd [OF one] by blast
qed

fun local_ok :: "awp_frame_pool \<Rightarrow> bool \<Rightarrow> fpc \<Rightarrow> bool" where
  "local_ok p current (AcqNext h) \<longleftrightarrow> fst (unpack_head h) \<noteq> AWP_POOL_EMPTY"
| "local_ok p current (AcqCas h n) \<longleftrightarrow> fst (unpack_head h) \<noteq> AWP_POOL_EMPTY
     \<and> (current \<longrightarrow> n = p_next p ! unat (fst (unpack_head h)))"
| "local_ok p current (RelCas i h) \<longleftrightarrow> p_next p ! unat i = fst (unpack_head h)"
| "local_ok p current _ \<longleftrightarrow> True"

definition snapshots_ok :: "fconc \<Rightarrow> bool" where
  "snapshots_ok s \<longleftrightarrow>
     (\<forall>t. local_ok (f_pool s) (f_at s t = f_xchg s) (f_pc s t)
        \<and> (\<forall>h. snapshot (f_pc s t) = Some h \<longrightarrow>
             f_at s t \<le> f_xchg s \<and> snd (unpack_head h) = of_nat (f_at s t)
             \<and> (f_at s t = f_xchg s \<longrightarrow> h = p_head (f_pool s))))"

text \<open>The abstract free list: a stack of frame indices.\<close>

fun stack_run :: "nat list \<Rightarrow> fop list \<Rightarrow> nat list option" where
  "stack_run xs [] = Some xs"
| "stack_run [] (Take i # ops) = None"
| "stack_run (x # xs) (Take i # ops) = (if x = i then stack_run xs ops else None)"
| "stack_run xs (Put i # ops) = (if i \<in> set xs then None else stack_run (i # xs) ops)"

lemma stack_run_append: "stack_run xs (ops @ ops') = Option.bind (stack_run xs ops) (\<lambda>ys. stack_run ys ops')"
  by (induction xs ops rule: stack_run.induct) auto

definition fconc_inv :: "nat list \<Rightarrow> fconc \<Rightarrow> bool" where
  "fconc_inv xs s \<longleftrightarrow>
     pool_ok (f_pool s) \<and> snd (unpack_head (p_head (f_pool s))) = of_nat (f_xchg s)
     \<and> owners_ok (f_pool s) (f_pc s) (f_out s) \<and> snapshots_ok s
     \<and> stack_run xs (f_ops s) = Some (free_list (f_pool s))"

section \<open>Every step keeps the invariant\<close>

text \<open>The exchange of a thread that was not overtaken succeeds only on the head it loaded.\<close>

lemma exchange_current:
  assumes "fconc_inv xs s" and "not_overtaken s" and "snapshot (f_pc s t) = Some h" and "p_head (f_pool s) = h"
  shows "f_at s t = f_xchg s"
proof -
  have le: "f_at s t \<le> f_xchg s" and tag: "(of_nat (f_at s t) :: u32) = of_nat (f_xchg s)"
    using assms by (auto simp: fconc_inv_def snapshots_ok_def)
  have lt: "f_xchg s < f_at s t + 2 ^ 32" using assms(2,3) by (auto simp: not_overtaken_def)
  have "of_nat (f_xchg s - f_at s t) = (0 :: u32)" using le tag by (simp add: of_nat_diff)
  moreover have "f_xchg s - f_at s t < 2 ^ 32" using lt le by linarith
  moreover have "unat (of_nat n :: u32) = n" if "n < 2 ^ 32" for n
    using that by (simp add: unat_of_nat take_bit_nat_eq_self)
  ultimately have "f_xchg s - f_at s t = 0" by (metis unat_0)
  then show ?thesis using le by simp
qed

text \<open>A step that changes only the program counter and the moment of the last load.\<close>

lemma inv_move:
  assumes "fconc_inv xs s" and "in_hand c = in_hand (f_pc s t)" and "local_ok (f_pool s) (a = f_xchg s) c"
    and "\<And>h. snapshot c = Some h \<Longrightarrow> a \<le> f_xchg s \<and> snd (unpack_head h) = of_nat a \<and> (a = f_xchg s \<longrightarrow> h = p_head (f_pool s))"
  shows "fconc_inv xs (fgoto t c (s\<lparr>f_at := (f_at s)(t := a)\<rparr>))"
proof -
  have O: "owners_ok (f_pool s) (f_pc s) (f_out s)" using assms(1) by (simp add: fconc_inv_def)
  have "set_option (in_hand (f_pc s t)) \<inter> (f_out s \<union> set (free_list (f_pool s))) = {}"
    using owned [OF O, of t] by (auto simp: elem_set)
  then have "owners_ok (f_pool s) ((f_pc s)(t := c)) (f_out s)"
    by (intro owners_upd [OF O]) (use O assms(2) in \<open>simp_all add: owners_ok_def\<close>)
  then show ?thesis using assms by (auto simp: fconc_inv_def snapshots_ok_def fgoto_def)
qed

lemma inv_stay:
  assumes "fconc_inv xs s" and "in_hand c = in_hand (f_pc s t)" and "local_ok (f_pool s) (f_at s t = f_xchg s) c"
    and "snapshot c = None \<or> snapshot c = snapshot (f_pc s t)"
  shows "fconc_inv xs (fgoto t c s)"
proof -
  have "fconc_inv xs (fgoto t c (s\<lparr>f_at := (f_at s)(t := f_at s t)\<rparr>))"
    by (rule inv_move [OF assms(1-3)])
      (use assms(1,4) in \<open>metis (no_types, lifting) fconc_inv_def snapshots_ok_def option.distinct(1)\<close>)
  then show ?thesis by simp
qed

text \<open>A successful exchange: the head moves, the tag counts, and every other snapshot is stale.\<close>

lemma inv_exchange:
  assumes I: "fconc_inv xs s" and ok: "pool_ok q" and hd: "p_head q = pack_head i (of_nat (Suc (f_xchg s)))"
    and nx: "p_next q = p_next (f_pool s)"
    and c: "snapshot c = None" "local_ok q True c" "local_ok q False c"
    and own: "owners_ok q ((f_pc s)(t := c)) (f_out s)"
    and run: "stack_run (free_list (f_pool s)) [op] = Some (free_list q)"
  shows "fconc_inv xs (fgoto t c (s\<lparr>f_pool := q, f_xchg := Suc (f_xchg s), f_ops := f_ops s @ [op]\<rparr>))"
proof -
  have stale: "local_ok q False (f_pc s u)" if "local_ok (f_pool s) b (f_pc s u)" for u b
    using that nx by (cases "f_pc s u") auto
  have at: "f_at s u \<noteq> Suc (f_xchg s)" if "snapshot (f_pc s u) \<noteq> None" for u
    using I that by (fastforce simp: fconc_inv_def snapshots_ok_def)
  have free: "local_ok q b (f_pc s u)" if "snapshot (f_pc s u) = None" for u b
    using that by (cases "f_pc s u") auto
  have "local_ok q (f_at s u = Suc (f_xchg s)) (f_pc s u)" for u
    using stale [of "f_at s u = f_xchg s" u] at [of u] free [of u] I by (cases "snapshot (f_pc s u)") (auto simp: fconc_inv_def snapshots_ok_def)
  moreover have "local_ok q b c" for b using c by (cases b) auto
  ultimately have "snapshots_ok (fgoto t c (s\<lparr>f_pool := q, f_xchg := Suc (f_xchg s), f_ops := f_ops s @ [op]\<rparr>))"
    using I c(1) by (auto simp: fconc_inv_def snapshots_ok_def fgoto_def) (metis le_SucI, metis at option.distinct(1))
  moreover have "stack_run xs (f_ops s @ [op]) = Some (free_list q)"
    using I run by (simp add: fconc_inv_def stack_run_append)
  ultimately show ?thesis using ok hd own by (simp add: fconc_inv_def fgoto_def unpack_pack)
qed

lemma head_not_mine:
  assumes I: "fconc_inv xs s" and "f_pc s t = RelHead i"
  shows "fst (unpack_head (p_head (f_pool s))) \<noteq> i"
proof -
  have O: "owners_ok (f_pool s) (f_pc s) (f_out s)" using I by (simp add: fconc_inv_def)
  have "unat i \<notin> set (free_list (f_pool s))" "unat i < pool_cap (f_pool s)"
    using owned [OF O, of t "unat i"] assms(2) by simp_all
  then show ?thesis
    using I index_not_empty [of "unat i" "f_pool s"]
    by (cases "free_list (f_pool s)") (auto simp: fconc_inv_def pool_ok_def head_index_def)
qed

lemma current_head:
  assumes I: "fconc_inv xs s" and n: "not_overtaken s" and t: "f_pc s t = AcqCas h nidx" "p_head (f_pool s) = h"
  obtains rest where "free_list (f_pool s) = unat (fst (unpack_head h)) # rest"
    "nidx = p_next (f_pool s) ! unat (fst (unpack_head h))"
    "\<And>tag. pool_ok ((f_pool s)\<lparr>p_head := pack_head nidx tag\<rparr>)" "\<And>tag. free_list ((f_pool s)\<lparr>p_head := pack_head nidx tag\<rparr>) = rest"
proof -
  let ?p = "f_pool s" and ?idx = "fst (unpack_head h)"
  have cur: "f_at s t = f_xchg s" using exchange_current [OF I n, of t h] t by simp
  have "local_ok ?p (f_at s t = f_xchg s) (AcqCas h nidx)" using I t(1) by (auto simp: fconc_inv_def snapshots_ok_def dest: spec [of _ t])
  then have ne: "head_index ?p \<noteq> AWP_POOL_EMPTY" "nidx = p_next ?p ! unat ?idx" and i: "head_index ?p = ?idx"
    using t(2) cur by (auto simp: head_index_def)
  have ok: "pool_ok ?p" using I by (simp add: fconc_inv_def)
  obtain rest where fl: "free_list ?p = unat ?idx # rest"
    using ok ne(1) i by (cases "free_list ?p") (auto simp: pool_ok_def)
  have "pool_ok (?p\<lparr>p_head := pack_head nidx tag\<rparr>) \<and> free_list (?p\<lparr>p_head := pack_head nidx tag\<rparr>) = rest" for tag
    by (rule pool_okI) (use ok ne(2) fl i in \<open>auto simp: pool_ok_def head_index_def unpack_pack pool_cap_def\<close>)
  then show thesis using that [OF fl ne(2)] by blast
qed

lemma acquire_step_inv:
  assumes I: "fconc_inv xs s" and n: "not_overtaken s"
  shows "fconc_inv xs (acquire_step spurious t s)"
proof (cases "f_pc s t")
  case AcqHead
  have "snd (unpack_head (p_head (f_pool s))) = of_nat (f_xchg s)" using I by (simp add: fconc_inv_def)
  then show ?thesis
    using AcqHead inv_move [OF I, of AcqClosed t "f_xchg s"] inv_move [OF I, of "AcqNext (p_head (f_pool s))" t "f_xchg s"]
    by (simp add: acquire_step_def Let_def)
next
  case AcqClosed
  then show ?thesis using inv_stay [OF I, of "FDone None" t] inv_stay [OF I, of AcqHead t] by (simp add: acquire_step_def Let_def)
next
  case (AcqNext h)
  have "local_ok (f_pool s) b (AcqNext h)" for b using I AcqNext by (auto simp: fconc_inv_def snapshots_ok_def dest: spec [of _ t])
  then show ?thesis using AcqNext inv_stay [OF I, of "AcqCas h (p_next (f_pool s) ! unat (fst (unpack_head h)))" t]
    by (simp add: acquire_step_def Let_def)
next
  case (AcqCas h nidx)
  let ?p = "f_pool s" and ?idx = "fst (unpack_head h)"
  show ?thesis
  proof (cases "p_head ?p = h \<and> \<not> spurious")
    case False
    then show ?thesis using AcqCas inv_stay [OF I, of AcqHead t] by (auto simp: acquire_step_def Let_def split: prod.splits)
  next
    case True
    let ?q = "?p\<lparr>p_head := pack_head nidx (of_nat (Suc (f_xchg s)))\<rparr>"
    obtain rest where fl: "free_list ?p = unat ?idx # rest" and q: "pool_ok ?q \<and> free_list ?q = rest"
      using current_head [OF I n AcqCas] True by metis
    have ok: "pool_ok ?p" and own: "owners_ok ?p (f_pc s) (f_out s)" using I by (auto simp: fconc_inv_def)
    have d: "unat ?idx \<notin> set rest" using ok fl by (simp add: pool_ok_def)
    have "owners_ok ?q ((f_pc s)(t := AcqClear ?idx)) (f_out s)"
      by (rule owners_upd [OF own]) (use own d AcqCas fl q in \<open>auto simp: pool_cap_def owners_ok_def\<close>)
    then have "fconc_inv xs (fgoto t (AcqClear ?idx)
        (s\<lparr>f_pool := ?q, f_xchg := Suc (f_xchg s), f_ops := f_ops s @ [Take (unat ?idx)]\<rparr>))"
      by (intro inv_exchange [OF I]) (use q fl in auto)
    moreover have "snd (unpack_head h) = of_nat (f_xchg s)" using I True by (simp add: fconc_inv_def)
    ultimately show ?thesis using AcqCas True by (simp add: acquire_step_def Let_def split_beta add.commute)
  qed
next
  case (AcqClear i)
  let ?p = "f_pool s" and ?q = "(f_pool s)\<lparr>p_slab := (p_slab (f_pool s))[unat i := zero_frame]\<rparr>"
  have same: "free_list ?q = free_list ?p" "pool_cap ?q = pool_cap ?p" "pool_ok ?q = pool_ok ?p"
    by (simp_all add: free_list_def head_index_def pool_cap_def pool_ok_def)
  have lo: "local_ok ?q b c = local_ok ?p b c" for b c by (cases c) simp_all
  have own: "owners_ok ?p (f_pc s) (f_out s)" using I by (simp add: fconc_inv_def)
  have "owners_ok ?q ((f_pc s)(t := FDone f)) (insert (unat i) (f_out s))" for f
    by (rule owners_upd [OF own same(2)]) (use own owned [OF own, of t "unat i"] AcqClear same in \<open>auto simp: owners_ok_def\<close>)
  then show ?thesis
    using I AcqClear by (auto simp: acquire_step_def Let_def fconc_inv_def fgoto_def snapshots_ok_def same lo)
qed (use I in \<open>simp_all add: acquire_step_def Let_def\<close>)

lemma release_step_inv:
  assumes I: "fconc_inv xs s" and n: "not_overtaken s"
  shows "fconc_inv xs (release_step spurious t s)"
proof (cases "f_pc s t")
  case (RelHead i)
  have tag: "snd (unpack_head (p_head (f_pool s))) = of_nat (f_xchg s)" using I by (simp add: fconc_inv_def)
  have "fst (unpack_head (p_head (f_pool s))) \<noteq> i" by (rule head_not_mine [OF I RelHead])
  then show ?thesis using RelHead tag inv_move [OF I, of "RelNext i (p_head (f_pool s))" t "f_xchg s"]
    by (simp add: release_step_def Let_def)
next
  case (RelNext i h)
  let ?p = "f_pool s" and ?q = "(f_pool s)\<lparr>p_next := (p_next (f_pool s))[unat i := fst (unpack_head h)]\<rparr>"
  have O: "owners_ok ?p (f_pc s) (f_out s)" and ok: "pool_ok ?p" using I by (auto simp: fconc_inv_def)
  have own: "unat i \<notin> set (free_list ?p)" "unat i < pool_cap ?p" using owned [OF O, of t "unat i"] RelNext by simp_all
  have q: "pool_ok ?q \<and> free_list ?q = free_list ?p"
    by (rule pool_okI) (use ok chain_update [OF _ own(1)] in \<open>auto simp: pool_ok_def head_index_def pool_cap_def\<close>)
  have mine: "in_hand (f_pc s u) \<noteq> Some (unat i)" if "u \<noteq> t" for u
    using O RelNext that by (fastforce simp: owners_ok_def one_holder_def)
  have lo: "local_ok ?q (f_at s u = f_xchg s) (f_pc s u)" if "u \<noteq> t" for u
  proof -
    have "local_ok ?p (f_at s u = f_xchg s) (f_pc s u)" using I by (simp add: fconc_inv_def snapshots_ok_def)
    moreover have "unat (fst (unpack_head k)) \<noteq> unat i" if "f_pc s u = AcqCas k m" "f_at s u = f_xchg s" for k m
    proof -
      have "k = p_head ?p" "fst (unpack_head k) \<noteq> AWP_POOL_EMPTY"
        using I that by (auto simp: fconc_inv_def snapshots_ok_def dest!: spec [of _ u])
      then show ?thesis using ok own(1) by (cases "free_list ?p") (auto simp: pool_ok_def head_index_def)
    qed
    ultimately show ?thesis using mine [OF that] by (cases "f_pc s u") auto
  qed
  have "owners_ok ?q ((f_pc s)(t := RelCas i h)) (f_out s)"
    by (rule owners_upd [OF O]) (use O owned [OF O, of t "unat i"] RelNext q in \<open>auto simp: pool_cap_def owners_ok_def\<close>)
  moreover have "unat i < length (p_next ?p)" using own(2) ok by (simp add: pool_ok_def)
  moreover have "snapshot (f_pc s u) = Some k \<Longrightarrow> f_at s u \<le> f_xchg s \<and> snd (unpack_head k) = of_nat (f_at s u)
      \<and> (f_at s u = f_xchg s \<longrightarrow> k = p_head ?p)" for u k
    using I by (simp add: fconc_inv_def snapshots_ok_def)
  moreover from this [of t h] RelNext have "f_at s t \<le> f_xchg s \<and> snd (unpack_head h) = of_nat (f_at s t)
      \<and> (f_at s t = f_xchg s \<longrightarrow> h = p_head ?p)" by simp
  ultimately show ?thesis
    using I RelNext q lo by (simp add: release_step_def Let_def fconc_inv_def fgoto_def snapshots_ok_def)
next
  case (RelCas i h)
  let ?p = "f_pool s"
  show ?thesis
  proof (cases "p_head ?p = h \<and> \<not> spurious")
    case False
    then show ?thesis using RelCas inv_stay [OF I, of "RelHead i" t] by (auto simp: release_step_def Let_def)
  next
    case True
    have O: "owners_ok ?p (f_pc s) (f_out s)" and ok: "pool_ok ?p" using I by (auto simp: fconc_inv_def)
    have own: "unat i \<notin> set (free_list ?p)" "unat i \<notin> f_out s" "unat i < pool_cap ?p"
      using owned [OF O, of t "unat i"] RelCas by simp_all
    have "local_ok ?p (f_at s t = f_xchg s) (f_pc s t)" using I by (simp add: fconc_inv_def snapshots_ok_def)
    then have nx: "p_next ?p ! unat i = fst (unpack_head h)" using RelCas by simp
    let ?q = "?p\<lparr>p_head := pack_head i (of_nat (Suc (f_xchg s)))\<rparr>"
    have q: "pool_ok ?q \<and> free_list ?q = unat i # free_list ?p"
      by (rule pool_okI) (use ok nx own True index_not_empty [OF own(3)] in \<open>auto simp: pool_ok_def head_index_def unpack_pack pool_cap_def\<close>)
    have "owners_ok ?q ((f_pc s)(t := FDone None)) (f_out s)"
      by (rule owners_upd [OF O]) (use O own RelCas q in \<open>auto simp: pool_cap_def owners_ok_def\<close>)
    then have "fconc_inv xs (fgoto t (FDone None)
        (s\<lparr>f_pool := ?q, f_xchg := Suc (f_xchg s), f_ops := f_ops s @ [Put (unat i)]\<rparr>))"
      by (intro inv_exchange [OF I]) (use q own in auto)
    moreover have "snd (unpack_head h) = of_nat (f_xchg s)" using I True by (simp add: fconc_inv_def)
    ultimately show ?thesis using RelCas True by (simp add: release_step_def Let_def add.commute)
  qed
qed (use I in \<open>simp_all add: release_step_def Let_def\<close>)

lemma fconc_step_inv:
  assumes I: "fconc_inv xs s" and n: "not_overtaken s" and e: "fconc_step e s = Some s'"
  shows "fconc_inv xs s'"
proof -
  have O: "owners_ok (f_pool s) (f_pc s) (f_out s)" using I by (simp add: fconc_inv_def)
  have lo: "local_ok (p\<lparr>p_closed := a, p_cv := b\<rparr>) x c = local_ok p x c" for p a b x c by (cases c) simp_all
  have closing: "fconc_inv xs (s\<lparr>f_pool := (f_pool s)\<lparr>p_closed := a, p_cv := b\<rparr>\<rparr>)" for a b
    using I by (simp add: fconc_inv_def owners_ok_def snapshots_ok_def pool_ok_def free_list_def head_index_def pool_cap_def lo)
  show ?thesis
  proof (cases e)
    case (CallAcquire t)
    then show ?thesis using e inv_stay [OF I, of AcqHead t] by (auto simp: fconc_step_def split: if_splits)
  next
    case (CallRelease t i)
    then have c: "f_pc s t = FIdle" "i \<in> f_out s" and s': "s' = fgoto t (RelHead (of_nat i)) (s\<lparr>f_out := f_out s - {i}\<rparr>)"
      using e by (auto simp: fconc_step_def split: if_splits)
    have "i < pool_cap (f_pool s)" using O c(2) by (auto simp: owners_ok_def)
    then have u: "unat (of_nat i :: u32) = i" using index_not_empty by blast
    have "owners_ok (f_pool s) ((f_pc s)(t := RelHead (of_nat i))) (f_out s - {i})"
      by (rule owners_upd [OF O]) (use O c u in \<open>auto simp: owners_ok_def\<close>)
    then show ?thesis using I by (auto simp: s' fconc_inv_def snapshots_ok_def fgoto_def)
  next
    case (FStep t b)
    then show ?thesis
      using e acquire_step_inv [OF I n, of b t] release_step_inv [OF I n, of b t] inv_stay [OF I, of FIdle t]
      by (cases "f_pc s t") (auto simp: fconc_step_def)
  qed (use e closing in \<open>auto simp: fconc_step_def awp_frame_pool_close_def awp_frame_pool_reopen_def\<close>)
qed

lemma fconc_step_cap: "fconc_step e s = Some s' \<Longrightarrow> pool_cap (f_pool s') = pool_cap (f_pool s) \<and> f_xchg s' \<le> Suc (f_xchg s)"
  by (auto simp: fconc_step_def acquire_step_def release_step_def fgoto_def pool_cap_def Let_def
      awp_frame_pool_close_def awp_frame_pool_reopen_def split: fevent.splits fpc.splits if_splits prod.splits)

lemma fconc_reach_inv:
  assumes "fconc_reach p s" and "awp_frame_pool_init A (Some p0) n = (0, Some p)"
  shows "fconc_inv [0..<unat n] s \<and> not_overtaken s \<and> pool_cap (f_pool s) = unat n"
  using assms(1)
proof induction
  case start
  have p: "pool_ok p" "free_list p = [0..<unat n]" "pool_cap p = unat n" using init_pool_ok [OF assms(2)] by auto
  have "p_head p = pack_head 0 0"
    using assms(2) by (auto simp: awp_frame_pool_init_def errno_defs Let_def split: if_splits)
  then have "snd (unpack_head (p_head p)) = 0" by (simp add: unpack_pack)
  then show ?case
    using p by (auto simp: fconc_init_def fconc_inv_def not_overtaken_def owners_ok_def hands_def one_holder_def snapshots_ok_def)
next
  case (step s e s')
  then show ?case using fconc_step_inv fconc_step_cap by metis
qed

section \<open>Properties\<close>

text \<open>Runs of the machine, for concrete schedules.\<close>

fun frun :: "fevent list \<Rightarrow> fconc \<Rightarrow> fconc option" where
  "frun [] s = Some s"
| "frun (e # es) s = Option.bind (fconc_step e s) (frun es)"

lemma frun_reach: "fconc_reach p s \<Longrightarrow> frun es s = Some s' \<Longrightarrow> f_xchg s + length es < 2 ^ 32 \<Longrightarrow> fconc_reach p s'"
proof (induction es arbitrary: s)
  case (Cons e es)
  then obtain s1 where s1: "fconc_step e s = Some s1" "frun es s1 = Some s'" by (auto split: bind_splits)
  moreover have x: "f_xchg s1 + length es < 2 ^ 32" using fconc_step_cap [OF s1(1)] Cons.prems(3) by simp
  then have "not_overtaken s1" by (simp add: not_overtaken_def)
  ultimately show ?case using Cons.IH [of s1] Cons.prems(1) fconc_reach.step x by blast
qed simp

text \<open>Thread 1 loads the head and the link of frame 0; thread 2 takes frames 0 and 1 and gives 0
  back. The head is frame 0 again, with another successor. The exchange of thread 1 fails on the
  tag, and it starts over.\<close>

definition demo_aba :: "fevent list" where
  "demo_aba =
     [CallAcquire 1, FStep 1 False, FStep 1 False,
      CallAcquire 2, FStep 2 False, FStep 2 False, FStep 2 False, FStep 2 False, FStep 2 False,
      CallAcquire 2, FStep 2 False, FStep 2 False, FStep 2 False, FStep 2 False, FStep 2 False,
      CallRelease 2 0, FStep 2 False, FStep 2 False, FStep 2 False, FStep 2 False,
      FStep 1 False, FStep 1 False, FStep 1 False, FStep 1 False]"

lemma pack_head_inject: "pack_head i t = pack_head j u \<longleftrightarrow> i = j \<and> t = u"
  by (metis unpack_pack prod.inject)

lemma demo_aba_run:
  "\<exists>s. frun demo_aba (fconc_init demo_frame_pool) = Some s \<and> f_pc s 1 = AcqClear 0 \<and> f_out s = {1}
     \<and> (\<forall>t. t \<noteq> 1 \<longrightarrow> f_pc s t = FIdle) \<and> f_ops s = [Take 0, Take 1, Put 0, Take 0]"
  by (simp add: demo_aba_def fconc_step_def acquire_step_def release_step_def fgoto_def Let_def fconc_init_def
      demo_frame_pool_def awp_frame_pool_init_def demo_pool_alloc_def init_next_def AWP_POOL_EMPTY_def unpack_pack
      pack_head_inject insert_Diff_if upt_rec)

text \<open>C4. Exclusive ownership under any interleaving: at every moment each frame of the slab is in
  exactly one place: on the free list, once; with the callers, once acquired and not yet given
  back; or in the hands of exactly one thread inside an acquire or a release. No frame is lost and
  none is handed out twice, and the double-release check never rejects a proper release.\<close>

theorem frame_conc_exclusive:
  assumes "awp_frame_pool_init A (Some p0) n = (0, Some p)" and "fconc_reach p s"
  shows "distinct (free_list (f_pool s)) \<and> set (free_list (f_pool s)) \<inter> f_out s = {}
    \<and> (\<forall>t i. in_hand (f_pc s t) = Some i \<longrightarrow> i \<notin> set (free_list (f_pool s)) \<and> i \<notin> f_out s)
    \<and> (\<forall>t u i. in_hand (f_pc s t) = Some i \<and> in_hand (f_pc s u) = Some i \<longrightarrow> t = u)
    \<and> set (free_list (f_pool s)) \<union> f_out s \<union> {i. \<exists>t. in_hand (f_pc s t) = Some i} = {..<unat n}
    \<and> (\<forall>t i. f_pc s t = RelHead i \<longrightarrow> fst (unpack_head (p_head (f_pool s))) \<noteq> i)"
proof -
  have I: "fconc_inv [0..<unat n] s" and c: "pool_cap (f_pool s) = unat n"
    using fconc_reach_inv [OF assms(2,1)] by auto
  have O: "owners_ok (f_pool s) (f_pc s) (f_out s)" using I by (simp add: fconc_inv_def)
  note o = O [unfolded owners_ok_def c]
  have "distinct (free_list (f_pool s))" using I by (simp add: fconc_inv_def pool_ok_def)
  moreover have "\<forall>t i. in_hand (f_pc s t) = Some i \<longrightarrow> i \<notin> set (free_list (f_pool s)) \<and> i \<notin> f_out s"
    using owned [OF O] by blast
  moreover have "\<forall>t u i. in_hand (f_pc s t) = Some i \<and> in_hand (f_pc s u) = Some i \<longrightarrow> t = u"
    using o by (simp add: one_holder_def)
  moreover have "\<forall>t i. f_pc s t = RelHead i \<longrightarrow> fst (unpack_head (p_head (f_pool s))) \<noteq> i"
    using head_not_mine [OF I] by blast
  ultimately show ?thesis using o by (simp add: hands_def)
qed

theorem frame_conc_exclusive_witness:
  "\<exists>s. fconc_reach demo_frame_pool s \<and> f_pc s 1 = AcqClear 0 \<and> f_out s = {1} \<and> set (free_list (f_pool s)) = {2}"
proof -
  obtain s where s: "frun demo_aba (fconc_init demo_frame_pool) = Some s" "f_pc s 1 = AcqClear 0" "f_out s = {1}"
    "\<forall>t. t \<noteq> 1 \<longrightarrow> f_pc s t = FIdle" using demo_aba_run by blast
  have r: "fconc_reach demo_frame_pool s"
    by (rule frun_reach [OF fconc_reach.start s(1)]) (simp add: fconc_init_def demo_aba_def)
  let ?F = "set (free_list (f_pool s))"
  have one: "in_hand (f_pc s t) = Some i \<longleftrightarrow> t = 1 \<and> i = 0" for t i using s(2,4) by (cases "t = 1") auto
  from frame_conc_exclusive [OF demo_frame_pool_init r]
  have "0 \<notin> ?F" "1 \<notin> ?F" "?F \<union> {1} \<union> {0} = {..<3}" using s(3) by (auto simp: one)
  then have "?F = {..<3} - {0, 1}" by blast
  also have "\<dots> = {2}" by auto
  finally show ?thesis using r s(2,3) by blast
qed

text \<open>C5. The free list refines a stack: in every interleaving the successful exchanges, in the order
  they happen, are a legal history of a sequential stack of distinct indices that starts with the
  whole slab and ends with the current free list; every take removes the frame on top.\<close>

theorem frame_conc_refines_stack:
  assumes "awp_frame_pool_init A (Some p0) n = (0, Some p)" and "fconc_reach p s"
  shows "stack_run [0..<unat n] (f_ops s) = Some (free_list (f_pool s)) \<and> pool_ok (f_pool s)
    \<and> (\<forall>t h nidx. f_pc s t = AcqCas h nidx \<and> p_head (f_pool s) = h \<longrightarrow>
         (\<exists>rest. free_list (f_pool s) = unat (fst (unpack_head h)) # rest
            \<and> free_list ((f_pool s)\<lparr>p_head := pack_head nidx (snd (unpack_head h) + 1)\<rparr>) = rest))"
proof -
  have I: "fconc_inv [0..<unat n] s" and w: "not_overtaken s" using fconc_reach_inv [OF assms(2,1)] by auto
  have "\<exists>rest. free_list (f_pool s) = unat (fst (unpack_head h)) # rest
      \<and> free_list ((f_pool s)\<lparr>p_head := pack_head nidx (snd (unpack_head h) + 1)\<rparr>) = rest"
    if "f_pc s t = AcqCas h nidx" "p_head (f_pool s) = h" for t h nidx
    by (rule current_head [OF I w that]) blast
  then show ?thesis using I by (simp add: fconc_inv_def)
qed

theorem frame_conc_refines_stack_witness:
  "\<exists>s. fconc_reach demo_frame_pool s \<and> f_ops s = [Take 0, Take 1, Put 0, Take 0] \<and> free_list (f_pool s) = [2]"
proof -
  obtain s where s: "frun demo_aba (fconc_init demo_frame_pool) = Some s" "f_ops s = [Take 0, Take 1, Put 0, Take 0]"
    using demo_aba_run by blast
  have r: "fconc_reach demo_frame_pool s"
    by (rule frun_reach [OF fconc_reach.start s(1)]) (simp add: fconc_init_def demo_aba_def)
  have "[0..<unat (3 :: u32)] = [0, 1, 2]" by (simp add: upt_rec)
  with frame_conc_refines_stack [OF demo_frame_pool_init r] s(2) have "Some [2] = Some (free_list (f_pool s))"
    by simp
  then have "free_list (f_pool s) = [2]" by simp
  then show ?thesis using r s(2) by blast
qed

end
