(* ===== verification/Arena.thy ===== *)
theory Arena
  imports Awp_Bits
begin

text \<open>
  \<open>src/arena.c\<close>: the bump allocator. Addresses and sizes are 64-bit words, a chunk is its
  address with the two counters of its header, and the list of chunks is the chain from
  \<open>a->head\<close>. What \<open>posix_memalign\<close> and \<open>malloc\<close> return for a request is an argument. The lemmas
  show alignment, bounds and disjointness of what the arena hands out for the sizes its
  chunks can hold, and what it does beyond them.
\<close>

section \<open>Chunks\<close>

record awp_arena_chunk =
  k_addr :: u64
  k_capacity :: u64
  k_offset :: u64

record awp_arena =
  ar_head :: "awp_arena_chunk list"
  ar_default_chunk_size :: u64
  ar_total_allocated :: u64

text \<open>\<open>sizeof(awp_arena_chunk_t)\<close>: a pointer and two \<open>size_t\<close>.\<close>

definition chunk_header :: u64 where "chunk_header = 24"

definition AWP_CACHELINE :: u64 where "AWP_CACHELINE = 64"

record arena_mem =
  mm_memalign :: "u64 \<Rightarrow> u64 option"
  mm_malloc :: "u64 \<Rightarrow> u64 option"

definition awp_arena_init :: "awp_arena option \<Rightarrow> u64 \<Rightarrow> awp_arena option" where
  "awp_arena_init ao default_chunk_size =
     (case ao of
        None \<Rightarrow> None
      | Some a \<Rightarrow>
          let d = (if default_chunk_size = 0 then 2 * 1024 * 1024 else default_chunk_size)
          in Some (a\<lparr>ar_head := [], ar_default_chunk_size := d, ar_total_allocated := 0\<rparr>))"

definition arena_new_chunk :: "arena_mem \<Rightarrow> u64 \<Rightarrow> awp_arena_chunk option" where
  "arena_new_chunk M min_capacity =
     (let cap = (if min_capacity < 64 * 1024 then 64 * 1024 else min_capacity);
          cap = ucast (awp_round_up_pow2 (ucast cap));
          total_bytes = chunk_header + cap + AWP_CACHELINE;
          mem = (case mm_memalign M total_bytes of
                   Some m \<Rightarrow> Some m
                 | None \<Rightarrow> mm_malloc M total_bytes)
      in map_option (\<lambda>m. \<lparr>k_addr = m, k_capacity = cap, k_offset = 0\<rparr>) mem)"

text \<open>\<open>(uint8_t *)(chunk + 1)\<close>.\<close>

definition chunk_base :: "awp_arena_chunk \<Rightarrow> u64" where
  "chunk_base c = k_addr c + chunk_header"

definition align_up :: "u64 \<Rightarrow> u64 \<Rightarrow> u64" where
  "align_up cur alignment = (cur + alignment - 1) AND NOT (alignment - 1)"

section \<open>Allocation\<close>

text \<open>The first test: make sure the head chunk looks large enough.\<close>

definition arena_room :: "arena_mem \<Rightarrow> awp_arena \<Rightarrow> u64 \<Rightarrow> u64 \<Rightarrow> awp_arena option" where
  "arena_room M a n alignment =
     (if (case ar_head a of [] \<Rightarrow> True | c # _ \<Rightarrow> k_offset c + n + alignment > k_capacity c)
      then let needed = (if n > ar_default_chunk_size a then n else ar_default_chunk_size a)
           in map_option (\<lambda>nc. a\<lparr>ar_head := nc # ar_head a\<rparr>) (arena_new_chunk M needed)
      else Some a)"

text \<open>\<open>M\<close> answers the first request for memory of the call and \<open>M'\<close> the second.\<close>

definition awp_arena_alloc ::
  "arena_mem \<Rightarrow> arena_mem \<Rightarrow> awp_arena option \<Rightarrow> u64 \<Rightarrow> u64 \<Rightarrow> u64 option \<times> awp_arena option" where
  "awp_arena_alloc M M' ao n alignment0 =
     (case ao of
        None \<Rightarrow> (None, None)
      | Some a0 \<Rightarrow>
          if n = 0 then (None, ao)
          else
            let alignment = (if alignment0 = 0 then 8 else alignment0)
            in case arena_room M a0 n alignment of
                 None \<Rightarrow> (None, ao)
               | Some a \<Rightarrow>
                   let c = hd (ar_head a);
                       cur = chunk_base c + k_offset c;
                       aligned = align_up cur alignment;
                       padding = aligned - cur
                   in if k_offset c + padding + n > k_capacity c
                      then case arena_new_chunk M' n of
                             None \<Rightarrow> (None, Some a)
                           | Some nc \<Rightarrow>
                               let cur = chunk_base nc;
                                   aligned = align_up cur alignment;
                                   padding = aligned - cur;
                                   nc = nc\<lparr>k_offset := k_offset nc + (padding + n)\<rparr>
                               in (Some aligned,
                                   Some (a\<lparr>ar_head := nc # ar_head a,
                                           ar_total_allocated := ar_total_allocated a + (padding + n)\<rparr>))
                      else let c = c\<lparr>k_offset := k_offset c + (padding + n)\<rparr>
                           in (Some aligned,
                               Some (a\<lparr>ar_head := c # tl (ar_head a),
                                       ar_total_allocated := ar_total_allocated a + (padding + n)\<rparr>)))"

text \<open>The result of \<open>calloc\<close> carries the number of bytes that \<open>memset\<close> clears.\<close>

definition awp_arena_calloc ::
  "arena_mem \<Rightarrow> arena_mem \<Rightarrow> awp_arena option \<Rightarrow> u64 \<Rightarrow> u64 \<Rightarrow> u64
     \<Rightarrow> (u64 \<times> u64) option \<times> awp_arena option" where
  "awp_arena_calloc M M' ao count n alignment =
     (let total = count * n
      in case awp_arena_alloc M M' ao total alignment of
           (None, ao') \<Rightarrow> (None, ao')
         | (Some p, ao') \<Rightarrow> (Some (p, total), ao'))"

section \<open>Recycling\<close>

definition awp_arena_reset :: "awp_arena option \<Rightarrow> awp_arena option" where
  "awp_arena_reset ao =
     (case ao of
        None \<Rightarrow> None
      | Some a \<Rightarrow> Some (a\<lparr>ar_head := map (\<lambda>c. c\<lparr>k_offset := 0\<rparr>) (ar_head a), ar_total_allocated := 0\<rparr>))"

text \<open>The second component is the list of blocks given back with \<open>free\<close>.\<close>

definition awp_arena_destroy :: "awp_arena option \<Rightarrow> awp_arena option \<times> u64 list" where
  "awp_arena_destroy ao =
     (case ao of
        None \<Rightarrow> (None, [])
      | Some a \<Rightarrow> (Some (a\<lparr>ar_head := [], ar_total_allocated := 0\<rparr>), map k_addr (ar_head a)))"


section \<open>Alignment arithmetic\<close>

lemma unat_and_not_mask: "unat (x AND NOT (2 ^ k - 1) :: u64) = unat x - unat x mod 2 ^ k"
proof -
  have "x AND NOT (2 ^ k - 1) = push_bit k (drop_bit k x)"
    by (rule bit_word_eqI) (auto simp: bit_simps simp flip: mask_eq_decr_exp dest: bit_imp_le_length)
  moreover have "unat (push_bit k (drop_bit k x)) = unat x div 2 ^ k * 2 ^ k"
  proof -
    have "unat x div 2 ^ k * 2 ^ k < 2 ^ 64" using unat_lt64 [of x] by (metis div_times_less_eq_dividend le_less_trans)
    moreover have "unat (push_bit k (drop_bit k x)) = take_bit 64 (push_bit k (drop_bit k (unat x)))"
      by (simp only: unsigned_push_bit_eq unsigned_drop_bit_eq) (simp add: take_bit_nat_eq_self [OF unat_lt64])
    ultimately show ?thesis
      by (simp add: push_bit_eq_mult drop_bit_eq_div take_bit_nat_eq_self)
  qed
  ultimately show ?thesis by (simp add: minus_mod_eq_div_mult)
qed

lemma align_up_nat:
  assumes "k \<le> 6" and "unat cur + 2 ^ k < 2 ^ 64"
  shows "2 ^ k dvd unat (align_up cur (2 ^ k))" and "unat cur \<le> unat (align_up cur (2 ^ k))"
    and "unat (align_up cur (2 ^ k)) < unat cur + 2 ^ k"
proof -
  have "(2 :: nat) ^ k \<le> 2 ^ 6" by (rule power_increasing) (use assms(1) in auto)
  have p: "unat (2 ^ k :: u64) = 2 ^ k"
    using unat_of_nat_small64 [of "2 ^ k"] assms(2) by simp
  have "unat (cur + 2 ^ k) = unat cur + 2 ^ k" using assms(2) p by (simp add: unat_word_ariths)
  moreover have "cur + 2 ^ k \<noteq> 0" using calculation by (metis add_is_0 power_not_zero unat_0 zero_neq_numeral)
  ultimately have x: "unat (cur + 2 ^ k - 1) = unat cur + 2 ^ k - 1" by (simp add: unat_minus_one)
  let ?x = "unat cur + 2 ^ k - 1"
  have u: "unat (align_up cur (2 ^ k)) = ?x - ?x mod 2 ^ k" by (simp add: align_up_def unat_and_not_mask x)
  show "2 ^ k dvd unat (align_up cur (2 ^ k))" by (simp add: u minus_mod_eq_div_mult)
  have "?x mod 2 ^ k < 2 ^ k" by simp
  then show "unat cur \<le> unat (align_up cur (2 ^ k))" unfolding u by linarith
  have "0 < (2 :: nat) ^ k" by simp
  then show "unat (align_up cur (2 ^ k)) < unat cur + 2 ^ k" unfolding u by linarith
qed

section \<open>Well-formed arenas\<close>

definition chunk_ok :: "awp_arena_chunk \<Rightarrow> bool" where
  "chunk_ok c \<longleftrightarrow>
     unat (k_capacity c) \<le> 2 ^ 24 \<and> unat (k_offset c) \<le> unat (k_capacity c) + 64
     \<and> unat (k_addr c) + 24 + unat (k_capacity c) + 64 < 2 ^ 63"

definition arena_ok :: "awp_arena \<Rightarrow> bool" where
  "arena_ok a \<longleftrightarrow> (\<forall>c \<in> set (ar_head a). chunk_ok c)"

text \<open>What the allocator of the platform promises: a block lies within the user half of the
  address space.\<close>

definition good_mem :: "arena_mem \<Rightarrow> bool" where
  "good_mem M \<longleftrightarrow>
     (\<forall>n m. mm_memalign M n = Some m \<or> mm_malloc M n = Some m \<longrightarrow> unat m + unat n < 2 ^ 63)"

lemma round_up_le: "unat (awp_round_up_pow2 v) \<le> 2 ^ 24"
proof (cases "unat v \<le> 2 ^ 24")
  case True
  then obtain k where "k \<le> 24" "unat (awp_round_up_pow2 v) = 2 ^ k"
    using round_up_pow2_cases [of v] by auto
  then show ?thesis using power_increasing [of k 24 "2 :: nat"] by simp
qed (use round_up_pow2_cases [of v] in simp)

lemma new_chunk_ok:
  assumes "arena_new_chunk M n = Some c" and "good_mem M"
  shows "chunk_ok c \<and> k_offset c = 0 \<and> (unat n \<le> 2 ^ 24 \<longrightarrow> unat n \<le> unat (k_capacity c))"
proof -
  define v :: u64 where "v = (if n < 64 * 1024 then 64 * 1024 else n)"
  define cap :: u64 where "cap = ucast (awp_round_up_pow2 (ucast v))"
  let ?t = "chunk_header + cap + AWP_CACHELINE"
  have c: "k_capacity c = cap" "k_offset c = 0"
    and m: "mm_memalign M ?t = Some (k_addr c) \<or> mm_malloc M ?t = Some (k_addr c)"
    using assms(1) unfolding arena_new_chunk_def Let_def v_def [symmetric] cap_def [symmetric]
    by (auto split: option.splits)
  have le: "unat cap \<le> 2 ^ 24" using round_up_le by (simp add: cap_def)
  have t: "unat ?t = 24 + unat cap + 64"
    using le by (simp add: unat_word_ariths chunk_header_def AWP_CACHELINE_def)
  have "unat n \<le> unat cap" if "unat n \<le> 2 ^ 24"
  proof -
    have nv: "unat n \<le> unat v" "unat v \<le> 2 ^ 24" using that by (auto simp: v_def word_less_nat_alt)
    then have uv: "unat (ucast v :: u32) = unat v" by (intro unat_ucast_down32) simp
    then have "unat v \<le> unat (awp_round_up_pow2 (ucast v))"
      using round_up_pow2_cases [of "ucast v"] nv(2) by auto
    then show ?thesis using nv(1) by (simp add: cap_def)
  qed
  moreover have "unat (k_addr c) + unat ?t < 2 ^ 63" using assms(2) m by (auto simp: good_mem_def)
  ultimately show ?thesis using c le t by (simp add: chunk_ok_def)
qed

lemma arena_room_ok:
  assumes "arena_room M a n al = Some a'" and "arena_ok a" and "good_mem M"
  shows "arena_ok a' \<and> ar_head a' \<noteq> [] \<and> ar_total_allocated a' = ar_total_allocated a
    \<and> ar_default_chunk_size a' = ar_default_chunk_size a
    \<and> (ar_head a' = ar_head a \<or> (\<exists>c. ar_head a' = c # ar_head a \<and> k_offset c = 0))"
  using assms new_chunk_ok [OF _ assms(3)]
  by (auto simp: arena_room_def arena_ok_def Let_def split: if_splits list.splits)

text \<open>Carving \<open>n\<close> bytes out of a chunk at its offset.\<close>

definition carved :: "awp_arena_chunk \<Rightarrow> u64 \<Rightarrow> u64 \<Rightarrow> u64 \<times> awp_arena_chunk" where
  "carved c n al =
     (let cur = chunk_base c + k_offset c; aligned = align_up cur al; padding = aligned - cur
      in (aligned, c\<lparr>k_offset := k_offset c + (padding + n)\<rparr>))"

lemma carve_spec:
  assumes "chunk_ok c" and "k \<le> 6" and "0 < unat n" "unat n \<le> 2 ^ 24"
  shows "2 ^ k dvd unat (fst (carved c n (2 ^ k)))"
    and "unat (chunk_base c) + unat (k_offset c) \<le> unat (fst (carved c n (2 ^ k)))"
    and "unat (fst (carved c n (2 ^ k))) + unat n
       = unat (chunk_base c) + unat (k_offset (snd (carved c n (2 ^ k))))"
    and "unat (fst (carved c n (2 ^ k))) < unat (chunk_base c) + unat (k_offset c) + 2 ^ k"
    and "k_offset c + (fst (carved c n (2 ^ k)) - (chunk_base c + k_offset c)) + n
       = k_offset (snd (carved c n (2 ^ k)))"
proof -
  have p64: "(2 :: nat) ^ k \<le> 2 ^ 6" by (rule power_increasing) (use assms(2) in auto)
  have b: "unat (chunk_base c) = unat (k_addr c) + 24"
    using assms(1) by (simp add: chunk_base_def chunk_header_def unat_word_ariths chunk_ok_def)
  let ?cur = "chunk_base c + k_offset c"
  have cur: "unat ?cur = unat (chunk_base c) + unat (k_offset c)"
    using assms(1) b by (simp add: unat_word_ariths chunk_ok_def)
  have lt: "unat ?cur + 2 ^ k < 2 ^ 64" using cur b p64 assms(1) by (simp add: chunk_ok_def)
  note al = align_up_nat [OF assms(2) lt]
  let ?a = "align_up ?cur (2 ^ k)"
  have pad: "unat (?a - ?cur) = unat ?a - unat ?cur" using al(2) by (simp add: unat_sub word_le_nat_alt)
  have off: "unat (k_offset c + (?a - ?cur + n)) = unat (k_offset c) + (unat ?a - unat ?cur) + unat n"
  proof -
    have "unat (?a - ?cur) < 64" using al(3) p64 pad by simp
    moreover have "unat (k_offset c + (d + n)) = unat (k_offset c) + unat d + unat n" if "unat d < 64" for d
      using that assms(1,4) by (simp add: unat_word_ariths chunk_ok_def)
    ultimately show ?thesis by (simp only: pad)
  qed
  have F: "fst (carved c n (2 ^ k)) = ?a" "k_offset (snd (carved c n (2 ^ k))) = k_offset c + (?a - ?cur + n)"
    by (simp_all add: carved_def Let_def)
  show "2 ^ k dvd unat (fst (carved c n (2 ^ k)))" using al(1) by (simp add: F)
  show "unat (chunk_base c) + unat (k_offset c) \<le> unat (fst (carved c n (2 ^ k)))" using al(2) cur by (simp add: F)
  show "unat (fst (carved c n (2 ^ k))) + unat n = unat (chunk_base c) + unat (k_offset (snd (carved c n (2 ^ k))))"
    using al(2) cur unfolding F off by linarith
  show "unat (fst (carved c n (2 ^ k))) < unat (chunk_base c) + unat (k_offset c) + 2 ^ k"
    using al(3) cur by (simp add: F)
  show "k_offset c + (fst (carved c n (2 ^ k)) - ?cur) + n = k_offset (snd (carved c n (2 ^ k)))"
    by (simp add: F)
qed

lemma alloc_carves:
  assumes "n \<noteq> 0" and "arena_room M a0 n al = Some a" and "al0 = al \<and> al \<noteq> 0"
  shows "awp_arena_alloc M M' (Some a0) n al0 =
    (let c = hd (ar_head a)
     in if k_offset c + (fst (carved c n al) - (chunk_base c + k_offset c)) + n > k_capacity c
        then case arena_new_chunk M' n of
               None \<Rightarrow> (None, Some a)
             | Some nc \<Rightarrow>
                 (Some (fst (carved nc n al)),
                  Some (a\<lparr>ar_head := snd (carved nc n al) # ar_head a,
                    ar_total_allocated := ar_total_allocated a
                      + (fst (carved nc n al) - (chunk_base nc + k_offset nc) + n)\<rparr>))
        else (Some (fst (carved c n al)),
              Some (a\<lparr>ar_head := snd (carved c n al) # tl (ar_head a),
                ar_total_allocated := ar_total_allocated a
                  + (fst (carved c n al) - (chunk_base c + k_offset c) + n)\<rparr>)))"
proof -
  have "k_offset nc = 0" if "arena_new_chunk M' n = Some nc" for nc
    using that by (auto simp: arena_new_chunk_def Let_def)
  then show ?thesis
    using assms by (auto simp: awp_arena_alloc_def carved_def Let_def split: option.splits)
qed

text \<open>What an allocation of \<open>n\<close> bytes yields: an aligned address whose bytes lie in the block of
  the head chunk, past everything that chunk handed out before.\<close>

definition alloc_in :: "nat \<Rightarrow> u64 \<Rightarrow> awp_arena_chunk \<Rightarrow> awp_arena_chunk \<Rightarrow> u64 \<Rightarrow> bool" where
  "alloc_in al n c c' p \<longleftrightarrow>
     al dvd unat p \<and> k_addr c' = k_addr c \<and> k_capacity c' = k_capacity c
     \<and> unat (k_addr c) + 24 + unat (k_offset c) \<le> unat p
     \<and> unat p + unat n = unat (k_addr c) + 24 + unat (k_offset c')
     \<and> unat p + unat n \<le> unat (k_addr c) + 24 + unat (k_capacity c) + 64"

lemma carved_in:
  assumes "chunk_ok c" and "k \<le> 6" and "0 < unat n" "unat n \<le> 2 ^ 24"
    and fits: "unat (k_offset (snd (carved c n (2 ^ k)))) \<le> unat (k_capacity c)
      \<or> k_offset c = 0 \<and> unat n \<le> unat (k_capacity c)"
  shows "alloc_in (2 ^ k) n c (snd (carved c n (2 ^ k))) (fst (carved c n (2 ^ k)))
    \<and> chunk_ok (snd (carved c n (2 ^ k)))"
proof -
  note cs = carve_spec [OF assms(1-4)]
  have p64: "(2 :: nat) ^ k \<le> 64" using power_increasing [of k 6 "2 :: nat"] assms(2) by simp
  have b: "unat (chunk_base c) = unat (k_addr c) + 24"
    using assms(1) by (simp add: chunk_base_def chunk_header_def unat_word_ariths chunk_ok_def)
  have K: "k_addr (snd (carved c n (2 ^ k))) = k_addr c" "k_capacity (snd (carved c n (2 ^ k))) = k_capacity c"
    by (simp_all add: carved_def Let_def)
  have off: "unat (k_offset (snd (carved c n (2 ^ k)))) \<le> unat (k_capacity c) + 64"
    using fits
  proof
    assume z: "k_offset c = 0 \<and> unat n \<le> unat (k_capacity c)"
    then have o: "unat (k_offset c) = 0" by simp
    show ?thesis using cs(3,4) p64 z unfolding o by linarith
  qed simp
  then show ?thesis using cs(1,2,3) b K assms(1) by (simp add: alloc_in_def chunk_ok_def)
qed

lemma awp_arena_alloc_cases:
  assumes ok: "arena_ok a" and n: "0 < unat n" "unat n \<le> 2 ^ 24" and al: "al = 2 ^ k" "k \<le> 6"
    and mem: "good_mem M" "good_mem M'"
  shows "case awp_arena_alloc M M' (Some a) n al of
      (None, ao) \<Rightarrow> (\<exists>a'. ao = Some a' \<and> arena_ok a')
    | (Some p, ao) \<Rightarrow> \<exists>a' c c' rest. ao = Some a' \<and> arena_ok a' \<and> ar_head a' = c' # rest
        \<and> alloc_in (2 ^ k) n c c' p \<and> (c # rest = ar_head a \<or> k_offset c = 0)"
proof -
  have n0: "n \<noteq> 0" using n(1) by auto
  have al0: "al = al \<and> al \<noteq> 0"
  proof -
    have "unat (2 ^ k :: u64) = 2 ^ k"
      using unat_of_nat_small64 [of "2 ^ k"] power_strict_increasing [of k 64 "2 :: nat"] al(2) by simp
    then show ?thesis using al(1) by (metis power_not_zero unat_0 zero_neq_numeral)
  qed
  show ?thesis
  proof (cases "arena_room M a n al")
    case None
    then show ?thesis using n0 al0 ok by (auto simp: awp_arena_alloc_def)
  next
    case (Some a1)
    note r = arena_room_ok [OF Some ok mem(1)]
    then obtain c rest where h: "ar_head a1 = c # rest" by (cases "ar_head a1") auto
    have c: "chunk_ok c" and rest: "\<forall>x\<in>set rest. chunk_ok x" using r h by (auto simp: arena_ok_def)
    have old: "c # rest = ar_head a \<or> k_offset c = 0" using r h by auto
    note E = alloc_carves [OF n0 Some al0, of M']
    show ?thesis
    proof (cases "k_offset c + (fst (carved c n al) - (chunk_base c + k_offset c)) + n > k_capacity c")
      case True
      show ?thesis
      proof (cases "arena_new_chunk M' n")
        case None
        then show ?thesis using E True h r by simp
      next
        case nc: (Some nc)
        note nk = new_chunk_ok [OF nc mem(2)]
        have "alloc_in (2 ^ k) n nc (snd (carved nc n al)) (fst (carved nc n al)) \<and> chunk_ok (snd (carved nc n al))"
          unfolding al(1) by (rule carved_in [OF _ al(2) n]) (use nk n in auto)
        then show ?thesis using E True nc h c rest nk by (auto simp: arena_ok_def)
      qed
    next
      case False
      then have "unat (k_offset (snd (carved c n al))) \<le> unat (k_capacity c)"
        using carve_spec(5) [OF c al(2) n] by (simp add: al(1) word_less_nat_alt)
      then have "alloc_in (2 ^ k) n c (snd (carved c n al)) (fst (carved c n al)) \<and> chunk_ok (snd (carved c n al))"
        unfolding al(1) by (intro carved_in [OF c al(2) n]) simp
      then show ?thesis using E False h rest old by (auto simp: arena_ok_def)
    qed
  qed
qed

section \<open>Properties\<close>

definition demo_mem :: "u64 \<Rightarrow> arena_mem" where
  "demo_mem m = \<lparr>mm_memalign = (\<lambda>n. if n \<le> 2 ^ 25 then Some m else None), mm_malloc = (\<lambda>_. None)\<rparr>"

definition demo_arena :: awp_arena where
  "demo_arena = \<lparr>ar_head = [], ar_default_chunk_size = 0x10000, ar_total_allocated = 0\<rparr>"

lemma demo_mem_good: "unat m \<le> 2 ^ 32 \<Longrightarrow> good_mem (demo_mem m)"
  by (auto simp: good_mem_def demo_mem_def word_le_nat_alt split: if_splits)

lemma demo_arena_ok: "arena_ok demo_arena"
  by (simp add: arena_ok_def demo_arena_def)



text \<open>C40. Beyond 16 MB the arena hands out memory it does not have: the rounded capacity is 0, so
  for any such size that fits 32 bits a successful allocation on an empty arena returns an
  address whose \<open>n\<close> bytes end past the block of the head chunk.\<close>

theorem awp_arena_alloc_overruns:
  assumes "2 ^ 24 < unat n" and "unat n < 2 ^ 32" and "good_mem M" and "good_mem M'"
    and "ar_head a = []" and "awp_arena_alloc M M' (Some a) n 8 = (Some p, Some a')"
  shows "\<exists>c rest. ar_head a' = c # rest \<and> k_capacity c = 0
    \<and> unat (k_addr c) + 24 + unat (k_capacity c) + 64 < unat p + unat n"
proof -
  have un: "unat (ucast n :: u32) = unat n" by (rule unat_ucast_down32 [OF assms(2)])
  have "\<not> n < 64 * 1024" using assms(1) by (simp add: word_less_nat_alt)
  then have cap: "k_capacity c = 0" if "arena_new_chunk M' n = Some c" for c
    using that un round_up_pow2_cases [of "ucast n"] assms(1) by (auto simp: arena_new_chunk_def Let_def)
  have n0: "n \<noteq> 0" using assms(1) by auto
  obtain a1 where r: "arena_room M a n 8 = Some a1"
    using assms(6) n0 by (auto simp: awp_arena_alloc_def split: option.splits)
  obtain c1 where a1: "ar_head a1 = [c1]" and c1: "chunk_ok c1" "k_offset c1 = 0"
    using r assms(5) new_chunk_ok [OF _ assms(3)] by (auto simp: arena_room_def Let_def)
  note E = alloc_carves [OF n0 r, of 8 M']
  have le: "unat (k_capacity c1) < unat n" using c1(1) assms(1) by (simp add: chunk_ok_def)
  have b: "unat (chunk_base c) = unat (k_addr c) + 24" if "chunk_ok c" for c
    using that by (simp add: chunk_base_def chunk_header_def unat_word_ariths chunk_ok_def)
  have al: "unat (chunk_base c) \<le> unat (align_up (chunk_base c) 8)
      \<and> unat (align_up (chunk_base c) 8) < unat (chunk_base c) + 8" if "chunk_ok c" for c
    using align_up_nat [of 3 "chunk_base c"] b [OF that] that by (simp add: chunk_ok_def)
  have "unat (align_up (chunk_base c1) 8 - chunk_base c1) = unat (align_up (chunk_base c1) 8) - unat (chunk_base c1)"
    using al [OF c1(1)] by (simp add: unat_sub word_le_nat_alt)
  then have "unat (align_up (chunk_base c1) 8 - chunk_base c1) < 8" using al [OF c1(1)] by linarith
  then have "unat d < 8 \<Longrightarrow> unat (d + n) = unat d + unat n" for d :: u64
    using assms(2) by (simp add: unat_word_ariths)
  then have "\<not> unat (align_up (chunk_base c1) 8 - chunk_base c1 + n) \<le> unat (k_capacity c1)"
    using le \<open>unat (align_up (chunk_base c1) 8 - chunk_base c1) < 8\<close> by simp
  then have big: "k_capacity c1 < align_up (chunk_base c1) 8 - chunk_base c1 + n"
    by (simp add: word_less_nat_alt)
  then obtain nc where nc: "arena_new_chunk M' n = Some nc"
    and p: "p = align_up (chunk_base nc) 8" and h: "ar_head a' = snd (carved nc n 8) # ar_head a1"
    using assms(6) E a1 c1(2) by (auto simp: carved_def Let_def arena_new_chunk_def split: option.splits)
  have nk: "chunk_ok nc" using new_chunk_ok [OF nc assms(4)] by simp
  show ?thesis
    using h p cap [OF nc] al [OF nk] b [OF nk] assms(1) by (auto simp: carved_def Let_def)
qed

theorem awp_arena_alloc_overruns_witness:
  "\<exists>p a' c rest. awp_arena_alloc (demo_mem 0x1000) (demo_mem 0x90000) (Some demo_arena) 0x1000001 8
       = (Some p, Some a') \<and> ar_head a' = c # rest \<and> unat (k_addr c) + 88 < unat p + 0x1000001"
proof -
  have "\<exists>p a'. awp_arena_alloc (demo_mem 0x1000) (demo_mem 0x90000) (Some demo_arena) 0x1000001 8 = (Some p, Some a')"
    by (simp add: awp_arena_alloc_def arena_room_def arena_new_chunk_def demo_arena_def demo_mem_def
        awp_round_up_pow2_def AWP_RING_CAP_MAX_def chunk_header_def AWP_CACHELINE_def chunk_base_def
        align_up_def Let_def)
  then obtain p a' where e: "awp_arena_alloc (demo_mem 0x1000) (demo_mem 0x90000) (Some demo_arena) 0x1000001 8
      = (Some p, Some a')" by blast
  from awp_arena_alloc_overruns [OF _ _ _ _ _ e] e show ?thesis
    by (auto simp: demo_mem_good demo_arena_def)
qed

text \<open>Recycling: after a reset every chunk is kept, empty and well formed, and nothing is
  allocated; destroying frees each chunk once, in chain order, and leaves an empty arena.\<close>

theorem awp_arena_recycling:
  assumes "arena_ok a"
  shows "(\<exists>a'. awp_arena_reset (Some a) = Some a' \<and> arena_ok a' \<and> ar_total_allocated a' = 0
      \<and> map k_addr (ar_head a') = map k_addr (ar_head a) \<and> (\<forall>c \<in> set (ar_head a'). k_offset c = 0))
    \<and> (case awp_arena_destroy (Some a) of (ao, freed) \<Rightarrow>
         freed = map k_addr (ar_head a) \<and> (\<exists>a'. ao = Some a' \<and> ar_head a' = [] \<and> ar_total_allocated a' = 0))"
  using assms by (auto simp: awp_arena_reset_def awp_arena_destroy_def arena_ok_def chunk_ok_def)

theorem awp_arena_recycling_witness:
  "\<exists>a'. awp_arena_reset (Some demo_arena) = Some a' \<and> arena_ok a' \<and> ar_total_allocated a' = 0"
  using awp_arena_recycling [OF demo_arena_ok] by blast

end
