(* ===== verification/Shard.thy ===== *)
theory Shard
  imports Awp_Types
begin

text \<open>
  \<open>src/shard.c\<close>: the FNV-1a key hash and the map from a frame's labels to its worker. The
  lemmas show which function of the labels the hash is, that labels differing in one byte
  never collide, and in which range of workers each kind of traffic lands.
\<close>

section \<open>The key hash\<close>

definition fnv_offset :: u64 where "fnv_offset = 14695981039346656037"
definition fnv_prime :: u64 where "fnv_prime = 1099511628211"

text \<open>One pass of the byte loops: \<open>for (p = s; *p; p++) { h ^= *p; h *= prime; }\<close>. Running off
  the model's memory ends the loop as a NUL would.\<close>

fun fnv_loop :: "u64 \<Rightarrow> u8 list \<Rightarrow> u64" where
  "fnv_loop h [] = h"
| "fnv_loop h (b # p) = (if b = 0 then h else fnv_loop ((h XOR ucast b) * fnv_prime) p)"

definition or_empty :: "cstr option \<Rightarrow> cstr" where
  "or_empty s = (case s of None \<Rightarrow> [] | Some t \<Rightarrow> t)"

definition awp_hash_key :: "cstr option \<Rightarrow> cstr option \<Rightarrow> u64" where
  "awp_hash_key feed symbol =
     (let h = fnv_loop fnv_offset (or_empty feed);
          h = (h XOR 0x1F) * fnv_prime
      in fnv_loop h (or_empty symbol))"

section \<open>The worker map\<close>

definition feed_is_broadcast :: "awp_pool \<Rightarrow> cstr option \<Rightarrow> bool" where
  "feed_is_broadcast pool feed =
     (case feed of
        None \<Rightarrow> False
      | Some f \<Rightarrow>
          n_broadcast_feeds pool \<noteq> 0 \<and>
          list_ex (\<lambda>e. case e of None \<Rightarrow> False | Some b \<Rightarrow> streq b f)
            (take (unat (n_broadcast_feeds pool)) (broadcast_feeds pool)))"

definition awp_compute_shard :: "awp_pool option \<Rightarrow> cstr option \<Rightarrow> cstr option \<Rightarrow> u32 \<Rightarrow> u32" where
  "awp_compute_shard po feed symbol flags =
     (case po of
        None \<Rightarrow> 0
      | Some pool \<Rightarrow>
          if n_workers (cfg pool) = 0 then 0
          else
            let is_bc = (flags AND AWP_FRAME_BROADCAST \<noteq> 0 \<or> feed_is_broadcast pool feed)
            in if is_bc \<and> n_broadcast_workers (cfg pool) > 0
               then ucast (awp_hash_key feed (Some []) mod ucast (n_broadcast_workers (cfg pool)))
               else if n_shard_workers pool = 0 then 0
               else shard_base pool
                      + ucast (awp_hash_key feed symbol mod ucast (n_shard_workers pool)))"

section \<open>The hash as a fold over the key bytes\<close>

definition fnv1a :: "u64 \<Rightarrow> u8 list \<Rightarrow> u64" where
  "fnv1a = foldl (\<lambda>h b. (h XOR ucast b) * fnv_prime)"

lemma fnv_loop_fold: "fnv_loop h s = fnv1a h (content s)"
  by (induction h s rule: fnv_loop.induct) (auto simp: fnv1a_def content_def)

text \<open>The key hash is FNV-1a over the bytes of the feed, the separator 0x1F and the bytes of
  the symbol; a NULL label counts as the empty one.\<close>

theorem awp_hash_key_fnv1a:
  "awp_hash_key feed symbol =
     fnv1a fnv_offset (content (or_empty feed) @ [0x1F] @ content (or_empty symbol))"
  by (simp add: awp_hash_key_def fnv_loop_fold fnv1a_def)

subsection \<open>Injectivity of the hash step\<close>

text \<open>The prime is odd, so multiplying by it can be undone modulo \<open>2 ^ 64\<close>.\<close>

lemma fnv_prime_inverse: "fnv_prime * 14886173955864302971 = 1"
  by (simp add: fnv_prime_def)

lemma mult_prime_inj: "a * fnv_prime = b * fnv_prime \<longleftrightarrow> a = b"
proof
  assume "a * fnv_prime = b * fnv_prime"
  then have "a * (fnv_prime * 14886173955864302971) = b * (fnv_prime * 14886173955864302971)"
    by (simp only: mult.assoc [symmetric])
  then show "a = b" by (simp only: fnv_prime_inverse mult_1_right)
qed simp

lemma xor_right_cancel: "(a :: u64) XOR c = b XOR c \<longleftrightarrow> a = b"
proof
  assume "a XOR c = b XOR c"
  then have "a XOR (c XOR c) = b XOR (c XOR c)" by (simp only: xor.assoc [symmetric])
  then show "a = b" by simp
qed simp

lemma ucast_u8_inj: "(ucast (a :: u8) :: u64) = ucast b \<longleftrightarrow> a = b"
proof
  assume "(ucast a :: u64) = ucast b"
  then have "unat (ucast a :: u64) = unat (ucast b :: u64)" by simp
  then show "a = b"
    using unsigned_less [of a, where 'a = nat] unsigned_less [of b, where 'a = nat]
    by (simp add: unsigned_ucast_eq take_bit_nat_eq_self unsigned_word_eqI)
qed simp

lemma fnv1a_state_inj: "fnv1a h s = fnv1a h' s \<longleftrightarrow> h = h'"
proof (induction s arbitrary: h h')
  case Nil
  then show ?case by (simp add: fnv1a_def)
next
  case (Cons b s)
  have "fnv1a h (b # s) = fnv1a h' (b # s)
      \<longleftrightarrow> (h XOR ucast b) * fnv_prime = (h' XOR ucast b) * fnv_prime"
    using Cons.IH by (simp add: fnv1a_def)
  also have "\<dots> \<longleftrightarrow> h = h'"
    by (simp only: mult_prime_inj xor_right_cancel)
  finally show ?case .
qed

lemma fnv1a_byte_differs:
  assumes "a \<noteq> b"
  shows "fnv1a h (u @ a # v) \<noteq> fnv1a h (u @ b # v)"
proof
  define g where "g = fnv1a h u"
  assume "fnv1a h (u @ a # v) = fnv1a h (u @ b # v)"
  then have "fnv1a ((g XOR ucast a) * fnv_prime) v = fnv1a ((g XOR ucast b) * fnv_prime) v"
    by (simp add: fnv1a_def g_def)
  then have "g XOR ucast a = g XOR ucast b"
    by (simp only: fnv1a_state_inj mult_prime_inj)
  then have "(ucast a :: u64) = ucast b"
    by (simp only: xor.commute [of g] xor_right_cancel)
  with assms show False by (simp only: ucast_u8_inj)
qed

text \<open>Two symbols of one feed that differ in a single byte never hash to the same key.\<close>

theorem awp_hash_key_byte_differs:
  assumes "content s = u @ a # v" and "content s' = u @ b # v" and "a \<noteq> b"
  shows "awp_hash_key feed (Some s) \<noteq> awp_hash_key feed (Some s')"
  using fnv1a_byte_differs [OF assms(3), of fnv_offset "content (or_empty feed) @ [0x1F] @ u" v]
  by (simp add: awp_hash_key_def fnv_loop_fold fnv1a_def or_empty_def assms(1,2))

theorem awp_hash_key_byte_differs_witness:
  "awp_hash_key (Some [116]) (Some [66, 84, 67, 0]) \<noteq> awp_hash_key (Some [116]) (Some [69, 84, 67, 0])"
  by (rule awp_hash_key_byte_differs [of _ "[]" 66 "[84, 67]" _ 69]) (simp_all add: content_def)

section \<open>Where traffic lands\<close>

text \<open>The worker map as \<open>awp_pool_create\<close> sets it up.\<close>

definition wf_shard_map :: "awp_pool \<Rightarrow> bool" where
  "wf_shard_map pool \<longleftrightarrow>
     n_broadcast_workers (cfg pool) < n_workers (cfg pool)
     \<and> shard_base pool = n_broadcast_workers (cfg pool)
     \<and> n_shard_workers pool = n_workers (cfg pool) - n_broadcast_workers (cfg pool)"

definition is_broadcast :: "awp_pool \<Rightarrow> cstr option \<Rightarrow> u32 \<Rightarrow> bool" where
  "is_broadcast pool feed flags \<longleftrightarrow>
     (flags AND AWP_FRAME_BROADCAST \<noteq> 0 \<or> feed_is_broadcast pool feed)
     \<and> n_broadcast_workers (cfg pool) > 0"

lemma unat_ucast_mod32:
  assumes "n \<noteq> (0 :: u32)"
  shows "unat (ucast (h mod ucast n :: u64) :: u32) = unat h mod unat n"
proof -
  have "unat h mod unat n < unat n" using assms by (simp add: unat_gt_0)
  also note unat_lt32
  finally show ?thesis
    by (simp add: unat_ucast_down32 unat_mod)
qed

lemma compute_shard_cases:
  assumes "wf_shard_map pool"
  shows "if is_broadcast pool feed flags
         then unat (awp_compute_shard (Some pool) feed symbol flags)
                < unat (n_broadcast_workers (cfg pool))
         else unat (n_broadcast_workers (cfg pool))
                \<le> unat (awp_compute_shard (Some pool) feed symbol flags)
              \<and> unat (awp_compute_shard (Some pool) feed symbol flags)
                < unat (n_workers (cfg pool))"
proof -
  define b where "b = n_broadcast_workers (cfg pool)"
  define n where "n = n_workers (cfg pool)"
  define h where "h = awp_hash_key feed symbol"
  have lt: "unat b < unat n" and map: "shard_base pool = b" "n_shard_workers pool = n - b"
    using assms by (auto simp: wf_shard_map_def b_def n_def word_less_nat_alt)
  have nz: "n - b \<noteq> 0" "n \<noteq> 0" using lt by (auto simp: unat_gt_0 [symmetric])
  have u: "unat (n - b) = unat n - unat b" using lt by (simp add: unat_sub word_le_nat_alt)
  have um: "unat (ucast (h mod ucast (n - b)) :: u32) = unat h mod (unat n - unat b)"
    using unat_ucast_mod32 [OF nz(1), of h] by (simp only: u)
  have m: "unat h mod (unat n - unat b) < unat n - unat b" using lt by simp
  have "unat b + unat h mod (unat n - unat b) < unat n" using m by linarith
  moreover have "unat n < 2 ^ 32" by (rule unat_lt32)
  ultimately have "unat (b + ucast (h mod ucast (n - b))) = unat b + unat h mod (unat n - unat b)"
    by (subst unat_add_lem [THEN iffD1]) (simp_all add: um)
  then have sym: "unat b \<le> unat (b + ucast (h mod ucast (n - b)))"
      "unat (b + ucast (h mod ucast (n - b))) < unat n"
    using m by simp_all
  show ?thesis
  proof (cases "is_broadcast pool feed flags")
    case True
    then have "b \<noteq> 0" by (auto simp: is_broadcast_def b_def)
    with True show ?thesis
      using nz by (simp add: awp_compute_shard_def is_broadcast_def unat_ucast_mod32 unat_gt_0
          flip: b_def n_def)
  next
    case False
    then show ?thesis
      using nz sym
      by (auto simp add: awp_compute_shard_def is_broadcast_def map Let_def simp flip: b_def n_def h_def)
  qed
qed

lemma shard_lt:
  assumes "wf_shard_map pool"
  shows "awp_compute_shard (Some pool) feed symbol flags < n_workers (cfg pool)"
  using compute_shard_cases [OF assms, of feed flags symbol] assms
  by (auto simp: wf_shard_map_def word_less_nat_alt split: if_splits)

text \<open>C25. Every frame goes to an existing worker: broadcast traffic to the dedicated workers
  \<open>[0, n_broadcast_workers)\<close>, all other traffic to \<open>[n_broadcast_workers, n_workers)\<close>.\<close>

theorem awp_compute_shard_range:
  assumes "wf_shard_map pool"
  shows "if is_broadcast pool feed flags
         then unat (awp_compute_shard (Some pool) feed symbol flags)
                < unat (n_broadcast_workers (cfg pool))
         else unat (n_broadcast_workers (cfg pool))
                \<le> unat (awp_compute_shard (Some pool) feed symbol flags)
              \<and> unat (awp_compute_shard (Some pool) feed symbol flags)
                < unat (n_workers (cfg pool))"
  by (rule compute_shard_cases [OF assms])

text \<open>The worker depends on the labels' contents only, so equal keys share a worker.\<close>

lemma feed_is_broadcast_content:
  "content f = content f' \<Longrightarrow> feed_is_broadcast pool (Some f) = feed_is_broadcast pool (Some f')"
  by (simp add: feed_is_broadcast_def streq_def)

text \<open>The worker of a frame is a function of the label contents: two submits with equal feed
  and symbol strings and equal flags go to the same worker, wherever the strings are stored
  and whatever follows their terminators.\<close>

theorem awp_compute_shard_stable:
  assumes "content feed = content feed'" and "content symbol = content symbol'"
  shows "awp_compute_shard po (Some feed) (Some symbol) flags
       = awp_compute_shard po (Some feed') (Some symbol') flags"
  using assms feed_is_broadcast_content [OF assms(1)]
  by (simp add: awp_compute_shard_def awp_hash_key_def fnv_loop_fold or_empty_def
      split: option.split)

text \<open>A pool of eight workers, two of them dedicated to the feed \<open>mark\<close>.\<close>

definition demo_cfg :: awp_config where
  "demo_cfg =
     \<lparr>n_workers = 8, queue_capacity = 256, frame_pool_size = 2048, ring_mode = AWP_RING_MPSC,
      shutdown_deadline_ms = 10000, supervisor_interval_ms = 500, stall_threshold_ms = 5000,
      enable_supervisor = True, enable_restart = True, cfg_process = True, cfg_on_error = False,
      n_broadcast_workers = 2, cfg_broadcast_feeds = Some [[109, 97, 114, 107, 0]]\<rparr>"

definition demo_frames :: awp_frame_pool where
  "demo_frames = \<lparr>p_slab = [], p_base = 0, p_next = [], p_head = 0, p_size = 0,
     p_closed = False, p_lock_free_ok = True, p_waiters = 0, p_cv = []\<rparr>"

definition demo_pool :: awp_pool where
  "demo_pool =
     \<lparr>cfg = demo_cfg, workers = [], frames = demo_frames, submitted = 0, dropped = 0,
      process_errors = 0, shutdown_aborts = 0, seq = 0, abandoned = 0,
      lifecycle = AWP_LIFE_RUNNING, active_submits = 0, api_refs = 0, shutdown_waiters = 0,
      supervisor_stop = False, supervisor_alive = False, supervisor_phase = 0,
      supervisor_joined = True, supervisor_started = False, quarantined = False,
      destroy_started = False, metrics_buf = [],
      broadcast_feeds = [Some [109, 97, 114, 107, 0]], n_broadcast_feeds = 1,
      shard_base = 2, n_shard_workers = 6\<rparr>"

theorem awp_compute_shard_range_witness:
  "unat (awp_compute_shard (Some demo_pool) (Some [109, 97, 114, 107, 0]) None 0) < 2
   \<and> 2 \<le> unat (awp_compute_shard (Some demo_pool) (Some [116, 0]) (Some [66, 0]) 0)"
proof -
  have wf: "wf_shard_map demo_pool"
    by (simp add: wf_shard_map_def demo_pool_def demo_cfg_def)
  have "is_broadcast demo_pool (Some [109, 97, 114, 107, 0]) 0"
    and "\<not> is_broadcast demo_pool (Some [116, 0]) 0"
    by (simp_all add: is_broadcast_def feed_is_broadcast_def demo_pool_def demo_cfg_def
        streq_def content_def AWP_FRAME_BROADCAST_def)
  then show ?thesis
    using awp_compute_shard_range [OF wf, of "Some [109, 97, 114, 107, 0]" 0 None]
      awp_compute_shard_range [OF wf, of "Some [116, 0]" 0 "Some [66, 0]"]
    by (simp add: demo_pool_def demo_cfg_def)
qed

theorem awp_compute_shard_stable_witness:
  "awp_compute_shard (Some demo_pool) (Some [116, 0, 1]) (Some [66, 0, 2]) 0
   = awp_compute_shard (Some demo_pool) (Some [116, 0, 7]) (Some [66, 0, 8]) 0"
  by (rule awp_compute_shard_stable) (simp_all add: content_def)

end
