(* ===== verification/Pool_State.thy ===== *)
theory Pool_State
  imports Ring_Spec Frame_Pool Shard
begin

text \<open>
  What the pool's operations share: access to a worker and its queue, the API reference count,
  the sticky quarantine flag and the lifecycle field (\<open>src/internal.h\<close>, the static helpers of
  \<open>src/pool.c\<close>), and waiting on a worker's queue while the rest of the pool moves.

  A pool operation runs beside the producers, the workers, the supervisor and other callers.
  A \<open>world\<close> says what they do: \<open>v_act W t\<close> is the effect of all other threads on the pool before
  the operation's \<open>t\<close>-th look at it, \<open>v_clk\<close> the monotonic clock, \<open>v_cas\<close> whether a weak
  compare-and-exchange succeeds, and \<open>v_frames\<close> the other threads' effect on the frame pool
  during a call into it. Every poll of a loop takes one unit of time. Loops that wait for other
  threads are partial functions with the value \<^term>\<open>None\<close> when they never end.
\<close>

record world =
  v_act :: "nat \<Rightarrow> awp_pool \<Rightarrow> awp_pool"
  v_clk :: "nat \<Rightarrow> u64"
  v_cas :: "nat \<Rightarrow> bool"
  v_frames :: pool_env

section \<open>Workers and queues\<close>

definition worker :: "awp_pool \<Rightarrow> nat \<Rightarrow> awp_worker" where
  "worker pool i = workers pool ! i"

definition upd_worker :: "nat \<Rightarrow> (awp_worker \<Rightarrow> awp_worker) \<Rightarrow> awp_pool \<Rightarrow> awp_pool" where
  "upd_worker i f pool = pool\<lparr>workers := (workers pool)[i := f (workers pool ! i)]\<rparr>"

abbreviation queue :: "awp_pool \<Rightarrow> nat \<Rightarrow> awp_ring" where
  "queue pool i \<equiv> w_queue (worker pool i)"

definition upd_queue :: "nat \<Rightarrow> (awp_ring \<Rightarrow> awp_ring) \<Rightarrow> awp_pool \<Rightarrow> awp_pool" where
  "upd_queue i f = upd_worker i (\<lambda>w. w\<lparr>w_queue := f (w_queue w)\<rparr>)"

abbreviation n_wk :: "awp_pool \<Rightarrow> nat" where
  "n_wk pool \<equiv> unat (n_workers (cfg pool))"

lemma worker_upd:
  "i < length (workers pool) \<Longrightarrow>
     worker (upd_worker i f pool) j = (if j = i then f (worker pool i) else worker pool j)"
  by (simp add: worker_def upd_worker_def)

lemma upd_worker_fields [simp]:
  "length (workers (upd_worker i f pool)) = length (workers pool)"
  "cfg (upd_worker i f pool) = cfg pool" "frames (upd_worker i f pool) = frames pool"
  "submitted (upd_worker i f pool) = submitted pool" "dropped (upd_worker i f pool) = dropped pool"
  "process_errors (upd_worker i f pool) = process_errors pool"
  "shutdown_aborts (upd_worker i f pool) = shutdown_aborts pool"
  "seq (upd_worker i f pool) = seq pool" "abandoned (upd_worker i f pool) = abandoned pool"
  "lifecycle (upd_worker i f pool) = lifecycle pool"
  "active_submits (upd_worker i f pool) = active_submits pool"
  "api_refs (upd_worker i f pool) = api_refs pool"
  "shutdown_waiters (upd_worker i f pool) = shutdown_waiters pool"
  "supervisor_stop (upd_worker i f pool) = supervisor_stop pool"
  "supervisor_alive (upd_worker i f pool) = supervisor_alive pool"
  "supervisor_phase (upd_worker i f pool) = supervisor_phase pool"
  "supervisor_joined (upd_worker i f pool) = supervisor_joined pool"
  "supervisor_started (upd_worker i f pool) = supervisor_started pool"
  "quarantined (upd_worker i f pool) = quarantined pool"
  "destroy_started (upd_worker i f pool) = destroy_started pool"
  by (simp_all add: upd_worker_def)

lemma upd_queue_fields [simp]:
  "length (workers (upd_queue i f pool)) = length (workers pool)"
  "cfg (upd_queue i f pool) = cfg pool" "frames (upd_queue i f pool) = frames pool"
  "submitted (upd_queue i f pool) = submitted pool" "dropped (upd_queue i f pool) = dropped pool"
  "process_errors (upd_queue i f pool) = process_errors pool"
  "shutdown_aborts (upd_queue i f pool) = shutdown_aborts pool"
  "seq (upd_queue i f pool) = seq pool" "abandoned (upd_queue i f pool) = abandoned pool"
  "lifecycle (upd_queue i f pool) = lifecycle pool"
  "active_submits (upd_queue i f pool) = active_submits pool"
  "api_refs (upd_queue i f pool) = api_refs pool"
  "shutdown_waiters (upd_queue i f pool) = shutdown_waiters pool"
  "supervisor_stop (upd_queue i f pool) = supervisor_stop pool"
  "supervisor_alive (upd_queue i f pool) = supervisor_alive pool"
  "supervisor_phase (upd_queue i f pool) = supervisor_phase pool"
  "supervisor_joined (upd_queue i f pool) = supervisor_joined pool"
  "supervisor_started (upd_queue i f pool) = supervisor_started pool"
  "quarantined (upd_queue i f pool) = quarantined pool"
  "destroy_started (upd_queue i f pool) = destroy_started pool"
  by (simp_all add: upd_queue_def)

lemma queue_upd:
  "i < length (workers pool) \<Longrightarrow>
     queue (upd_queue i f pool) j = (if j = i then f (queue pool i) else queue pool j)"
  by (simp add: upd_queue_def worker_upd)

section \<open>Reference count, quarantine, lifecycle\<close>

definition awp_api_enter :: "awp_pool \<Rightarrow> awp_pool" where
  "awp_api_enter pool = pool\<lparr>api_refs := api_refs pool + 1\<rparr>"

definition awp_api_leave :: "awp_pool \<Rightarrow> awp_pool" where
  "awp_api_leave pool = pool\<lparr>api_refs := api_refs pool - 1\<rparr>"

definition awp_pool_mark_quarantined :: "awp_pool \<Rightarrow> awp_pool" where
  "awp_pool_mark_quarantined pool =
     (let pool = pool\<lparr>quarantined := True\<rparr>
      in case awp_frame_pool_close (Some (frames pool)) of
           Some fp \<Rightarrow> pool\<lparr>frames := fp\<rparr>
         | None \<Rightarrow> pool)"

definition set_life :: "awp_lifecycle \<Rightarrow> awp_pool \<Rightarrow> awp_pool" where
  "set_life life pool = pool\<lparr>lifecycle := life\<rparr>"

definition any_worker_quarantined :: "awp_pool \<Rightarrow> bool" where
  "any_worker_quarantined pool \<longleftrightarrow>
     list_ex (\<lambda>i. w_state (worker pool i) = AWP_W_QUARANTINED) [0..<n_wk pool]"

text \<open>The local counter of the caller is the first component.\<close>

definition note_abort :: "int \<times> awp_pool \<Rightarrow> int \<times> awp_pool" where
  "note_abort = (\<lambda>(aborts, pool). (aborts + 1, pool\<lparr>shutdown_aborts := shutdown_aborts pool + 1\<rparr>))"

definition persist_quarantine_abort :: "awp_pool \<Rightarrow> awp_pool" where
  "persist_quarantine_abort pool =
     (if \<not> quarantined pool then pool
      else if shutdown_aborts pool = 0 then pool\<lparr>shutdown_aborts := 1\<rparr> else pool)"

text \<open>\<open>(int)\<close> of a 64-bit counter.\<close>

definition to_int :: "u64 \<Rightarrow> int" where
  "to_int n = sint (ucast n :: 32 word)"

lemma mark_quarantined_fields [simp]:
  "quarantined (awp_pool_mark_quarantined pool)"
  "p_closed (frames (awp_pool_mark_quarantined pool))"
  "cfg (awp_pool_mark_quarantined pool) = cfg pool"
  "workers (awp_pool_mark_quarantined pool) = workers pool"
  "worker (awp_pool_mark_quarantined pool) = worker pool"
  "lifecycle (awp_pool_mark_quarantined pool) = lifecycle pool"
  "active_submits (awp_pool_mark_quarantined pool) = active_submits pool"
  "api_refs (awp_pool_mark_quarantined pool) = api_refs pool"
  "shutdown_aborts (awp_pool_mark_quarantined pool) = shutdown_aborts pool"
  "shutdown_waiters (awp_pool_mark_quarantined pool) = shutdown_waiters pool"
  "supervisor_joined (awp_pool_mark_quarantined pool) = supervisor_joined pool"
  "supervisor_started (awp_pool_mark_quarantined pool) = supervisor_started pool"
  "supervisor_stop (awp_pool_mark_quarantined pool) = supervisor_stop pool"
  "destroy_started (awp_pool_mark_quarantined pool) = destroy_started pool"
  by (simp_all add: awp_pool_mark_quarantined_def awp_frame_pool_close_def worker_def fun_eq_iff)

section \<open>Waiting on a queue\<close>

text \<open>\<open>awp_ring_wait_space\<close> on the queue of worker \<open>i\<close>, in the pool.\<close>

partial_function (option) queue_park ::
  "world \<Rightarrow> nat \<Rightarrow> nat \<Rightarrow> nat \<Rightarrow> awp_pool \<Rightarrow> (nat \<times> awp_pool) option" where
  "queue_park W me i t pool =
     (if me \<in> set (r_cv (queue pool i)) then queue_park W me i (Suc t) (v_act W t pool)
      else Some (t, pool))"

partial_function (option) queue_wait ::
  "(awp_ring \<Rightarrow> bool) \<Rightarrow> world \<Rightarrow> nat \<Rightarrow> nat \<Rightarrow> nat \<Rightarrow> awp_pool \<Rightarrow> (nat \<times> awp_pool) option" where
  "queue_wait must_wait W me i t pool =
     (if must_wait (queue pool i)
      then do { (t', pool') \<leftarrow> queue_park W me i t (upd_queue i (\<lambda>r. r\<lparr>r_cv := me # r_cv r\<rparr>) pool);
                queue_wait must_wait W me i t' pool' }
      else Some (t, pool))"

definition queue_wait_for ::
  "(awp_ring \<Rightarrow> bool) \<Rightarrow> world \<Rightarrow> nat \<Rightarrow> nat \<Rightarrow> nat \<Rightarrow> awp_pool \<Rightarrow> (nat \<times> awp_pool) option" where
  "queue_wait_for must_wait W me i t pool =
     do { (t', pool') \<leftarrow> queue_wait must_wait W me i t
            (upd_queue i (\<lambda>r. r\<lparr>r_waiters := r_waiters r + 1\<rparr>) pool);
          Some (t', upd_queue i (\<lambda>r. r\<lparr>r_waiters := r_waiters r - 1\<rparr>) pool') }"

text \<open>A property of pools that neither the other threads nor the bookkeeping of a wait disturbs.\<close>

definition stable :: "world \<Rightarrow> nat \<Rightarrow> (awp_pool \<Rightarrow> bool) \<Rightarrow> bool" where
  "stable W i I \<longleftrightarrow>
     (\<forall>t pool. I pool \<longrightarrow> I (v_act W t pool))
     \<and> (\<forall>pool v. I pool \<longrightarrow> I (upd_queue i (\<lambda>r. r\<lparr>r_cv := v r\<rparr>) pool))
     \<and> (\<forall>pool w. I pool \<longrightarrow> I (upd_queue i (\<lambda>r. r\<lparr>r_waiters := w r\<rparr>) pool))"

lemma queue_park_stable:
  assumes "queue_park W me i t pool = Some y" and "stable W i I" and "I pool"
  shows "I (snd y)"
proof -
  have "stable W i I \<longrightarrow> I pool \<longrightarrow> I (snd y)"
  proof (rule queue_park.raw_induct
      [where P = "\<lambda>W me i t pool y. stable W i I \<longrightarrow> I pool \<longrightarrow> I (snd y)", OF _ assms(1)])
    fix loop W me i t pool and y :: "nat \<times> awp_pool"
    assume IH: "\<And>W me i t pool y. loop W me i t pool = Some y \<Longrightarrow> stable W i I \<longrightarrow> I pool \<longrightarrow> I (snd y)"
      and eq: "(if me \<in> set (r_cv (queue pool i)) then loop W me i (Suc t) (v_act W t pool)
        else Some (t, pool)) = Some y"
    show "stable W i I \<longrightarrow> I pool \<longrightarrow> I (snd y)"
      using IH [of W me i "Suc t" "v_act W t pool" y] eq by (auto simp: stable_def split: if_splits)
  qed
  with assms(2,3) show ?thesis by blast
qed

lemma queue_wait_stable:
  assumes "queue_wait mw W me i t pool = Some y" and "stable W i I" and "I pool"
  shows "I (snd y)"
proof -
  have "stable W i I \<longrightarrow> I pool \<longrightarrow> I (snd y)"
  proof (rule queue_wait.raw_induct
      [where P = "\<lambda>mw W me i t pool y. stable W i I \<longrightarrow> I pool \<longrightarrow> I (snd y)", OF _ assms(1)])
    fix loop and mw :: "awp_ring \<Rightarrow> bool" and W me i t pool and y :: "nat \<times> awp_pool"
    assume IH: "\<And>mw W me i t pool y. loop mw W me i t pool = Some y \<Longrightarrow> stable W i I \<longrightarrow> I pool \<longrightarrow> I (snd y)"
      and eq: "(if mw (queue pool i)
        then do { (t', pool') \<leftarrow> queue_park W me i t (upd_queue i (\<lambda>r. r\<lparr>r_cv := me # r_cv r\<rparr>) pool);
                  loop mw W me i t' pool' }
        else Some (t, pool)) = Some y"
    show "stable W i I \<longrightarrow> I pool \<longrightarrow> I (snd y)"
    proof (intro impI)
      assume S: "stable W i I" and p: "I pool"
      show "I (snd y)"
      proof (cases "mw (queue pool i)")
        case True
        then obtain t1 p1 where
          k: "queue_park W me i t (upd_queue i (\<lambda>r. r\<lparr>r_cv := me # r_cv r\<rparr>) pool) = Some (t1, p1)"
          and l: "loop mw W me i t1 p1 = Some y"
          using eq by (auto simp: bind_eq_Some_conv)
        have "I (snd (t1, p1))" by (rule queue_park_stable [OF k S]) (use S p in \<open>simp add: stable_def\<close>)
        then show ?thesis using IH [OF l] S by simp
      qed (use eq p in auto)
    qed
  qed
  with assms(2,3) show ?thesis by blast
qed

lemma queue_wait_for_stable:
  assumes "queue_wait_for mw W me i t pool = Some (t', pool')" and "stable W i I" and "I pool"
  shows "I pool'"
proof -
  obtain p1 where w: "queue_wait mw W me i t (upd_queue i (\<lambda>r. r\<lparr>r_waiters := r_waiters r + 1\<rparr>) pool) = Some (t', p1)"
    and p': "pool' = upd_queue i (\<lambda>r. r\<lparr>r_waiters := r_waiters r - 1\<rparr>) p1"
    using assms(1) by (auto simp: queue_wait_for_def bind_eq_Some_conv)
  have "I (snd (t', p1))"
    by (rule queue_wait_stable [OF w assms(2)]) (use assms(2,3) in \<open>simp add: stable_def\<close>)
  then show ?thesis using assms(2) p' by (simp add: stable_def)
qed

section \<open>Polling loops\<close>

text \<open>A property of pools that the other threads keep.\<close>

definition keeps :: "world \<Rightarrow> (awp_pool \<Rightarrow> bool) \<Rightarrow> bool" where
  "keeps W I \<longleftrightarrow> (\<forall>t p. I p \<longrightarrow> I (v_act W t p))"

lemma keepsD: "keeps W I \<Longrightarrow> I p \<Longrightarrow> I (v_act W t p)"
  by (simp add: keeps_def)

text \<open>
  The contract of the loops that look at the pool, sleep and look again: \<open>stop t p\<close> is the result
  of a look at time \<open>t\<close> that ends the loop. If every look from some time on ends it, the loop
  returns, with an invariant of the other threads intact.
\<close>

locale poll_loop =
  fixes W :: world and loop :: "nat \<Rightarrow> awp_pool \<Rightarrow> 'r option" and stop :: "nat \<Rightarrow> awp_pool \<Rightarrow> 'r option"
  assumes look: "loop t p = (case stop t (v_act W t p) of Some r \<Rightarrow> Some r | None \<Rightarrow> loop (Suc t) (v_act W t p))"
begin

lemma returns:
  assumes "keeps W I" and "\<And>t p. n \<le> t \<Longrightarrow> stop t (v_act W t p) \<noteq> None" and "I p"
  shows "\<exists>r u q. loop t p = Some r \<and> t \<le> u \<and> I q \<and> stop u q = Some r"
  using assms(3)
proof (induction "n - t" arbitrary: t p)
  case 0
  then obtain r where "stop t (v_act W t p) = Some r" using assms(2) [of t p] by auto
  then show ?case using keepsD [OF assms(1) 0(2)] by (subst look) auto
next
  case (Suc k)
  have I: "I (v_act W t p)" by (rule keepsD [OF assms(1) Suc.prems])
  have k: "k = n - Suc t" using Suc.hyps(2) by simp
  show ?case
  proof (cases "stop t (v_act W t p)")
    case None
    then show ?thesis using Suc.hyps(1) [OF k I] by (subst look) (auto dest: Suc_leD)
  next
    case (Some r)
    then show ?thesis using I by (subst look) auto
  qed
qed

end

end
