(* ===== verification/Submit.thy ===== *)
theory Submit
  imports Pool_State
begin

text \<open>
  The producers' side of \<open>src/pool.c\<close>: \<open>awp_submit\<close>, the two-phase \<open>awp_claim_frame\<close> and
  \<open>awp_commit_frame\<close>, \<open>awp_submit_keyed\<close>, and \<open>awp_shard_of\<close> of \<open>src/shard.c\<close>. A reservation
  and the writes to the reserved slot are one step here: the slot belongs to the producer from
  the compare-and-exchange to the publication (theory \<open>Ring_Conc\<close>). \<open>in_cb\<close> is the
  thread-local \<open>awp_tls_in_callback\<close> of the calling thread.
\<close>

section \<open>Writing a frame\<close>

text \<open>\<open>memcpy(buf, s, n); buf[n] = 0\<close>.\<close>

definition put_label :: "u8 list \<Rightarrow> cstr \<Rightarrow> u64 \<Rightarrow> u8 list" where
  "put_label buf s n = (memcpy buf s (unat n))[unat n := 0]"

definition write_frame ::
  "cstr \<Rightarrow> cstr \<Rightarrow> u8 list \<Rightarrow> u64 \<Rightarrow> u32 \<Rightarrow> u64 \<Rightarrow> u64 \<Rightarrow> u32 \<Rightarrow> awp_frame \<Rightarrow> awp_frame" where
  "write_frame feed symbol payload payload_len flags sq submit_ns shard f =
     f\<lparr>f_feed := put_label (f_feed f) feed (strlen feed),
       f_symbol := put_label (f_symbol f) symbol (strlen symbol),
       f_payload := (if payload_len > 0 then memcpy (f_payload f) payload (unat payload_len)
                     else f_payload f),
       f_payload_len := payload_len, f_flags := flags, f_seq := sq, f_submit_ns := submit_ns,
       f_shard := shard\<rparr>"

definition upd_frame :: "u64 \<Rightarrow> (awp_frame \<Rightarrow> awp_frame) \<Rightarrow> awp_ring \<Rightarrow> awp_ring" where
  "upd_frame pos g r =
     r\<lparr>r_frames := (r_frames r)[ring_index r pos := g (r_frames r ! ring_index r pos)]\<rparr>"

text \<open>The pool refuses new work.\<close>

definition not_admitting :: "awp_pool \<Rightarrow> bool" where
  "not_admitting pool \<longleftrightarrow>
     lifecycle pool \<noteq> AWP_LIFE_RUNNING \<or> quarantined pool \<or> destroy_started pool"

section \<open>\<open>awp_submit\<close>\<close>

definition submit_begin :: "awp_pool \<Rightarrow> awp_pool" where
  "submit_begin pool = pool\<lparr>active_submits := active_submits pool + 1\<rparr>"

definition submit_end :: "awp_pool \<Rightarrow> awp_pool" where
  "submit_end pool = awp_api_leave (pool\<lparr>active_submits := active_submits pool - 1\<rparr>)"

datatype submit_pass = Failed int | Stored | Full | Retry_submit

text \<open>One pass of the loop. \<open>wr\<close> writes the frame, given its sequence number.\<close>

definition submit_try ::
  "(u64 \<Rightarrow> awp_frame \<Rightarrow> awp_frame) \<Rightarrow> nat \<Rightarrow> bool \<Rightarrow> awp_pool \<Rightarrow> submit_pass \<times> awp_pool" where
  "submit_try wr i cas pool =
     (if not_admitting pool then (Failed (- EINVAL), submit_end pool)
      else
        let r = queue pool i
        in if r_closed r then (Failed (- 1), submit_end (pool\<lparr>dropped := dropped pool + 1\<rparr>))
           else
             let pos = r_enqueue_pos r;
                 dif = seq_dif (c_sequence (ring_cell r pos)) pos
             in if dif = 0
                then if cas
                     then let r = r\<lparr>r_enqueue_pos := pos + 1\<rparr>;
                              r = upd_frame pos (wr (seq pool)) r;
                              r = set_cell r pos
                                    ((ring_cell r pos)\<lparr>c_data := Some (FramePtr (r_base r) (ring_index r pos)),
                                       c_sequence := pos + 1\<rparr>)
                          in (Stored, upd_queue i (\<lambda>_. awp_ring_wake_if_needed r)
                                        (pool\<lparr>seq := seq pool + 1\<rparr>))
                     else (Retry_submit, pool)
                else if dif < 0 then (Full, pool) else (Retry_submit, pool))"

text \<open>Result: the return code or, once stored, the time spent blocked.\<close>

partial_function (option) submit_loop ::
  "(u64 \<Rightarrow> awp_frame \<Rightarrow> awp_frame) \<Rightarrow> world \<Rightarrow> nat \<Rightarrow> nat \<Rightarrow> nat \<Rightarrow> u64 \<Rightarrow> nat \<Rightarrow> awp_pool
     \<Rightarrow> ((int + u64) \<times> nat \<times> awp_pool) option" where
  "submit_loop wr W me i spin blocked t pool =
     (case submit_try wr i (v_cas W t) (v_act W t pool) of
        (Failed rc, pool) \<Rightarrow> Some (Inl rc, Suc t, pool)
      | (Stored, pool) \<Rightarrow> Some (Inr blocked, Suc t, pool)
      | (Retry_submit, pool) \<Rightarrow> submit_loop wr W me i spin blocked (Suc t) pool
      | (Full, pool) \<Rightarrow>
          if spin < 64 then submit_loop wr W me i (Suc spin) blocked (Suc t) pool
          else do { (t', pool') \<leftarrow> queue_wait_for full_to_wait W me i (Suc t)
                      (upd_worker i (\<lambda>w. w\<lparr>w_enqueue_blocks := w_enqueue_blocks w + 1\<rparr>) pool);
                    submit_loop wr W me i 0 (blocked + (v_clk W t' - v_clk W t)) t' pool' })"

partial_function (option) hwm_loop ::
  "world \<Rightarrow> nat \<Rightarrow> u32 \<Rightarrow> nat \<Rightarrow> awp_pool \<Rightarrow> (nat \<times> awp_pool) option" where
  "hwm_loop W i depth t pool0 =
     (let pool = v_act W t pool0
      in if ucast depth > w_queue_hwm (worker pool i)
         then if v_cas W t then Some (Suc t, upd_worker i (\<lambda>w. w\<lparr>w_queue_hwm := ucast depth\<rparr>) pool)
              else hwm_loop W i depth (Suc t) pool
         else Some (Suc t, pool))"

definition awp_submit ::
  "world \<Rightarrow> bool \<Rightarrow> nat \<Rightarrow> nat \<Rightarrow> awp_pool option \<Rightarrow> cstr option \<Rightarrow> cstr option \<Rightarrow> u8 list option
     \<Rightarrow> u64 \<Rightarrow> u32 \<Rightarrow> (int \<times> nat \<times> awp_pool option) option" where
  "awp_submit W in_cb me t po feedo symbolo payload payload_len flags =
     (case po of
        None \<Rightarrow> Some (- EINVAL, t, None)
      | Some pool0 \<Rightarrow>
          if in_cb then Some (- EDEADLK, t, po)
          else
            let pool = awp_api_enter pool0;
                feed = or_empty feedo; symbol = or_empty symbolo;
                flen = strlen feed; slen = strlen symbol
            in if flen > AWP_FEED_MAX \<or> slen > AWP_SYMBOL_MAX then Some (- E2BIG, t, Some (awp_api_leave pool))
               else if payload_len > AWP_PAYLOAD_MAX then Some (- E2BIG, t, Some (awp_api_leave pool))
               else if payload_len > 0 \<and> payload = None then Some (- EINVAL, t, Some (awp_api_leave pool))
               else
                 let pool = submit_begin (v_act W t pool)
                 in if not_admitting pool then Some (- EINVAL, Suc t, Some (submit_end pool))
                    else
                      let shard = awp_compute_shard (Some pool) (Some feed) (Some symbol) flags;
                          shard = (if shard \<ge> n_workers (cfg pool) then shard mod n_workers (cfg pool) else shard);
                          i = unat shard;
                          bytes = (case payload of None \<Rightarrow> [] | Some b \<Rightarrow> b);
                          wr = (\<lambda>sq. write_frame feed symbol bytes payload_len flags sq (v_clk W t) shard)
                      in do { (res, t, pool) \<leftarrow> submit_loop wr W me i 0 0 (Suc t) pool;
                              case res of
                                Inl rc \<Rightarrow> Some (rc, t, Some pool)
                              | Inr blocked \<Rightarrow>
                                  let pool = (if blocked > 0
                                        then upd_worker i (\<lambda>w. w\<lparr>w_blocked_ns := w_blocked_ns w + blocked\<rparr>) pool
                                        else pool)
                                  in do { (t, pool) \<leftarrow> hwm_loop W i (awp_ring_depth (queue pool i)) t pool;
                                          Some (0, t, Some (submit_end (pool\<lparr>submitted := submitted pool + 1\<rparr>))) } })"

section \<open>Claim and commit\<close>

definition awp_claim_frame ::
  "world \<Rightarrow> bool \<Rightarrow> nat \<Rightarrow> awp_pool option \<Rightarrow> u32 \<Rightarrow> bool \<Rightarrow> int \<times> awp_claim option \<times> awp_pool option" where
  "awp_claim_frame W in_cb t po shard0 out_claim =
     (case po of
        None \<Rightarrow> (- EINVAL, None, None)
      | Some pool0 \<Rightarrow>
          if \<not> out_claim then (- EINVAL, None, po)
          else if in_cb then (- EDEADLK, None, po)
          else
            let pool = awp_api_enter pool0
            in if not_admitting pool then (- EINVAL, None, Some (awp_api_leave pool))
               else
                 let shard = (if shard0 \<ge> n_workers (cfg pool) then shard0 mod n_workers (cfg pool) else shard0);
                     i = unat shard; r = queue pool i
                 in if r_closed r then (- 1, None, Some (awp_api_leave pool))
                    else
                      let pos = r_enqueue_pos r;
                          dif = seq_dif (c_sequence (ring_cell r pos)) pos
                      in if dif = 0
                         then if v_cas W t
                              then let r = upd_frame pos
                                             (\<lambda>f. f\<lparr>f_shard := shard, f_submit_ns := v_clk W t\<rparr>)
                                             (r\<lparr>r_enqueue_pos := pos + 1\<rparr>)
                                   in (0, Some \<lparr>cl_frame = Some (FramePtr (r_base r) (ring_index r pos)),
                                                cl_shard = shard, cl_pos = pos,
                                                cl_reserved = Some (ring_index r pos)\<rparr>,
                                       Some (upd_queue i (\<lambda>_. r) (submit_begin pool)))
                              else (- EAGAIN, None, Some (awp_api_leave pool))
                         else (- EAGAIN, None, Some (awp_api_leave pool)))"

definition awp_commit_frame :: "awp_pool option \<Rightarrow> awp_claim option \<Rightarrow> int \<times> awp_pool option" where
  "awp_commit_frame po claimo =
     (case (po, claimo) of
        (Some pool, Some claim) \<Rightarrow>
          if cl_frame claim = None then (- EINVAL, po)
          else if cl_shard claim \<ge> n_workers (cfg pool) then (- EINVAL, po)
          else
            let i = unat (cl_shard claim); r = queue pool i; pos = cl_pos claim;
                k = (case cl_reserved claim of Some k \<Rightarrow> k | None \<Rightarrow> ring_index r pos);
                r = r\<lparr>r_cells := (r_cells r)[k := (r_cells r ! k)\<lparr>c_data := cl_frame claim,
                                                              c_sequence := pos + 1\<rparr>]\<rparr>;
                pool = upd_queue i (\<lambda>_. awp_ring_wake_if_needed r) pool
            in (0, Some (submit_end (pool\<lparr>submitted := submitted pool + 1\<rparr>)))
      | _ \<Rightarrow> (- EINVAL, po))"

section \<open>\<open>awp_submit_keyed\<close>\<close>

definition keyed_shard :: "awp_pool \<Rightarrow> u64 \<Rightarrow> u32" where
  "keyed_shard pool hash_key =
     (if n_shard_workers pool = 0 then 0
      else shard_base pool + ucast (hash_key mod ucast (n_shard_workers pool)))"

definition clip :: "u64 \<Rightarrow> u64 \<Rightarrow> u64" where
  "clip n m = (if n > m then m else n)"

definition keyed_write ::
  "cstr option \<Rightarrow> cstr option \<Rightarrow> u8 list option \<Rightarrow> u64 \<Rightarrow> u32 \<Rightarrow> u64 \<Rightarrow> awp_frame \<Rightarrow> awp_frame" where
  "keyed_write feed symbol payload payload_len flags sq f =
     (let f = (case feed of None \<Rightarrow> f
               | Some s \<Rightarrow> f\<lparr>f_feed := put_label (f_feed f) s (clip (strlen s) AWP_FEED_MAX)\<rparr>);
          f = (case symbol of None \<Rightarrow> f
               | Some s \<Rightarrow> f\<lparr>f_symbol := put_label (f_symbol f) s (clip (strlen s) AWP_SYMBOL_MAX)\<rparr>);
          f = (case payload of
                 Some b \<Rightarrow>
                   if payload_len > 0
                   then let plen = clip payload_len AWP_PAYLOAD_MAX
                        in f\<lparr>f_payload := memcpy (f_payload f) b (unat plen), f_payload_len := plen\<rparr>
                   else f\<lparr>f_payload_len := 0\<rparr>
               | None \<Rightarrow> f\<lparr>f_payload_len := 0\<rparr>)
      in f\<lparr>f_flags := flags, f_seq := sq\<rparr>)"

partial_function (option) keyed_loop ::
  "world \<Rightarrow> bool \<Rightarrow> nat \<Rightarrow> u32 \<Rightarrow> (u64 \<Rightarrow> awp_frame \<Rightarrow> awp_frame) \<Rightarrow> nat \<Rightarrow> nat \<Rightarrow> awp_pool
     \<Rightarrow> (int \<times> nat \<times> awp_pool option) option" where
  "keyed_loop W in_cb me shard wr spin t pool0 =
     (case awp_claim_frame W in_cb t (Some (v_act W t pool0)) shard True of
        (rc, Some claim, Some pool) \<Rightarrow>
          let pool = upd_queue (unat (cl_shard claim)) (upd_frame (cl_pos claim) (wr (seq pool))) pool;
              (rc, po) = awp_commit_frame (Some (pool\<lparr>seq := seq pool + 1\<rparr>)) (Some claim)
          in Some (rc, Suc t, po)
      | (rc, None, Some pool) \<Rightarrow>
          if rc = - 1 then Some (- 1, Suc t, Some pool)
          else if spin < 64 then keyed_loop W in_cb me shard wr (Suc spin) (Suc t) pool
          else do { (t', pool') \<leftarrow> queue_wait_for full_to_wait W me (unat shard) (Suc t) pool;
                    keyed_loop W in_cb me shard wr 0 t' pool' }
      | (rc, _, None) \<Rightarrow> Some (rc, Suc t, None))"

definition awp_submit_keyed ::
  "world \<Rightarrow> bool \<Rightarrow> nat \<Rightarrow> nat \<Rightarrow> awp_pool option \<Rightarrow> u64 \<Rightarrow> cstr option \<Rightarrow> cstr option \<Rightarrow> u8 list option
     \<Rightarrow> u64 \<Rightarrow> u32 \<Rightarrow> (int \<times> nat \<times> awp_pool option) option" where
  "awp_submit_keyed W in_cb me t po hash_key feed symbol payload payload_len flags =
     (case po of
        None \<Rightarrow> Some (- EINVAL, t, None)
      | Some pool \<Rightarrow>
          keyed_loop W in_cb me (keyed_shard pool hash_key)
            (keyed_write feed symbol payload payload_len flags) 0 t pool)"

section \<open>\<open>awp_shard_of\<close>\<close>

definition awp_shard_of :: "awp_pool option \<Rightarrow> cstr option \<Rightarrow> cstr option \<Rightarrow> u32 \<Rightarrow> u32 \<times> awp_pool option" where
  "awp_shard_of po feed symbol flags =
     (case po of
        None \<Rightarrow> (0, None)
      | Some pool \<Rightarrow>
          let pool = awp_api_enter pool; s = awp_compute_shard (Some pool) feed symbol flags
          in (s, Some (awp_api_leave pool)))"

end
