(* ===== verification/Submit_Spec.thy ===== *)
theory Submit_Spec
  imports Submit
begin

text \<open>
  What the producers' operations of theory \<open>Submit\<close> do. \<open>queue_wf\<close> and \<open>pool_wf\<close> are the
  invariants of a worker's queue and of the pool, \<open>queued\<close> the frames waiting in a queue. The
  properties cover the delivery of accepted frames, every refusal, the two phases of a claim, the
  keyed path and its agreement with \<open>awp_submit\<close>, and two behaviours that the interface does not
  promise: a keyed submit that never returns and a frame that is overwritten during processing.
\<close>

section \<open>Queues and their frames\<close>

text \<open>A worker's queue as the pool uses it: a well-formed ring in which a published slot points
  to the frame of the slab that has the slot's own index.\<close>

definition queue_wf :: "awp_ring \<Rightarrow> bool" where
  "queue_wf r \<longleftrightarrow>
     ring_ok r \<and> length (r_frames r) = ring_cap r \<and> (\<forall>f \<in> set (r_frames r). wf_frame f)
     \<and> (\<forall>j<ring_len r. slot r j = None \<or> slot r j = Some (FramePtr (r_base r) (ring_index r (ring_pos r j))))"

text \<open>The frames waiting in a queue, oldest first; a reserved slot has none yet.\<close>

definition queued :: "awp_ring \<Rightarrow> awp_frame option list" where
  "queued r = map (map_option (\<lambda>x. r_frames r ! ptr_index x)) (ring_abs r)"

definition pool_wf :: "awp_pool \<Rightarrow> bool" where
  "pool_wf pool \<longleftrightarrow>
     wf_shard_map pool \<and> length (workers pool) = n_wk pool \<and> (\<forall>i<n_wk pool. queue_wf (queue pool i))"

lemma upd_frame_fields [simp]:
  "ring_ok (upd_frame p g r) = ring_ok r" "ring_abs (upd_frame p g r) = ring_abs r"
  "ring_len (upd_frame p g r) = ring_len r" "ring_cap (upd_frame p g r) = ring_cap r"
  "r_base (upd_frame p g r) = r_base r" "r_enqueue_pos (upd_frame p g r) = r_enqueue_pos r"
  "r_closed (upd_frame p g r) = r_closed r" "ring_index (upd_frame p g r) = ring_index r"
  "ring_pos (upd_frame p g r) = ring_pos r" "r_mode (upd_frame p g r) = r_mode r"
  "ring_cell (upd_frame p g r) = ring_cell r"
  by (simp_all add: upd_frame_def ring_index_def fun_eq_iff ring_pos_def)

lemma ring_index_enq [simp]: "ring_index (r\<lparr>r_enqueue_pos := e\<rparr>) = ring_index r"
  by (simp add: ring_index_def fun_eq_iff)

lemma wake_fields [simp]:
  "r_base (awp_ring_wake_if_needed r) = r_base r"
  "ring_index (awp_ring_wake_if_needed r) = ring_index r"
  "ring_pos (awp_ring_wake_if_needed r) = ring_pos r"
  "slot (awp_ring_wake_if_needed r) = slot r"
  by (simp_all add: awp_ring_wake_if_needed_def ring_index_def ring_pos_def slot_def ring_cell_def fun_eq_iff)

lemma pushed_base [simp]: "r_base (pushed f r) = r_base r" "ring_index (pushed f r) = ring_index r"
  "ring_pos (pushed f r) = ring_pos r"
  by (simp_all add: pushed_def publish_def reserve_def set_cell_def ring_index_def ring_pos_def fun_eq_iff)

text \<open>What storing a frame does to a queue: the frame that the producer wrote joins at the end and
  the frames already waiting are untouched.\<close>

definition stored :: "(awp_frame \<Rightarrow> awp_frame) \<Rightarrow> awp_ring \<Rightarrow> awp_ring" where
  "stored g r =
     pushed (FramePtr (r_base r) (ring_index r (r_enqueue_pos r))) (upd_frame (r_enqueue_pos r) g r)"

lemma enq_index:
  assumes "ring_ok r" and "j < ring_len r" and "ring_len r < ring_cap r"
  shows "ring_index r (ring_pos r j) \<noteq> ring_index r (r_enqueue_pos r)"
proof -
  have "ring_geom r" using assms(1) by (simp add: ring_ok_def)
  from ring_index_inj [OF this, of j "ring_len r"] assms show ?thesis
    by (simp add: enqueue_pos_eq)
qed

lemma stored_spec:
  assumes wf: "queue_wf r" and room: "ring_len r < ring_cap r"
    and g: "\<And>f. wf_frame f \<Longrightarrow> wf_frame (g f)"
  shows "queue_wf (stored g r)"
    and "queued (stored g r) = queued r @ [Some (g (r_frames r ! ring_index r (r_enqueue_pos r)))]"
    and "ring_len (stored g r) = Suc (ring_len r)" and "ring_cap (stored g r) = ring_cap r"
    and "r_closed (stored g r) = r_closed r"
proof -
  let ?k = "ring_index r (r_enqueue_pos r)" and ?u = "upd_frame (r_enqueue_pos r) g r"
  let ?x = "FramePtr (r_base r) ?k"
  have ok: "ring_ok r" and len: "length (r_frames r) = ring_cap r" and G: "ring_geom r"
    using wf by (auto simp: queue_wf_def ring_ok_def)
  have ps: "ring_ok (stored g r)" "ring_abs (stored g r) = ring_abs r @ [Some ?x]"
    "ring_len (stored g r) = Suc (ring_len r)" "ring_cap (stored g r) = ring_cap r"
    using pushed_spec [of ?u ?x] ok room by (simp_all add: stored_def)
  have F: "r_frames (stored g r) = (r_frames r)[?k := g (r_frames r ! ?k)]" "r_base (stored g r) = r_base r"
    "ring_index (stored g r) = ring_index r" "ring_pos (stored g r) = ring_pos r" "r_closed (stored g r) = r_closed r"
    by (simp_all add: stored_def) (simp add: upd_frame_def)
  have k: "?k < length (r_frames r)" using ring_index_less [OF G] ring_cap_bounds(3) [OF G] len by simp
  have sl: "slot (stored g r) j = (if j < ring_len r then slot r j else Some ?x)" if "j < Suc (ring_len r)" for j
  proof -
    have "slot (stored g r) j = ring_abs (stored g r) ! j" using that ps(3) by (simp add: nth_ring_abs)
    then show ?thesis using that by (auto simp: ps(2) nth_append nth_ring_abs less_Suc_eq)
  qed
  show "queue_wf (stored g r)"
    unfolding queue_wf_def F ps(3,4)
  proof (intro conjI allI impI)
    show "\<forall>f\<in>set ((r_frames r)[?k := g (r_frames r ! ?k)]). wf_frame f"
    proof
      fix f assume "f \<in> set ((r_frames r)[?k := g (r_frames r ! ?k)])"
      then have "f \<in> set (r_frames r) \<or> f = g (r_frames r ! ?k)" by (meson insertE set_update_subset_insert subsetD)
      then show "wf_frame f" using wf g k by (auto simp: queue_wf_def)
    qed
    fix j assume "j < Suc (ring_len r)"
    then show "slot (stored g r) j = None \<or> slot (stored g r) j = Some (FramePtr (r_base r) (ring_index r (ring_pos r j)))"
      using wf by (auto simp: sl queue_wf_def enqueue_pos_eq less_Suc_eq)
  qed (use ps len in auto)
  have "ptr_index x \<noteq> ?k" if in_abs: "Some x \<in> set (ring_abs r)" for x
  proof -
    obtain j where j: "j < ring_len r" "slot r j = Some x"
    proof -
      assume thesis_rule: "\<And>j. j < ring_len r \<Longrightarrow> slot r j = Some x \<Longrightarrow> thesis"
      obtain j where "j < length (ring_abs r)" "ring_abs r ! j = Some x"
        using in_abs unfolding in_set_conv_nth by blast
      then show thesis using nth_ring_abs [of j r] by (intro thesis_rule [of j]) simp_all
    qed
    then have "x = FramePtr (r_base r) (ring_index r (ring_pos r j))" using wf by (auto simp: queue_wf_def)
    then show ?thesis using enq_index [OF ok j(1) room] by simp
  qed
  then have "map (map_option (\<lambda>x. r_frames (stored g r) ! ptr_index x)) (ring_abs r) = queued r"
    by (fastforce simp: queued_def F nth_list_update intro!: option.map_cong0)
  then show "queued (stored g r) = queued r @ [Some (g (r_frames r ! ?k))]"
    using k by (simp add: queued_def [of "stored g r"] ps(2) F)
  show "ring_len (stored g r) = Suc (ring_len r)" "ring_cap (stored g r) = ring_cap r"
    "r_closed (stored g r) = r_closed r" using ps F by simp_all
qed

section \<open>One pass of a submit\<close>

lemma stored_eq:
  "awp_ring_wake_if_needed
     (set_cell (upd_frame (r_enqueue_pos r) g (r\<lparr>r_enqueue_pos := r_enqueue_pos r + 1\<rparr>)) (r_enqueue_pos r)
       ((ring_cell r (r_enqueue_pos r))\<lparr>c_data := Some (FramePtr (r_base r) (ring_index r (r_enqueue_pos r))),
          c_sequence := r_enqueue_pos r + 1\<rparr>)) = stored g r"
  by (cases r) (simp add: stored_def pushed_def publish_def reserve_def upd_frame_def ring_index_def
      set_cell_def ring_cell_def)

lemma submit_try_spec:
  assumes "queue_wf (queue pool i)"
  shows "submit_try wr i cas pool =
    (if not_admitting pool then (Failed (- EINVAL), submit_end pool)
     else if r_closed (queue pool i) then (Failed (- 1), submit_end (pool\<lparr>dropped := dropped pool + 1\<rparr>))
     else if ring_len (queue pool i) < ring_cap (queue pool i)
       then if cas then (Stored, upd_queue i (\<lambda>_. stored (wr (seq pool)) (queue pool i)) (pool\<lparr>seq := seq pool + 1\<rparr>))
            else (Retry_submit, pool)
     else (Full, pool))"
proof -
  let ?r = "queue pool i"
  have ok: "ring_ok ?r" using assms by (simp add: queue_wf_def)
  show ?thesis
    using full_or_room [OF ok] enq_cell_free [OF ok] enq_cell_full [OF ok] stored_eq [of "queue pool i"]
    by (auto simp: submit_try_def Let_def)
qed

section \<open>What a frame holds after the write\<close>

definition frame_holds ::
  "awp_frame \<Rightarrow> cstr \<Rightarrow> cstr \<Rightarrow> u8 list \<Rightarrow> u64 \<Rightarrow> u32 \<Rightarrow> bool" where
  "frame_holds f feed symbol bytes n flags \<longleftrightarrow>
     content (f_feed f) = content feed \<and> content (f_symbol f) = content symbol
     \<and> f_payload_len f = n \<and> take (unat n) (f_payload f) = take (unat n) bytes \<and> f_flags f = flags"

lemma unat_strlen: "length (content s) < 2 ^ 64 \<Longrightarrow> unat (strlen s) = length (content s)"
  by (simp add: strlen_def)

lemma put_label_content:
  assumes "length (content s) < length buf" and "length (content s) < 2 ^ 64"
  shows "content (put_label buf s (strlen s)) = content s" and "length (put_label buf s (strlen s)) = length buf"
proof -
  have t: "take (length (content s)) s = content s" by (rule content_take)
  have "put_label buf s (strlen s) = (content s @ drop (length (content s)) buf)[length (content s) := 0]"
    by (simp add: put_label_def memcpy_def unat_strlen [OF assms(2)] t)
  then show "content (put_label buf s (strlen s)) = content s" "length (put_label buf s (strlen s)) = length buf"
    using content_copy [of "content s" buf] content_nonzero assms by auto
qed

text \<open>The caller's arguments as the checks of \<open>awp_submit\<close> let them through; strings are shorter
  than the address space.\<close>

definition args_ok :: "cstr \<Rightarrow> cstr \<Rightarrow> u8 list \<Rightarrow> u64 \<Rightarrow> bool" where
  "args_ok feed symbol bytes n \<longleftrightarrow>
     strlen feed \<le> AWP_FEED_MAX \<and> strlen symbol \<le> AWP_SYMBOL_MAX \<and> n \<le> AWP_PAYLOAD_MAX
     \<and> length (content feed) < 2 ^ 64 \<and> length (content symbol) < 2 ^ 64 \<and> unat n \<le> length bytes"

lemma write_frame_spec:
  assumes "args_ok feed symbol bytes n" and "wf_frame f"
  shows "wf_frame (write_frame feed symbol bytes n flags sq ns sh f)"
    and "frame_holds (write_frame feed symbol bytes n flags sq ns sh f) feed symbol bytes n flags"
proof -
  have l: "length (content feed) \<le> 64" "length (content symbol) \<le> 64" "unat n \<le> 4096"
    "unat n \<le> length bytes"
    using assms(1) unat_strlen [of feed] unat_strlen [of symbol]
    by (auto simp: args_ok_def limit_defs word_le_nat_alt)
  have b: "length (f_feed f) = 65" "length (f_symbol f) = 65" "length (f_payload f) = 4096"
    using assms(2) by (auto simp: wf_frame_def)
  have 1: "content (put_label (f_feed f) feed (strlen feed)) = content feed"
    "length (put_label (f_feed f) feed (strlen feed)) = 65"
    using put_label_content [of feed "f_feed f"] l b by auto
  have 2: "content (put_label (f_symbol f) symbol (strlen symbol)) = content symbol"
    "length (put_label (f_symbol f) symbol (strlen symbol)) = 65"
    using put_label_content [of symbol "f_symbol f"] l b by auto
  show "wf_frame (write_frame feed symbol bytes n flags sq ns sh f)"
    using 1 2 b l assms(1) by (simp add: wf_frame_def write_frame_def args_ok_def)
  have "n = 0" if "\<not> n > 0" using that by (simp add: word_greater_zero_iff)
  then show "frame_holds (write_frame feed symbol bytes n flags sq ns sh f) feed symbol bytes n flags"
    using 1 2 l by (auto simp: frame_holds_def write_frame_def)
qed

section \<open>The submit loop\<close>

lemma pool_wf_queue: "pool_wf pool \<Longrightarrow> i < n_wk pool \<Longrightarrow> queue_wf (queue pool i)"
  by (simp add: pool_wf_def)

lemma pool_wf_upd_queue:
  assumes "pool_wf pool" and "i < n_wk pool" and "queue_wf (f (queue pool i))"
  shows "pool_wf (upd_queue i f pool)"
proof -
  have "wf_shard_map (upd_queue i f pool) = wf_shard_map pool"
    by (simp add: wf_shard_map_def upd_queue_def upd_worker_def)
  then show ?thesis using assms by (auto simp: pool_wf_def queue_upd)
qed

lemma queue_wf_wait [simp]:
  "queue_wf (r\<lparr>r_cv := v\<rparr>) = queue_wf r" "queue_wf (r\<lparr>r_waiters := w\<rparr>) = queue_wf r"
  by (simp_all add: queue_wf_def slot_def ring_index_def cong: conj_cong)

text \<open>Other threads keep the pool well formed and its configuration.\<close>

definition routing :: "awp_pool \<Rightarrow> awp_config \<times> cstr option list \<times> u32 \<times> u32 \<times> u32" where
  "routing pool =
     (cfg pool, broadcast_feeds pool, n_broadcast_feeds pool, shard_base pool, n_shard_workers pool)"

definition fair_world :: "world \<Rightarrow> bool" where
  "fair_world W \<longleftrightarrow>
     (\<forall>t pool. pool_wf pool \<longrightarrow> pool_wf (v_act W t pool) \<and> routing (v_act W t pool) = routing pool)"

lemma fair_world_stable:
  assumes "fair_world W" and "i < unat (n_workers (fst R))"
  shows "stable W i (\<lambda>p. pool_wf p \<and> routing p = R)"
proof -
  have r: "routing (upd_queue i f p) = routing p" for f p
    by (simp add: routing_def upd_queue_def upd_worker_def)
  have "pool_wf (upd_queue i f p)" if "pool_wf p" "routing p = R" "queue_wf (f (queue p i))" for f p
    by (rule pool_wf_upd_queue) (use that assms(2) in \<open>auto simp: routing_def\<close>)
  moreover have "queue_wf (queue p i)" if "pool_wf p" "routing p = R" for p
    using that assms(2) by (auto simp: pool_wf_def routing_def)
  ultimately show ?thesis using assms(1) by (auto simp: stable_def fair_world_def r)
qed

lemma submit_loop_result:
  assumes "submit_loop wr W me i spin b t pool = Some (res, t', pool')"
    and "fair_world W" and "pool_wf pool" and "i < n_wk pool"
  shows "\<exists>q. pool_wf q \<and> routing q = routing pool \<and>
     (case res of
        Inl rc \<Rightarrow> (\<exists>c. submit_try wr i c q = (Failed rc, pool'))
      | Inr _ \<Rightarrow> submit_try wr i True q = (Stored, pool'))"
proof -
  let ?R = "routing pool"
  let ?I = "\<lambda>p. pool_wf p \<and> routing p = ?R"
  let ?C = "\<lambda>wr i y. \<exists>q. ?I q \<and> (case fst y of
        Inl rc \<Rightarrow> (\<exists>c. submit_try wr i c q = (Failed rc, snd (snd y)))
      | Inr _ \<Rightarrow> submit_try wr i True q = (Stored, snd (snd y)))"
  let ?H = "\<lambda>W i. fair_world W \<and> i < unat (n_workers (fst ?R))"
  have "?H W i \<longrightarrow> ?I pool \<longrightarrow> ?C wr i (res, t', pool')"
  proof (rule submit_loop.raw_induct
      [where P = "\<lambda>wr W me i spin b t p y. ?H W i \<longrightarrow> ?I p \<longrightarrow> ?C wr i y", OF _ assms(1)])
    fix loop wr W me i spin b t p and y :: "(int + u64) \<times> nat \<times> awp_pool"
    assume IH: "\<And>wr W me i spin b t p y. loop wr W me i spin b t p = Some y \<Longrightarrow> ?H W i \<longrightarrow> ?I p \<longrightarrow> ?C wr i y"
      and eq: "(case submit_try wr i (v_cas W t) (v_act W t p) of
        (Failed rc, pool) \<Rightarrow> Some (Inl rc, Suc t, pool)
      | (Stored, pool) \<Rightarrow> Some (Inr b, Suc t, pool)
      | (Retry_submit, pool) \<Rightarrow> loop wr W me i spin b (Suc t) pool
      | (Full, pool) \<Rightarrow>
          if spin < 64 then loop wr W me i (Suc spin) b (Suc t) pool
          else do { (t', pool') \<leftarrow> queue_wait_for full_to_wait W me i (Suc t)
                      (upd_worker i (\<lambda>w. w\<lparr>w_enqueue_blocks := w_enqueue_blocks w + 1\<rparr>) pool);
                    loop wr W me i 0 (b + (v_clk W t' - v_clk W t)) t' pool' }) = Some y"
    show "?H W i \<longrightarrow> ?I p \<longrightarrow> ?C wr i y"
    proof (intro impI)
      assume H: "?H W i" and p: "?I p"
      define q where "q = v_act W t p"
      have q: "?I q" using H p by (auto simp: q_def fair_world_def)
      have i: "i < n_wk q" using H q by (auto simp: routing_def)
      note sp = submit_try_spec [OF pool_wf_queue [OF conjunct1 [OF q] i], of wr "v_cas W t"]
      obtain o1 q1 where e: "submit_try wr i (v_cas W t) q = (o1, q1)" by fastforce
      have same: "q1 = q" if "o1 = Full \<or> o1 = Retry_submit" using that sp e by (auto split: if_splits)
      show "?C wr i y"
      proof (cases o1)
        case (Failed rc)
        then show ?thesis using eq e q by (intro exI [of _ q]) (auto simp flip: q_def)
      next
        case Stored
        then have "submit_try wr i True q = (Stored, q1)"
          using e sp submit_try_spec [OF pool_wf_queue [OF conjunct1 [OF q] i], of wr True]
          by (auto split: if_splits)
        then show ?thesis using Stored eq e q by (intro exI [of _ q]) (auto simp flip: q_def)
      next
        case Retry_submit
        then have "loop wr W me i spin b (Suc t) q = Some y" using eq e same by (simp flip: q_def)
        from IH [OF this] H q show ?thesis by blast
      next
        case Full
        show ?thesis
        proof (cases "spin < 64")
          case True
          then have "loop wr W me i (Suc spin) b (Suc t) q = Some y" using Full eq e same by (simp flip: q_def)
          from IH [OF this] H q show ?thesis by blast
        next
          case False
          let ?q1 = "upd_worker i (\<lambda>w. w\<lparr>w_enqueue_blocks := w_enqueue_blocks w + 1\<rparr>) q"
          obtain t1 p1 u where w: "queue_wait_for full_to_wait W me i (Suc t) ?q1 = Some (t1, p1)"
            and l: "loop wr W me i 0 u t1 p1 = Some y"
            using False Full eq e same by (auto simp: bind_eq_Some_conv simp flip: q_def)
          have "?I ?q1"
            using q i by (auto simp: pool_wf_def wf_shard_map_def routing_def worker_upd) (auto simp: upd_worker_def)
          then have "?I p1" using queue_wait_for_stable [OF w fair_world_stable [of W i ?R]] H by blast
          then show ?thesis using IH [OF l] H by blast
        qed
      qed
    qed
  qed
  moreover have "fst ?R = cfg pool" by (simp add: routing_def)
  ultimately show ?thesis using assms(2-4) by (cases res) simp_all
qed

section \<open>A whole submit\<close>

lemma compute_shard_routing:
  "routing p = routing q \<Longrightarrow> awp_compute_shard (Some p) f s fl = awp_compute_shard (Some q) f s fl"
proof -
  assume r: "routing p = routing q"
  then have "feed_is_broadcast p f = feed_is_broadcast q f"
    by (cases f) (simp_all add: routing_def feed_is_broadcast_def)
  then show ?thesis using r by (simp add: routing_def awp_compute_shard_def)
qed

lemma pool_view [simp]:
  "pool_wf (awp_api_enter p) = pool_wf p" "pool_wf (submit_begin p) = pool_wf p"
  "routing (awp_api_enter p) = routing p" "routing (submit_begin p) = routing p"
  by (simp_all add: pool_wf_def wf_shard_map_def awp_api_enter_def submit_begin_def worker_def routing_def)

lemma api_enter_leave [simp]: "awp_api_leave (awp_api_enter p) = p"
  by (simp add: awp_api_leave_def awp_api_enter_def)

lemma or_empty_shard:
  "awp_compute_shard po (Some (or_empty f)) (Some (or_empty s)) fl
     = awp_compute_shard po (Some (or_empty f)) s fl"
  by (simp add: awp_compute_shard_def awp_hash_key_def or_empty_def split: option.split)

text \<open>The worker that \<open>awp_submit\<close> uses.\<close>

definition submit_shard :: "awp_pool \<Rightarrow> cstr option \<Rightarrow> cstr option \<Rightarrow> u32 \<Rightarrow> u32" where
  "submit_shard pool feed symbol flags =
     awp_compute_shard (Some pool) (Some (or_empty feed)) (Some (or_empty symbol)) flags"

lemma awp_submit_cases:
  assumes "awp_submit W False me t (Some pool) feedo symbolo payload n flags = Some (rc, t', Some pool')"
    and "fair_world W" and "pool_wf pool"
    and in_range: "submit_shard pool feedo symbolo flags < n_workers (cfg pool)"
  defines "feed \<equiv> or_empty feedo" and "symbol \<equiv> or_empty symbolo"
    and "bytes \<equiv> (case payload of None \<Rightarrow> [] | Some b \<Rightarrow> b)"
    and "i \<equiv> unat (submit_shard pool feedo symbolo flags)"
    and "wr \<equiv> (\<lambda>sq. write_frame (or_empty feedo) (or_empty symbolo)
        (case payload of None \<Rightarrow> [] | Some b \<Rightarrow> b) n flags sq (v_clk W t) (submit_shard pool feedo symbolo flags))"
  shows "rc = - E2BIG \<and> (strlen feed > AWP_FEED_MAX \<or> strlen symbol > AWP_SYMBOL_MAX \<or> n > AWP_PAYLOAD_MAX) \<and> pool' = pool
    \<or> rc = - EINVAL \<and> n > 0 \<and> payload = None \<and> pool' = pool
    \<or> (strlen feed \<le> AWP_FEED_MAX \<and> strlen symbol \<le> AWP_SYMBOL_MAX \<and> n \<le> AWP_PAYLOAD_MAX) \<and>
      ((\<exists>q. not_admitting q \<and> rc = - EINVAL \<and> pool' = submit_end q)
       \<or> (\<exists>q. pool_wf q \<and> routing q = routing pool \<and> \<not> not_admitting q \<and> r_closed (queue q i) \<and> rc = - 1
             \<and> pool' = submit_end (q\<lparr>dropped := dropped q + 1\<rparr>))
       \<or> (\<exists>q q' p t1 b. pool_wf q \<and> routing q = routing pool \<and> submit_try wr i True q = (Stored, q') \<and> rc = 0
             \<and> hwm_loop W i (awp_ring_depth (queue q' i)) t1
                 (if b > 0 then upd_worker i (\<lambda>w. w\<lparr>w_blocked_ns := w_blocked_ns w + b\<rparr>) q' else q') = Some (t', p)
             \<and> pool' = submit_end (p\<lparr>submitted := submitted p + 1\<rparr>)))"
proof -
  let ?p1 = "submit_begin (v_act W t (awp_api_enter pool))"
  have p1: "pool_wf ?p1" "routing ?p1 = routing pool"
    using assms(2,3) by (auto simp: fair_world_def)
  have sh: "awp_compute_shard (Some ?p1) (Some feed) (Some symbol) flags = submit_shard pool feedo symbolo flags"
    using compute_shard_routing [OF p1(2)] by (simp add: submit_shard_def feed_def symbol_def)
  have cf: "cfg ?p1 = cfg pool" using p1(2) by (simp add: routing_def)
  have nl: "(n_workers (cfg ?p1) \<le> submit_shard pool feedo symbolo flags) = False"
    using in_range by (simp add: cf not_le)
  show ?thesis
  proof (cases "strlen feed > AWP_FEED_MAX \<or> strlen symbol > AWP_SYMBOL_MAX \<or> n > AWP_PAYLOAD_MAX \<or> n > 0 \<and> payload = None")
    case True
    then consider "strlen feed > AWP_FEED_MAX \<or> strlen symbol > AWP_SYMBOL_MAX"
      | "\<not> (strlen feed > AWP_FEED_MAX \<or> strlen symbol > AWP_SYMBOL_MAX)" "n > AWP_PAYLOAD_MAX"
      | "\<not> (strlen feed > AWP_FEED_MAX \<or> strlen symbol > AWP_SYMBOL_MAX)" "\<not> n > AWP_PAYLOAD_MAX"
        "n > 0 \<and> payload = None" by blast
    then show ?thesis
      using assms(1) unfolding awp_submit_def Let_def feed_def [symmetric] symbol_def [symmetric]
      by cases (simp, blast, simp, simp)
  next
    case ok: False
    then have checks: "(strlen feed > AWP_FEED_MAX \<or> strlen symbol > AWP_SYMBOL_MAX) = False"
      "(n > AWP_PAYLOAD_MAX) = False" "(n > 0 \<and> payload = None) = False" by auto
    note body = assms(1) [unfolded awp_submit_def Let_def, folded feed_def symbol_def, simplified option.case
        if_False checks]
    show ?thesis
    proof (cases "not_admitting ?p1")
      case True
      have "rc = - EINVAL \<and> pool' = submit_end ?p1"
        using body True by simp
      then show ?thesis using ok True by (intro disjI2 conjI disjI1 exI [of _ ?p1]) (auto simp: not_less)
    next
      case False
      have eq: "do { (res, t, pool) \<leftarrow> submit_loop wr W me i 0 0 (Suc t) ?p1;
          case res of
            Inl rc \<Rightarrow> Some (rc, t, Some pool)
          | Inr blocked \<Rightarrow>
              let pool = (if blocked > 0
                    then upd_worker i (\<lambda>w. w\<lparr>w_blocked_ns := w_blocked_ns w + blocked\<rparr>) pool else pool)
              in do { (t, pool) \<leftarrow> hwm_loop W i (awp_ring_depth (queue pool i)) t pool;
                      Some (0, t, Some (submit_end (pool\<lparr>submitted := submitted pool + 1\<rparr>))) } }
          = Some (rc, t', Some pool')"
        using body [unfolded sh nl if_False] False
        unfolding wr_def i_def feed_def symbol_def Let_def by simp
      obtain res t1 p2 where l: "submit_loop wr W me i 0 0 (Suc t) ?p1 = Some (res, t1, p2)"
        using eq by (auto simp: bind_eq_Some_conv)
      have i: "i < n_wk ?p1" using in_range cf by (simp add: i_def word_less_nat_alt)
      obtain q where q: "pool_wf q" "routing q = routing ?p1"
        "case res of Inl rc \<Rightarrow> (\<exists>c. submit_try wr i c q = (Failed rc, p2))
         | Inr _ \<Rightarrow> submit_try wr i True q = (Stored, p2)"
        using submit_loop_result [OF l assms(2) p1(1) i] by blast
      have rq: "routing q = routing pool" using q(2) p1(2) by (rule trans)
      have iq: "i < n_wk q" using i q(2) by (simp add: routing_def)
      have wq: "queue_wf (queue q i)" by (rule pool_wf_queue [OF q(1) iq])
      have lim: "strlen feed \<le> AWP_FEED_MAX \<and> strlen symbol \<le> AWP_SYMBOL_MAX \<and> n \<le> AWP_PAYLOAD_MAX"
        using ok by (auto simp: not_less)
      show ?thesis
      proof (cases res)
        case (Inl rc')
        then have r: "rc = rc'" "pool' = p2" using eq l by auto
        obtain c where "submit_try wr i c q = (Failed rc, pool')" using q(3) Inl r by auto
        then have "not_admitting q \<and> rc = - EINVAL \<and> pool' = submit_end q
            \<or> \<not> not_admitting q \<and> r_closed (queue q i) \<and> rc = - 1 \<and> pool' = submit_end (q\<lparr>dropped := dropped q + 1\<rparr>)"
          using submit_try_spec [OF wq, of wr c] by (auto split: if_splits)
        then show ?thesis using lim q(1) rq by blast
      next
        case (Inr b)
        let ?p3 = "if b > 0 then upd_worker i (\<lambda>w. w\<lparr>w_blocked_ns := w_blocked_ns w + b\<rparr>) p2 else p2"
        have "workers p2 = workers q \<or> length (workers p2) = length (workers q)"
          using q(3) Inr submit_try_spec [OF wq, of wr True] by (auto split: if_splits)
        then have "queue ?p3 i = queue p2 i"
          using iq q(1) by (auto simp: worker_upd pool_wf_def)
        then obtain p where "hwm_loop W i (awp_ring_depth (queue p2 i)) t1 ?p3 = Some (t', p)"
          "rc = 0" "pool' = submit_end (p\<lparr>submitted := submitted p + 1\<rparr>)"
          using eq l Inr by (auto simp: bind_eq_Some_conv Let_def split: if_splits)
        moreover have "submit_try wr i True q = (Stored, p2)" using q(3) Inr by simp
        ultimately show ?thesis using lim q(1) rq by blast
      qed
    qed
  qed
qed

section \<open>Properties\<close>

text \<open>A pool of two workers with queues of two slots, and a world in which nobody else moves.\<close>

definition mini_cfg :: awp_config where
  "mini_cfg = demo_cfg\<lparr>n_workers := 2, queue_capacity := 2, n_broadcast_workers := 0,
     cfg_broadcast_feeds := None, enable_supervisor := False\<rparr>"

definition mini_worker :: "u32 \<Rightarrow> awp_worker" where
  "mini_worker n =
     \<lparr>w_id = n, w_live = True, w_queue = demo_ring, w_processed = 0, w_process_errors = 0,
      w_enqueue_blocks = 0, w_blocked_ns = 0, w_queue_hwm = 0, w_last_progress_ns = 0,
      w_restarts = 0, w_generation = 1, w_state = AWP_W_RUNNING, w_stop = False, w_joined = False\<rparr>"

definition mini_pool :: awp_pool where
  "mini_pool = demo_pool\<lparr>cfg := mini_cfg, workers := [mini_worker 0, mini_worker 1],
     broadcast_feeds := [], n_broadcast_feeds := 0, shard_base := 0, n_shard_workers := 2\<rparr>"

definition still :: world where
  "still = \<lparr>v_act = (\<lambda>_ p. p), v_clk = (\<lambda>t. of_nat t), v_cas = (\<lambda>_. True), v_frames = alone\<rparr>"

lemma still_fields [simp]:
  "v_act still t p = p" "v_clk still t = of_nat t" "v_cas still t" "v_frames still = alone"
  by (simp_all add: still_def)

lemma demo_ring_wf: "queue_wf demo_ring" "queued demo_ring = []"
proof -
  have "r_frames demo_ring = replicate 2 zero_frame" by (simp add: demo_ring_def)
  then show "queue_wf demo_ring" "queued demo_ring = []"
    using demo_ring_ok by (simp_all add: queue_wf_def queued_def)
qed

lemma mini_pool_wf: "pool_wf mini_pool" "fair_world still" "\<not> not_admitting mini_pool"
proof -
  have "queue_wf (queue mini_pool i)" if "i < 2" for i
    using that demo_ring_wf(1)
    by (auto simp: mini_pool_def demo_pool_def mini_worker_def worker_def less_2_cases_iff)
  then show "pool_wf mini_pool"
    by (simp add: pool_wf_def wf_shard_map_def) (simp add: mini_pool_def mini_cfg_def demo_pool_def demo_cfg_def)
  show "fair_world still" by (simp add: fair_world_def still_def)
  show "\<not> not_admitting mini_pool" by (simp add: not_admitting_def mini_pool_def demo_pool_def)
qed

lemma shard_in_range:
  assumes "pool_wf pool"
  shows "submit_shard pool f s fl < n_workers (cfg pool)"
  using shard_lt [of pool] assms by (simp add: submit_shard_def pool_wf_def)

definition payload_bytes :: "u8 list option \<Rightarrow> u8 list" where
  "payload_bytes payload = (case payload of None \<Rightarrow> [] | Some b \<Rightarrow> b)"



lemma mini_queue: "i < 2 \<Longrightarrow> queue mini_pool i = demo_ring"
  by (auto simp: mini_pool_def demo_pool_def mini_worker_def worker_def less_2_cases_iff)

lemma awp_submit_run:
  assumes "(strlen (or_empty f) > AWP_FEED_MAX \<or> strlen (or_empty s) > AWP_SYMBOL_MAX) = False"
    and "(n > AWP_PAYLOAD_MAX) = False" and "(n > 0 \<and> payload = None) = False"
    and p1: "p1 = submit_begin (v_act W t (awp_api_enter pool))" and "not_admitting p1 = False"
    and sh: "awp_compute_shard (Some p1) (Some (or_empty f)) (Some (or_empty s)) flags = sh"
    and "(sh \<ge> n_workers (cfg p1)) = False"
    and l: "submit_loop (\<lambda>sq. write_frame (or_empty f) (or_empty s) (payload_bytes payload) n flags sq (v_clk W t) sh)
      W me (unat sh) 0 0 (Suc t) p1 = Some (Inr 0, t1, p2)"
    and h: "hwm_loop W (unat sh) (awp_ring_depth (queue p2 (unat sh))) t1 p2 = Some (t2, p3)"
  shows "awp_submit W False me t (Some pool) f s payload n flags
    = Some (0, t2, Some (submit_end (p3\<lparr>submitted := submitted p3 + 1\<rparr>)))"
  unfolding awp_submit_def Let_def p1 [symmetric] option.case if_False assms(1-3,5,7) sh payload_bytes_def [symmetric] l
  using h by simp

lemma still_hwm: "\<exists>t2 p3. hwm_loop still i d t p = Some (t2, p3)"
  by (subst hwm_loop.simps) (simp add: Let_def)

lemma mini_submit:
  "\<exists>t' p'. awp_submit still False 1 0 (Some mini_pool) (Some [116, 0]) (Some [66, 0]) (Some [1, 2]) 2 0
     = Some (0, t', Some p')"
proof -
  let ?p1 = "submit_begin (awp_api_enter mini_pool)"
  let ?s = "awp_compute_shard (Some ?p1) (Some [116, 0]) (Some [66, 0]) 0"
  let ?wr = "\<lambda>sq. write_frame [116, 0] [66, 0] [1, 2] 2 0 sq (v_clk still 0) ?s"
  have n2: "n_workers (cfg mini_pool) = 2" by (simp add: mini_pool_def mini_cfg_def)
  have c1: "cfg ?p1 = cfg mini_pool" by (simp add: submit_begin_def awp_api_enter_def)
  have wf1: "pool_wf ?p1" using mini_pool_wf(1) by simp
  have lt: "?s < 2" using shard_lt [of ?p1 "Some [116, 0]" "Some [66, 0]" 0] wf1 n2 c1 by (simp add: pool_wf_def)
  then have i: "unat ?s < 2" by (simp add: word_less_nat_alt)
  have q: "queue ?p1 (unat ?s) = demo_ring"
    using mini_queue [OF i] by (simp add: submit_begin_def awp_api_enter_def worker_def)
  have na: "\<not> not_admitting ?p1"
    by (simp add: not_admitting_def submit_begin_def awp_api_enter_def mini_pool_def demo_pool_def)
  obtain p2 where "submit_try ?wr (unat ?s) True ?p1 = (Stored, p2)"
    using submit_try_spec [of ?p1 "unat ?s" ?wr True] demo_ring_wf(1) demo_ring_ok na by (simp add: q)
  then have l: "submit_loop ?wr still 1 (unat ?s) 0 0 (Suc 0) ?p1 = Some (Inr 0, Suc (Suc 0), p2)"
    by (subst submit_loop.simps) simp
  obtain t2 p3 where h: "hwm_loop still (unat ?s) (awp_ring_depth (queue p2 (unat ?s))) (Suc (Suc 0)) p2 = Some (t2, p3)"
    using still_hwm by blast
  have len: "strlen [116, 0] = 1" "strlen [66, 0] = 1" by (simp_all add: strlen_def content_def)
  have "awp_submit still False 1 0 (Some mini_pool) (Some [116, 0]) (Some [66, 0]) (Some [1, 2]) 2 0
      = Some (0, t2, Some (submit_end (p3\<lparr>submitted := submitted p3 + 1\<rparr>)))"
    by (rule awp_submit_run [where ?p1.0 = ?p1 and sh = ?s])
      (use l h na lt n2 c1 len in \<open>simp_all add: or_empty_def limit_defs payload_bytes_def not_le\<close>)
  then show ?thesis by blast
qed



section \<open>Claim and commit\<close>

lemma claim_spec:
  assumes "pool_wf pool" and "shard < n_workers (cfg pool)"
  defines "i \<equiv> unat shard"
  defines "r \<equiv> queue pool i"
  shows "awp_claim_frame W False t (Some pool) shard True =
    (if not_admitting pool then (- EINVAL, None, Some pool)
     else if r_closed r then (- 1, None, Some pool)
     else if ring_len r < ring_cap r \<and> v_cas W t
       then (0, Some \<lparr>cl_frame = Some (FramePtr (r_base r) (ring_index r (r_enqueue_pos r))), cl_shard = shard,
                      cl_pos = r_enqueue_pos r, cl_reserved = Some (ring_index r (r_enqueue_pos r))\<rparr>,
             Some (upd_queue i (\<lambda>_. upd_frame (r_enqueue_pos r) (\<lambda>f. f\<lparr>f_shard := shard, f_submit_ns := v_clk W t\<rparr>) (reserve r))
                     (submit_begin (awp_api_enter pool))))
     else (- EAGAIN, None, Some pool))"
proof -
  have "queue_wf r" unfolding r_def by (rule pool_wf_queue [OF assms(1)]) (use assms(2) in \<open>simp add: i_def word_less_nat_alt\<close>)
  then have ok: "ring_ok r" by (simp add: queue_wf_def)
  have v: "not_admitting (awp_api_enter pool) = not_admitting pool" "worker (awp_api_enter pool) = worker pool"
    "cfg (awp_api_enter pool) = cfg pool"
    by (simp_all add: not_admitting_def awp_api_enter_def worker_def fun_eq_iff)
  have nl: "(shard \<ge> n_workers (cfg pool)) = False" using assms(2) by (simp add: not_le)
  show ?thesis
    unfolding awp_claim_frame_def Let_def v option.case if_False nl i_def [symmetric] r_def [symmetric]
    using full_or_room [OF ok] enq_cell_free [OF ok] enq_cell_full [OF ok]
    by (auto simp: reserve_def)
qed

text \<open>C29. A claim reserves: \<open>awp_claim_frame\<close> succeeds exactly when the pool is admitting, the queue
  is open and has room and the exchange succeeds; the queue then has one more slot, reserved and
  not yet visible to the worker, the claim names that slot's frame, and the call keeps one API and
  one submit reference for the commit. Every refusal leaves the pool as it was.\<close>

theorem awp_claim_frame_spec:
  assumes "pool_wf pool" and "shard < n_workers (cfg pool)"
  defines "r \<equiv> queue pool (unat shard)"
  shows "case awp_claim_frame W False t (Some pool) shard True of
     (rc, claim, po) \<Rightarrow>
       (rc = 0 \<longleftrightarrow> \<not> not_admitting pool \<and> \<not> r_closed r \<and> ring_len r < ring_cap r \<and> v_cas W t)
       \<and> (rc \<noteq> 0 \<longrightarrow> claim = None \<and> po = Some pool)
       \<and> (rc = 0 \<longrightarrow> (\<exists>p c. po = Some p \<and> claim = Some c \<and> ring_ok (queue p (unat shard))
             \<and> ring_abs (queue p (unat shard)) = ring_abs r @ [None]
             \<and> cl_pos c = ring_pos r (ring_len r) \<and> cl_shard c = shard
             \<and> cl_frame c = Some (FramePtr (r_base r) (ring_index r (cl_pos c)))
             \<and> cl_reserved c = Some (ring_index r (cl_pos c))
             \<and> active_submits p = active_submits pool + 1 \<and> api_refs p = api_refs pool + 1))"
proof -
  have i: "unat shard < length (workers pool)" using assms(1,2) by (simp add: pool_wf_def word_less_nat_alt)
  have "queue_wf r" unfolding r_def by (rule pool_wf_queue [OF assms(1)]) (use assms(2) in \<open>simp add: word_less_nat_alt\<close>)
  then have ok: "ring_ok r" by (simp add: queue_wf_def)
  have F: "length (workers (submit_begin (awp_api_enter pool))) = length (workers pool)"
    "active_submits (submit_begin (awp_api_enter pool)) = active_submits pool + 1"
    "api_refs (submit_begin (awp_api_enter pool)) = api_refs pool + 1"
    by (simp_all add: submit_begin_def awp_api_enter_def)
  show ?thesis
    unfolding claim_spec [OF assms(1,2), of W t] r_def [symmetric]
    using i ok ring_ok_reserve [OF ok] ring_abs_reserve [OF ok]
    by (simp add: errno_defs queue_upd F enqueue_pos_eq)
qed

theorem awp_claim_frame_spec_witness:
  "\<exists>p c. awp_claim_frame still False 0 (Some mini_pool) 1 True = (0, Some c, Some p)
     \<and> ring_abs (queue p 1) = [None] \<and> active_submits p = 1"
proof -
  have n: "(1 :: u32) < n_workers (cfg mini_pool)" by (simp add: mini_pool_def mini_cfg_def)
  have z: "active_submits mini_pool = 0" by (simp add: mini_pool_def demo_pool_def)
  from awp_claim_frame_spec [OF mini_pool_wf(1) n, of still 0] show ?thesis
    using mini_pool_wf(3) mini_queue [of 1] demo_ring_ok z by (auto split: prod.splits)
qed

text \<open>C30. A commit publishes: for a claim on a slot that is still reserved, \<open>awp_commit_frame\<close>
  puts the claimed frame into exactly that slot, leaves every other slot and the other queues
  alone, counts one submission and gives back the two references of the claim.\<close>

theorem awp_commit_frame_spec:
  assumes "pool_wf pool" and "cl_shard c < n_workers (cfg pool)" and "cl_frame c = Some f"
    and "j < ring_len (queue pool (unat (cl_shard c)))"
    and "cl_pos c = ring_pos (queue pool (unat (cl_shard c))) j"
    and "cl_reserved c = Some (ring_index (queue pool (unat (cl_shard c))) (cl_pos c)) \<or> cl_reserved c = None"
  shows "\<exists>p. awp_commit_frame (Some pool) (Some c) = (0, Some p)
     \<and> ring_ok (queue p (unat (cl_shard c)))
     \<and> ring_abs (queue p (unat (cl_shard c))) = (ring_abs (queue pool (unat (cl_shard c))))[j := Some f]
     \<and> (\<forall>k. k \<noteq> unat (cl_shard c) \<longrightarrow> queue p k = queue pool k)
     \<and> submitted p = submitted pool + 1 \<and> active_submits p = active_submits pool - 1
     \<and> api_refs p = api_refs pool - 1"
proof -
  let ?i = "unat (cl_shard c)" and ?pos = "cl_pos c"
  let ?r = "queue pool ?i"
  have i: "?i < length (workers pool)" "?i < n_wk pool" using assms(1,2) by (simp_all add: pool_wf_def word_less_nat_alt)
  have ok: "ring_ok ?r" using pool_wf_queue [OF assms(1) i(2)] by (simp add: queue_wf_def)
  have k: "(case cl_reserved c of Some k \<Rightarrow> k | None \<Rightarrow> ring_index ?r ?pos) = ring_index ?r ?pos"
    using assms(6) by auto
  have pub: "?r\<lparr>r_cells := (r_cells ?r)[ring_index ?r ?pos := (r_cells ?r ! ring_index ?r ?pos)\<lparr>c_data := cl_frame c, c_sequence := ?pos + 1\<rparr>]\<rparr>
      = publish ?r ?pos f"
    by (simp add: publish_def set_cell_def ring_cell_def assms(3))
  have nl: "(cl_shard c \<ge> n_workers (cfg pool)) = False" "(cl_frame c = None) = False" using assms(2,3) by (simp_all add: not_le)
  have W: "worker (p\<lparr>submitted := x\<rparr>) = worker p" "worker (submit_end p) = worker p"
    "submitted (submit_end p) = submitted p" "active_submits (submit_end p) = active_submits p - 1"
    "api_refs (submit_end p) = api_refs p - 1" for p x
    by (simp_all add: worker_def fun_eq_iff submit_end_def awp_api_leave_def)
  show ?thesis
    unfolding awp_commit_frame_def Let_def prod.case option.case nl if_False k pub
    using ring_ok_publish [OF ok assms(4)] ring_abs_publish [OF ok assms(4)] i
    by (simp add: W queue_upd assms(5))
qed

lemma reserved_wf:
  assumes wf: "queue_wf r" and room: "ring_len r < ring_cap r" and g: "\<And>f. wf_frame f \<Longrightarrow> wf_frame (g f)"
  shows "queue_wf (upd_frame (r_enqueue_pos r) g (reserve r))"
proof -
  let ?k = "ring_index r (r_enqueue_pos r)"
  have ok: "ring_ok r" and G: "ring_geom r" and len: "length (r_frames r) = ring_cap r"
    using wf by (auto simp: queue_wf_def ring_ok_def)
  have k: "?k < length (r_frames r)" using ring_index_less [OF G] ring_cap_bounds(3) [OF G] len by simp
  have R: "ring_index (reserve r) = ring_index r" "r_frames (reserve r) = r_frames r" "r_base (reserve r) = r_base r"
    "ring_pos (reserve r) = ring_pos r"
    by (simp_all add: reserve_def ring_pos_def fun_eq_iff)
  have S: "slot (upd_frame p h q) = slot q" for p h q by (simp add: slot_def fun_eq_iff)
  have "slot r (ring_len r) = None" using enq_cell_free [OF ok room] unfolding enqueue_pos_eq by (simp add: slot_def)
  then have sl: "\<forall>j<Suc (ring_len r). slot r j = None \<or> slot r j = Some (FramePtr (r_base r) (ring_index r (ring_pos r j)))"
    using wf by (auto simp: queue_wf_def less_Suc_eq)
  have "\<forall>f \<in> set ((r_frames r)[?k := g (r_frames r ! ?k)]). wf_frame f"
  proof
    fix f assume "f \<in> set ((r_frames r)[?k := g (r_frames r ! ?k)])"
    then have "f \<in> set (r_frames r) \<or> f = g (r_frames r ! ?k)" by (meson insertE set_update_subset_insert subsetD)
    then show "wf_frame f" using wf g k by (auto simp: queue_wf_def)
  qed
  moreover have "r_frames (upd_frame (r_enqueue_pos r) g (reserve r)) = (r_frames r)[?k := g (r_frames r ! ?k)]"
    by (simp add: upd_frame_def R)
  ultimately show ?thesis
    using ring_ok_reserve [OF ok room] ring_len_reserve [OF ok room] sl len
    by (simp add: queue_wf_def S R)
qed

text \<open>A claim, a write to the claimed frame and the commit, with nobody in between, store one frame
  exactly as a submit does.\<close>

definition mark :: "u32 \<Rightarrow> u64 \<Rightarrow> awp_frame \<Rightarrow> awp_frame" where
  "mark shard ns f = f\<lparr>f_shard := shard, f_submit_ns := ns\<rparr>"

lemma claim_write_commit:
  assumes "claimed = upd_frame (r_enqueue_pos r) g (reserve r)"
    and "j = ring_index r (r_enqueue_pos r)" and "j < length (r_frames r)"
  shows "awp_ring_wake_if_needed
      ((upd_frame (r_enqueue_pos r) h claimed)\<lparr>r_cells := (r_cells (upd_frame (r_enqueue_pos r) h claimed))
         [j := (r_cells (upd_frame (r_enqueue_pos r) h claimed) ! j)
            \<lparr>c_data := Some (FramePtr (r_base r) j), c_sequence := r_enqueue_pos r + 1\<rparr>]\<rparr>)
    = stored (h \<circ> g) r"
  using assms(3) by (cases r) (simp add: assms(1,2) stored_def pushed_def publish_def reserve_def upd_frame_def ring_index_def
      set_cell_def ring_cell_def)

lemma keyed_store:
  assumes wf: "pool_wf q" and sh: "shard < n_workers (cfg q)"
    and ok: "\<not> not_admitting q" "\<not> r_closed (queue q (unat shard))"
      "ring_len (queue q (unat shard)) < ring_cap (queue q (unat shard))" "v_cas W t"
    and claim: "awp_claim_frame W False t (Some q) shard True = (0, Some c, Some p)"
    and commit: "awp_commit_frame (Some ((upd_queue (unat (cl_shard c)) (upd_frame (cl_pos c) (wr (seq p))) p)\<lparr>seq := seq p + 1\<rparr>))
       (Some c) = (rc, Some q')"
  shows "rc = 0 \<and> queue q' (unat shard) = stored (wr (seq q) \<circ> mark shard (v_clk W t)) (queue q (unat shard))
    \<and> (\<forall>k. k \<noteq> unat shard \<longrightarrow> queue q' k = queue q k) \<and> submitted q' = submitted q + 1
    \<and> active_submits q' = active_submits q \<and> api_refs q' = api_refs q \<and> seq q' = seq q + 1"
proof -
  let ?i = "unat shard"
  let ?r = "queue q ?i"
  have il: "?i < length (workers q)" "?i < n_wk q" using wf sh by (simp_all add: pool_wf_def word_less_nat_alt)
  have wr: "queue_wf ?r" by (rule pool_wf_queue [OF wf il(2)])
  have G: "ring_geom ?r" using wr by (simp add: queue_wf_def ring_ok_def)
  have k: "ring_index ?r (r_enqueue_pos ?r) < length (r_frames ?r)"
    using ring_index_less [OF G] ring_cap_bounds(3) [OF G] wr by (simp add: queue_wf_def)
  let ?cl = "upd_frame (r_enqueue_pos ?r) (mark shard (v_clk W t)) (reserve ?r)"
  have mk: "(\<lambda>f. f\<lparr>f_shard := shard, f_submit_ns := v_clk W t\<rparr>) = mark shard (v_clk W t)"
    by (simp add: mark_def fun_eq_iff)
  have c: "c = \<lparr>cl_frame = Some (FramePtr (r_base ?r) (ring_index ?r (r_enqueue_pos ?r))), cl_shard = shard,
      cl_pos = r_enqueue_pos ?r, cl_reserved = Some (ring_index ?r (r_enqueue_pos ?r))\<rparr>"
    and p: "p = upd_queue ?i (\<lambda>_. ?cl) (submit_begin (awp_api_enter q))"
    using claim claim_spec [OF wf sh, of W t] ok by (simp_all add: mk)
  have sq: "seq p = seq q" by (simp add: p submit_begin_def awp_api_enter_def)
  define p1 where "p1 = (upd_queue ?i (upd_frame (r_enqueue_pos ?r) (wr (seq q))) p)\<lparr>seq := seq q + 1\<rparr>"
  have W: "worker (x\<lparr>seq := y\<rparr>) = worker x" "worker (x\<lparr>submitted := y\<rparr>) = worker x"
    "worker (submit_end x) = worker x" "worker (submit_begin x) = worker x" "worker (awp_api_enter x) = worker x"
    "length (workers (submit_begin x)) = length (workers x)" "length (workers (awp_api_enter x)) = length (workers x)"
    "submitted (submit_end x) = submitted x" "active_submits (submit_end x) = active_submits x - 1"
    "api_refs (submit_end x) = api_refs x - 1" "seq (submit_end x) = seq x"
    "submitted (submit_begin x) = submitted x" "active_submits (submit_begin x) = active_submits x + 1"
    "api_refs (submit_begin x) = api_refs x" "seq (submit_begin x) = seq x" "cfg (submit_begin x) = cfg x"
    "submitted (awp_api_enter x) = submitted x" "active_submits (awp_api_enter x) = active_submits x"
    "api_refs (awp_api_enter x) = api_refs x + 1" "seq (awp_api_enter x) = seq x" "cfg (awp_api_enter x) = cfg x" for x y
    by (simp_all add: worker_def fun_eq_iff submit_end_def awp_api_leave_def submit_begin_def awp_api_enter_def)
  have Q1: "queue p1 ?i = upd_frame (r_enqueue_pos ?r) (wr (seq q)) ?cl" "k \<noteq> ?i \<Longrightarrow> queue p1 k = queue q k" for k
    using il by (simp_all add: p1_def p W queue_upd)
  have st: "awp_ring_wake_if_needed
      ((queue p1 ?i)\<lparr>r_cells := (r_cells (queue p1 ?i))
         [ring_index ?r (r_enqueue_pos ?r) := (r_cells (queue p1 ?i) ! ring_index ?r (r_enqueue_pos ?r))
            \<lparr>c_data := Some (FramePtr (r_base ?r) (ring_index ?r (r_enqueue_pos ?r))), c_sequence := r_enqueue_pos ?r + 1\<rparr>]\<rparr>)
      = stored (wr (seq q) \<circ> mark shard (v_clk W t)) ?r"
    unfolding Q1(1) by (rule claim_write_commit [OF refl refl k])
  have nl: "(shard \<ge> n_workers (cfg p1)) = False"
    using sh by (simp add: p1_def p W not_le)
  have e: "awp_commit_frame (Some p1) (Some c) = (rc, Some q')" using commit by (simp add: p1_def c sq)
  have "rc = 0" and q': "q' = submit_end ((upd_queue ?i (\<lambda>_. stored (wr (seq q) \<circ> mark shard (v_clk W t)) ?r) p1)
      \<lparr>submitted := submitted p1 + 1\<rparr>)"
    using e unfolding awp_commit_frame_def c by (simp_all add: nl st Let_def)
  moreover have "length (workers p1) = length (workers q)" by (simp add: p1_def p W)
  ultimately show ?thesis using il Q1(2) by (simp add: W queue_upd) (simp add: p1_def p W)
qed

section \<open>\<open>awp_submit_keyed\<close>\<close>

lemma claim_refused:
  assumes "not_admitting q \<or> in_cb"
  shows "\<exists>rc. awp_claim_frame W in_cb t (Some q) shard True = (rc, None, Some q) \<and> rc \<noteq> - 1"
proof -
  have "not_admitting (awp_api_enter q) = not_admitting q" by (simp add: not_admitting_def awp_api_enter_def)
  then show ?thesis using assms by (auto simp: awp_claim_frame_def errno_defs)
qed

lemma keyed_loop_stuck:
  assumes "\<And>t p. not_admitting p \<Longrightarrow> not_admitting (v_act W t p)" and "not_admitting pool"
  shows "keyed_loop W in_cb me shard wr spin t pool = None"
proof (rule ccontr)
  assume "keyed_loop W in_cb me shard wr spin t pool \<noteq> None"
  then obtain y where y: "keyed_loop W in_cb me shard wr spin t pool = Some y" by blast
  let ?R = "\<lambda>W. \<forall>t p. not_admitting p \<longrightarrow> not_admitting (v_act W t p)"
  have "?R W \<longrightarrow> \<not> not_admitting pool"
  proof (rule keyed_loop.raw_induct
      [where P = "\<lambda>W in_cb me shard wr spin t pool y. ?R W \<longrightarrow> \<not> not_admitting pool", OF _ y])
    fix loop W in_cb me shard wr spin t pool and y :: "int \<times> nat \<times> awp_pool option"
    assume IH: "\<And>W in_cb me shard wr spin t pool y. loop W in_cb me shard wr spin t pool = Some y \<Longrightarrow>
        ?R W \<longrightarrow> \<not> not_admitting pool"
      and eq: "(case awp_claim_frame W in_cb t (Some (v_act W t pool)) shard True of
        (rc, Some claim, Some pool) \<Rightarrow>
          let pool = upd_queue (unat (cl_shard claim)) (upd_frame (cl_pos claim) (wr (seq pool))) pool;
              (rc, po) = awp_commit_frame (Some (pool\<lparr>seq := seq pool + 1\<rparr>)) (Some claim)
          in Some (rc, Suc t, po)
      | (rc, None, Some pool) \<Rightarrow>
          if rc = - 1 then Some (- 1, Suc t, Some pool)
          else if spin < 64 then loop W in_cb me shard wr (Suc spin) (Suc t) pool
          else do { (t', pool') \<leftarrow> queue_wait_for full_to_wait W me (unat shard) (Suc t) pool;
                    loop W in_cb me shard wr 0 t' pool' }
      | (rc, _, None) \<Rightarrow> Some (rc, Suc t, None)) = Some y"
    show "?R W \<longrightarrow> \<not> not_admitting pool"
    proof (intro impI notI)
      assume R: "?R W" and na: "not_admitting pool"
      let ?q = "v_act W t pool"
      have q: "not_admitting ?q" using R na by blast
      obtain rc where c: "awp_claim_frame W in_cb t (Some ?q) shard True = (rc, None, Some ?q)" "rc \<noteq> - 1"
        using claim_refused [of ?q in_cb] q by blast
      show False
      proof (cases "spin < 64")
        case True
        then have "loop W in_cb me shard wr (Suc spin) (Suc t) ?q = Some y" using eq c by simp
        from IH [OF this] R q show False by blast
      next
        case False
        then obtain t1 p1 where w: "queue_wait_for full_to_wait W me (unat shard) (Suc t) ?q = Some (t1, p1)"
          and l: "loop W in_cb me shard wr 0 t1 p1 = Some y"
          using eq c by (auto simp: bind_eq_Some_conv)
        have "stable W (unat shard) not_admitting" using R by (simp add: stable_def not_admitting_def)
        then have "not_admitting p1" using queue_wait_for_stable [OF w, of not_admitting] q by blast
        then show False using IH [OF l] R by blast
      qed
    qed
  qed
  then show False using assms by blast
qed

lemma commit_some: "\<exists>rc q'. awp_commit_frame (Some p) (Some c) = (rc, Some q')"
  by (simp add: awp_commit_frame_def Let_def)

lemma keyed_loop_result:
  assumes "keyed_loop W False me shard wr spin t pool = Some (rc, t', po)"
    and "fair_world W" and "pool_wf pool" and "shard < n_workers (cfg pool)"
  shows "\<exists>q q'. po = Some q' \<and> pool_wf q \<and> \<not> not_admitting q \<and>
     (if rc = 0
      then \<not> r_closed (queue q (unat shard)) \<and> ring_len (queue q (unat shard)) < ring_cap (queue q (unat shard))
        \<and> (\<exists>ns. queue q' (unat shard) = stored (wr (seq q) \<circ> mark shard ns) (queue q (unat shard)))
        \<and> (\<forall>k. k \<noteq> unat shard \<longrightarrow> queue q' k = queue q k) \<and> submitted q' = submitted q + 1
        \<and> active_submits q' = active_submits q \<and> api_refs q' = api_refs q
      else rc = - 1 \<and> r_closed (queue q (unat shard)) \<and> q' = q)"
proof -
  let ?R = "routing pool"
  let ?I = "\<lambda>p. pool_wf p \<and> routing p = ?R"
  let ?G = "\<lambda>W in_cb shard. \<not> in_cb \<and> fair_world W \<and> shard < n_workers (fst ?R)"
  let ?C = "\<lambda>wr shard y. \<exists>q q'. snd (snd y) = Some q' \<and> pool_wf q \<and> \<not> not_admitting q \<and>
     (if fst y = 0
      then \<not> r_closed (queue q (unat shard)) \<and> ring_len (queue q (unat shard)) < ring_cap (queue q (unat shard))
        \<and> (\<exists>ns. queue q' (unat shard) = stored (wr (seq q) \<circ> mark shard ns) (queue q (unat shard)))
        \<and> (\<forall>k. k \<noteq> unat shard \<longrightarrow> queue q' k = queue q k) \<and> submitted q' = submitted q + 1
        \<and> active_submits q' = active_submits q \<and> api_refs q' = api_refs q
      else fst y = - 1 \<and> r_closed (queue q (unat shard)) \<and> q' = q)"
  have "?G W False shard \<longrightarrow> ?I pool \<longrightarrow> ?C wr shard (rc, t', po)"
  proof (rule keyed_loop.raw_induct
      [where P = "\<lambda>W in_cb me shard wr spin t pool y. ?G W in_cb shard \<longrightarrow> ?I pool \<longrightarrow> ?C wr shard y", OF _ assms(1)])
    fix loop W in_cb me shard wr spin t p and y :: "int \<times> nat \<times> awp_pool option"
    assume IH: "\<And>W in_cb me shard wr spin t p y. loop W in_cb me shard wr spin t p = Some y \<Longrightarrow>
        ?G W in_cb shard \<longrightarrow> ?I p \<longrightarrow> ?C wr shard y"
      and eq: "(case awp_claim_frame W in_cb t (Some (v_act W t p)) shard True of
        (rc, Some claim, Some pool) \<Rightarrow>
          let pool = upd_queue (unat (cl_shard claim)) (upd_frame (cl_pos claim) (wr (seq pool))) pool;
              (rc, po) = awp_commit_frame (Some (pool\<lparr>seq := seq pool + 1\<rparr>)) (Some claim)
          in Some (rc, Suc t, po)
      | (rc, None, Some pool) \<Rightarrow>
          if rc = - 1 then Some (- 1, Suc t, Some pool)
          else if spin < 64 then loop W in_cb me shard wr (Suc spin) (Suc t) pool
          else do { (t', pool') \<leftarrow> queue_wait_for full_to_wait W me (unat shard) (Suc t) pool;
                    loop W in_cb me shard wr 0 t' pool' }
      | (rc, _, None) \<Rightarrow> Some (rc, Suc t, None)) = Some y"
    show "?G W in_cb shard \<longrightarrow> ?I p \<longrightarrow> ?C wr shard y"
    proof (intro impI)
      assume H: "?G W in_cb shard" and p: "?I p"
      define q where "q = v_act W t p"
      have q: "?I q" using H p by (auto simp: q_def fair_world_def)
      have sh: "shard < n_workers (cfg q)" using H q by (auto simp: routing_def)
      note cl = claim_spec [OF conjunct1 [OF q] sh, of W t]
      have again: "?C wr shard y"
        if ag: "awp_claim_frame W in_cb t (Some q) shard True = (rc, None, Some q)" "rc \<noteq> - 1" for rc
      proof (cases "spin < 64")
        case True
        then have "loop W in_cb me shard wr (Suc spin) (Suc t) q = Some y" using eq ag by (simp flip: q_def)
        from IH [OF this] H q show ?thesis by blast
      next
        case False
        then obtain t1 p1 where w: "queue_wait_for full_to_wait W me (unat shard) (Suc t) q = Some (t1, p1)"
          and l: "loop W in_cb me shard wr 0 t1 p1 = Some y"
          using eq ag by (auto simp: bind_eq_Some_conv simp flip: q_def)
        have "?I p1"
          using queue_wait_for_stable [OF w fair_world_stable [of W "unat shard" ?R]] H q
          by (auto simp: word_less_nat_alt)
        then show ?thesis using IH [OF l] H by blast
      qed
      consider "not_admitting q" | "\<not> not_admitting q" "r_closed (queue q (unat shard))"
        | "\<not> not_admitting q" "\<not> r_closed (queue q (unat shard))"
          "\<not> (ring_len (queue q (unat shard)) < ring_cap (queue q (unat shard)) \<and> v_cas W t)"
        | "\<not> not_admitting q" "\<not> r_closed (queue q (unat shard))"
          "ring_len (queue q (unat shard)) < ring_cap (queue q (unat shard))" "v_cas W t" by blast
      then show "?C wr shard y"
      proof cases
        case 1
        then show ?thesis by (intro again [of "- EINVAL"]) (use cl H in \<open>simp_all add: errno_defs\<close>)
      next
        case 2
        then have "y = (- 1, Suc t, Some q)" using eq cl H by (simp flip: q_def)
        then show ?thesis using 2 q by (intro exI [of _ q]) simp
      next
        case 3
        then show ?thesis by (intro again [of "- EAGAIN"]) (use cl H in \<open>auto simp: errno_defs\<close>)
      next
        case 4
        obtain c p1 where e: "awp_claim_frame W False t (Some q) shard True = (0, Some c, Some p1)"
          using cl 4 by auto
        obtain rc1 q' where cm: "awp_commit_frame (Some ((upd_queue (unat (cl_shard c)) (upd_frame (cl_pos c) (wr (seq p1))) p1)\<lparr>seq := seq p1 + 1\<rparr>))
            (Some c) = (rc1, Some q')"
          using commit_some by blast
        have "y = (rc1, Suc t, Some q')" using eq e cm H by (simp flip: q_def)
        moreover note keyed_store [where wr = wr, OF conjunct1 [OF q] sh 4 e cm]
        ultimately show ?thesis using 4 q by (intro exI [of _ q] exI [of _ q']) auto
      qed
    qed
  qed
  moreover have "shard < n_workers (fst ?R)" using assms(4) by (simp add: routing_def)
  ultimately have "?C wr shard (rc, t', po)" using assms(2,3) by blast
  then show ?thesis by (simp only: fst_conv snd_conv)
qed

text \<open>The committed claim of the next witness.\<close>

lemma mini_claim:
  "\<exists>p c. awp_claim_frame still False 0 (Some mini_pool) 1 True = (0, Some c, Some p) \<and> pool_wf p
     \<and> cl_shard c = 1 \<and> cl_pos c = ring_pos (queue p 1) 0 \<and> ring_len (queue p 1) = 1
     \<and> cl_frame c \<noteq> None \<and> cl_reserved c = Some (ring_index (queue p 1) (cl_pos c)) \<and> ring_abs (queue p 1) = [None]
     \<and> cfg p = cfg mini_pool"
proof -
  have n: "(1 :: u32) < n_workers (cfg mini_pool)" "n_wk mini_pool = 2" by (simp_all add: mini_pool_def mini_cfg_def)
  let ?g = "\<lambda>f. f\<lparr>f_shard := 1 :: u32, f_submit_ns := v_clk still 0\<rparr>"
  let ?r = "upd_frame (r_enqueue_pos demo_ring) ?g (reserve demo_ring)"
  have room: "ring_len demo_ring < ring_cap demo_ring" by (simp add: demo_ring_ok)
  let ?p = "upd_queue 1 (\<lambda>_. ?r) (submit_begin (awp_api_enter mini_pool))"
  let ?c = "\<lparr>cl_frame = Some (FramePtr (r_base demo_ring) (ring_index demo_ring (r_enqueue_pos demo_ring))), cl_shard = 1,
       cl_pos = r_enqueue_pos demo_ring, cl_reserved = Some (ring_index demo_ring (r_enqueue_pos demo_ring))\<rparr>"
  have e: "awp_claim_frame still False 0 (Some mini_pool) 1 True = (0, Some ?c, Some ?p)"
    using claim_spec [OF mini_pool_wf(1) n(1), of still 0] mini_pool_wf(3) mini_queue [of 1] demo_ring_ok by simp
  have wf: "queue_wf ?r" by (rule reserved_wf [OF demo_ring_wf(1) room]) (simp add: wf_frame_def)
  have il: "1 < length (workers (submit_begin (awp_api_enter mini_pool)))"
    by (simp add: submit_begin_def awp_api_enter_def mini_pool_def)
  have "pool_wf ?p"
  proof (rule pool_wf_upd_queue)
    show "1 < n_wk (submit_begin (awp_api_enter mini_pool))"
      using n(2) by (simp add: submit_begin_def awp_api_enter_def)
  qed (use mini_pool_wf(1) wf in simp_all)
  moreover have "queue ?p 1 = ?r" using il by (simp add: queue_upd)
  moreover have "ring_len ?r = 1" "ring_abs ?r = [None]"
    using ring_len_reserve [OF demo_ring_ok(2) room] ring_abs_reserve [OF demo_ring_ok(2) room] demo_ring_ok by simp_all
  moreover have "ring_pos demo_ring 0 = r_enqueue_pos demo_ring" "ring_index (reserve demo_ring) = ring_index demo_ring"
    by (simp_all add: ring_pos_def demo_ring_def zero_ring_def reserve_def ring_index_def fun_eq_iff)
  moreover have "cfg ?p = cfg mini_pool" by (simp add: submit_begin_def awp_api_enter_def)
  ultimately show ?thesis using e by (intro exI [of _ ?p] exI [of _ ?c]) simp
qed

theorem awp_commit_frame_spec_witness:
  "\<exists>p c p'. awp_claim_frame still False 0 (Some mini_pool) 1 True = (0, Some c, Some p)
     \<and> awp_commit_frame (Some p) (Some c) = (0, Some p') \<and> ring_abs (queue p' 1) = [cl_frame c]"
proof -
  obtain p c where a: "awp_claim_frame still False 0 (Some mini_pool) 1 True = (0, Some c, Some p)" "pool_wf p"
     "cl_shard c = 1" "cl_pos c = ring_pos (queue p 1) 0" "ring_len (queue p 1) = 1"
     "cl_frame c \<noteq> None" "cl_reserved c = Some (ring_index (queue p 1) (cl_pos c))" "ring_abs (queue p 1) = [None]"
     "cfg p = cfg mini_pool"
    using mini_claim by blast
  have n: "(1 :: u32) < n_workers (cfg p)" by (simp add: a(9) mini_pool_def mini_cfg_def)
  obtain f where f: "cl_frame c = Some f" using a(6) by blast
  from awp_commit_frame_spec [OF a(2), of c f 0] a n f show ?thesis by auto
qed


lemma mini_keyed:
  "\<exists>t' po. awp_submit_keyed still False 1 0 (Some mini_pool) 3 None None None 0 0 = Some (0, t', po)"
  and mini_keyed_shard: "keyed_shard mini_pool 3 = 1"
proof -
  show sh: "keyed_shard mini_pool 3 = 1" by (simp add: keyed_shard_def mini_pool_def)
  obtain p c where a: "awp_claim_frame still False 0 (Some mini_pool) 1 True = (0, Some c, Some p)"
    "cl_shard c = 1" "cl_frame c \<noteq> None" "cfg p = cfg mini_pool"
    using mini_claim by blast
  have "\<not> n_workers (cfg mini_pool) \<le> (1 :: u32)" by (simp add: not_le) (simp add: mini_pool_def mini_cfg_def)
  then have "\<exists>q'. awp_commit_frame (Some ((upd_queue (unat (cl_shard c)) (upd_frame (cl_pos c) g) p)\<lparr>seq := x\<rparr>)) (Some c)
      = (0, Some q')" for g x
    using a by (auto simp: awp_commit_frame_def Let_def)
  then show "\<exists>t' po. awp_submit_keyed still False 1 0 (Some mini_pool) 3 None None None 0 0 = Some (0, t', po)"
    unfolding awp_submit_keyed_def sh option.case
    by (subst keyed_loop.simps) (use a in \<open>auto simp: Let_def split: prod.splits\<close>, metis prod.inject)
qed


text \<open>The keyed path agrees with \<open>awp_submit\<close> on the worker: for traffic that is not broadcast,
  the precomputed key \<open>awp_hash_key (feed, symbol)\<close> leads to the worker that
  \<open>awp_compute_shard\<close> picks.\<close>

theorem keyed_shard_agrees:
  assumes "wf_shard_map pool" and "\<not> is_broadcast pool feed flags"
  shows "keyed_shard pool (awp_hash_key feed symbol) = awp_compute_shard (Some pool) feed symbol flags"
proof -
  have "n_workers (cfg pool) \<noteq> 0" using assms(1) by (auto simp: wf_shard_map_def)
  then show ?thesis
    using assms(2) by (auto simp: keyed_shard_def awp_compute_shard_def is_broadcast_def Let_def)
qed

theorem keyed_shard_agrees_witness:
  "keyed_shard demo_pool (awp_hash_key (Some [116, 0]) (Some [66, 0]))
     = awp_compute_shard (Some demo_pool) (Some [116, 0]) (Some [66, 0]) 0"
proof (rule keyed_shard_agrees)
  show "wf_shard_map demo_pool" by (simp add: wf_shard_map_def demo_pool_def demo_cfg_def)
  show "\<not> is_broadcast demo_pool (Some [116, 0]) 0"
    by (simp add: is_broadcast_def feed_is_broadcast_def demo_pool_def demo_cfg_def streq_def content_def
        AWP_FRAME_BROADCAST_def)
qed

text \<open>C33. The keyed path does not return once the pool stopped admitting: the refusal
  \<open>-EINVAL\<close> of \<open>awp_claim_frame\<close> is handled like a full queue, so on a pool that is stopped,
  quarantined or being destroyed, and stays so, \<open>awp_submit_keyed\<close> never returns.\<close>

theorem awp_submit_keyed_stuck:
  assumes "not_admitting pool" and "\<forall>t p. not_admitting p \<longrightarrow> not_admitting (v_act W t p)"
  shows "awp_submit_keyed W in_cb me t (Some pool) key feed symbol payload n flags = None"
  using keyed_loop_stuck [of W pool] assms by (simp add: awp_submit_keyed_def)

theorem awp_submit_keyed_stuck_witness:
  "awp_submit_keyed still False 1 0 (Some (mini_pool\<lparr>lifecycle := AWP_LIFE_STOPPED\<rparr>)) 3 None None None 0 0 = None"
  by (rule awp_submit_keyed_stuck) (simp_all add: not_admitting_def)

section \<open>The frame behind a popped slot\<close>

lemma popped_frames [simp]:
  "r_base (popped r) = r_base r" "ring_index (popped r) = ring_index r"
  "r_enqueue_pos (popped r) = r_enqueue_pos r" "ring_pos (popped r) j = ring_pos r (Suc j)"
  by (simp_all add: popped_def release_cell_def set_cell_def Let_def awp_ring_wake_if_needed_def ring_index_def
      ring_pos_def algebra_simps fun_eq_iff)

lemma popped_wf:
  assumes "queue_wf r" and "ring_abs r = s # rest"
  shows "queue_wf (popped r) \<and> Suc (ring_len (popped r)) = ring_len r \<and> queued r = map_option (\<lambda>x. r_frames r ! ptr_index x) s # queued (popped r)"
proof -
  have ok: "ring_ok r" using assms(1) by (simp add: queue_wf_def)
  note ps = popped_spec [OF ok assms(2)]
  have l: "Suc (ring_len (popped r)) = ring_len r"
    using length_ring_abs [of r] length_ring_abs [of "popped r"] assms(2) ps(2) by simp
  have "slot (popped r) j = slot r (Suc j)" if "j < ring_len (popped r)" for j
    using that l nth_ring_abs [of j "popped r"] nth_ring_abs [of "Suc j" r] ps(2) assms(2) by simp
  then have "queue_wf (popped r)"
    using assms(1) ps l by (auto simp: queue_wf_def)
  then show ?thesis using l assms(2) ps(2) by (simp add: queued_def)
qed

lemma full_index:
  assumes "ring_ok r" and "ring_len r = ring_cap r"
  shows "ring_index r (r_enqueue_pos r) = ring_index r (ring_pos r 0)"
proof -
  have G: "ring_geom r" using assms(1) by (simp add: ring_ok_def)
  show ?thesis
    using ring_index_add [OF G, of "r_dequeue_pos r" "ring_cap r"] ring_index_add [OF G, of "r_dequeue_pos r" 0] assms(2)
    by (simp add: enqueue_pos_eq ring_pos_def)
qed

text \<open>C32. A frame can be overwritten while the worker processes it: popping gives the cell back
  before \<open>process()\<close> runs, and the frame lives in the slab slot of that cell. When a worker takes a
  frame from a full queue, the next submit to that queue is accepted at once and writes its
  frame into the very slot whose pointer the worker just got.\<close>

theorem popped_frame_overwritten:
  assumes "pool_wf pool" and "i < n_wk pool" and "\<not> not_admitting pool" and "\<not> r_closed (queue pool i)"
    and "ring_len (queue pool i) = ring_cap (queue pool i)" and "ring_abs (queue pool i) = Some x # rest"
  shows "pop_sc_pass act cas (queue pool i) = (Return 0, Some x, popped (queue pool i))
    \<and> (\<exists>p2. submit_try wr i True (upd_queue i (\<lambda>_. popped (queue pool i)) pool) = (Stored, p2)
         \<and> r_frames (queue p2 i) ! ptr_index x = wr (seq pool) (r_frames (queue pool i) ! ptr_index x))"
proof -
  let ?r = "queue pool i" and ?p1 = "upd_queue i (\<lambda>_. popped (queue pool i)) pool"
  have wf: "queue_wf ?r" by (rule pool_wf_queue [OF assms(1,2)])
  then have ok: "ring_ok ?r" and G: "ring_geom ?r" by (auto simp: queue_wf_def ring_ok_def)
  have il: "i < length (workers pool)" using assms(1,2) by (simp add: pool_wf_def)
  have q1: "queue ?p1 i = popped ?r" using il by (simp add: queue_upd)
  note pw = popped_wf [OF wf assms(6)]
  have room: "ring_len (popped ?r) < ring_cap (popped ?r)"
    using pw assms(5) popped_spec(3) [OF ok assms(6)] by simp
  have na: "not_admitting ?p1 = False" "r_closed (queue ?p1 i) = False"
    using assms(3,4) q1 by (simp_all add: not_admitting_def)
  let ?k = "ring_index ?r (ring_pos ?r 0)"
  have z: "slot ?r 0 = Some x" using assms(6) nth_ring_abs [of 0 ?r] length_ring_abs [of ?r] by simp
  moreover have "0 < ring_len ?r" using assms(6) length_ring_abs [of ?r] by simp
  ultimately have x: "ptr_index x = ?k" using wf unfolding queue_wf_def by force
  have k: "?k < length (r_frames ?r)"
    using ring_index_less [OF G] ring_cap_bounds(3) [OF G] wf by (simp add: queue_wf_def)
  have fr: "r_frames (stored g (popped ?r)) ! ?k = g (r_frames ?r ! ?k)" for g
    using k full_index [OF ok assms(5)] by (simp add: stored_def) (simp add: upd_frame_def)
  have "submit_try wr i True ?p1
      = (Stored, upd_queue i (\<lambda>_. stored (wr (seq ?p1)) (popped ?r)) (?p1\<lparr>seq := seq ?p1 + 1\<rparr>))"
    using submit_try_spec [of ?p1 i wr True] pw room na by (simp add: q1)
  moreover have "pop_sc_pass act cas ?r = (Return 0, Some x, popped ?r)"
    using pop_pass_spec(1) [OF ok] assms(6) by simp
  moreover have "i < length (workers (?p1\<lparr>seq := seq ?p1 + 1\<rparr>))" using il by simp
  ultimately show ?thesis using fr x by (simp add: queue_upd)
qed

text \<open>A pool whose second queue is full: two frames stored in a ring of two.\<close>

definition full_ring :: awp_ring where
  "full_ring = stored id (stored id demo_ring)"

definition full_pool :: awp_pool where
  "full_pool = upd_queue 1 (\<lambda>_. full_ring) mini_pool"

lemma full_ring_wf: "queue_wf full_ring" "ring_len full_ring = 2" "ring_cap full_ring = 2" "\<not> r_closed full_ring"
  "\<exists>x rest. ring_abs full_ring = Some x # rest"
proof -
  have 1: "queue_wf (stored id demo_ring)" "ring_len (stored id demo_ring) = 1" "ring_cap (stored id demo_ring) = 2"
    "r_closed (stored id demo_ring) = False"
    using stored_spec [OF demo_ring_wf(1), of id] demo_ring_ok by simp_all
  show "queue_wf full_ring" "ring_len full_ring = 2" "ring_cap full_ring = 2" "\<not> r_closed full_ring"
    using stored_spec [OF 1(1), of id] 1 by (simp_all add: full_ring_def)
  have "queued full_ring = queued (stored id demo_ring) @ [Some (id (r_frames (stored id demo_ring) ! ring_index (stored id demo_ring) (r_enqueue_pos (stored id demo_ring))))]"
    using stored_spec(2) [OF 1(1), of id] 1 by (simp add: full_ring_def)
  moreover have "\<exists>y. queued (stored id demo_ring) = [Some y]"
    using stored_spec(2) [OF demo_ring_wf(1), of id] demo_ring_ok demo_ring_wf(2) by simp
  ultimately obtain y ys where "queued full_ring = Some y # ys" by auto
  then show "\<exists>x rest. ring_abs full_ring = Some x # rest" by (cases "ring_abs full_ring") (auto simp: queued_def)
qed

lemma full_pool_wf: "pool_wf full_pool" "queue full_pool 1 = full_ring" "\<not> not_admitting full_pool" "n_wk full_pool = 2"
proof -
  have n: "n_wk mini_pool = 2" "1 < length (workers mini_pool)" by (simp_all add: mini_pool_def mini_cfg_def)
  show "pool_wf full_pool" unfolding full_pool_def
    by (rule pool_wf_upd_queue [OF mini_pool_wf(1)]) (use n full_ring_wf in simp_all)
  show "queue full_pool 1 = full_ring" using n by (simp add: full_pool_def queue_upd)
  show "\<not> not_admitting full_pool" using mini_pool_wf(3) by (simp add: full_pool_def not_admitting_def)
  show "n_wk full_pool = 2" using n by (simp add: full_pool_def)
qed

theorem popped_frame_overwritten_witness:
  "\<exists>x p2. pop_sc_pass id True (queue full_pool 1) = (Return 0, Some x, popped (queue full_pool 1))
     \<and> submit_try (\<lambda>sq f. f\<lparr>f_flags := 77\<rparr>) 1 True (upd_queue 1 (\<lambda>_. popped (queue full_pool 1)) full_pool) = (Stored, p2)
     \<and> f_flags (r_frames (queue p2 1) ! ptr_index x) = 77"
proof -
  obtain x rest where x: "ring_abs (queue full_pool 1) = Some x # rest"
    using full_ring_wf(5) full_pool_wf(2) by auto
  from popped_frame_overwritten [OF full_pool_wf(1) _ full_pool_wf(3) _ _ x, of id True "\<lambda>sq f. f\<lparr>f_flags := 77\<rparr>"]
  show ?thesis using full_ring_wf full_pool_wf by auto
qed

end
