(* ===== verification/Worker.thy ===== *)
theory Worker
  imports Submit_Spec
begin

text \<open>
  \<open>src/worker.c\<close>: the worker thread and the joins with a deadline. The application's \<open>process\<close> is
  an argument: \<open>proc t f\<close> is its result on frame \<open>f\<close> when it is called at time \<open>t\<close>. What thread
  creation, the allocator and \<open>pthread_join\<close> answer is an argument too. The box through which
  the joining thread and its detached helper share ownership is a state machine of its own.
\<close>

section \<open>Pop from a worker's queue\<close>

definition pop_pass :: "(awp_ring \<Rightarrow> awp_ring) \<Rightarrow> bool \<Rightarrow> awp_ring \<Rightarrow> pass \<times> frame_ptr option \<times> awp_ring" where
  "pop_pass act cas r =
     (if r_mode r = AWP_RING_SPSC \<or> r_mode r = AWP_RING_MPSC then pop_sc_pass act cas r
      else pop_mc_pass act cas r)"

text \<open>\<open>awp_ring_pop\<close> on the queue of worker \<open>i\<close>, in the pool. On an empty closed queue the code
  reads the cell a second time; the other threads move in between.\<close>

partial_function (option) queue_pop ::
  "world \<Rightarrow> nat \<Rightarrow> nat \<Rightarrow> nat \<Rightarrow> nat \<Rightarrow> awp_pool \<Rightarrow> (int \<times> frame_ptr option \<times> nat \<times> awp_pool) option" where
  "queue_pop W me i spin t pool0 =
     (let pool = v_act W t pool0; r = queue pool i
      in case pop_pass id (v_cas W t) r of
           (Return rc, out, r') \<Rightarrow>
             if rc = 0 then Some (0, out, t + 2, upd_queue i (\<lambda>_. r') pool)
             else let pool' = v_act W (Suc t) pool; pos = r_dequeue_pos r
                  in if seq_dif (c_sequence (ring_cell (queue pool' i) pos)) (pos + 1) = 0
                     then queue_pop W me i spin (t + 2) pool'
                     else Some (- 1, None, t + 2, pool')
         | (Wait, _, _) \<Rightarrow>
             if spin < AWP_SPIN_BUDGET then queue_pop W me i (Suc spin) (t + 2) pool
             else do { (t', pool') \<leftarrow> queue_wait_for empty_to_wait W me i (t + 2) pool;
                       queue_pop W me i 0 t' pool' }
         | (Again, _, _) \<Rightarrow> queue_pop W me i spin (t + 2) pool)"

section \<open>The worker thread\<close>

text \<open>The content behind a frame pointer that the worker of queue \<open>i\<close> got.\<close>

definition in_slab :: "awp_ring \<Rightarrow> frame_ptr \<Rightarrow> bool" where
  "in_slab r f \<longleftrightarrow> r_frames r \<noteq> [] \<and> ptr_block f = r_base r \<and> ptr_index f < unat (r_capacity r)"

definition frame_at :: "awp_pool \<Rightarrow> nat \<Rightarrow> frame_ptr \<Rightarrow> awp_frame" where
  "frame_at pool i f =
     (if in_slab (queue pool i) f then r_frames (queue pool i) ! ptr_index f
      else p_slab (frames pool) ! ptr_index f)"

definition progress :: "u64 \<Rightarrow> awp_worker \<Rightarrow> awp_worker" where
  "progress now w = w\<lparr>w_last_progress_ns := now\<rparr>"

text \<open>The counters after \<open>process\<close> returned \<open>prc\<close>; without a callback nothing is called.\<close>

definition count_result :: "nat \<Rightarrow> int \<Rightarrow> awp_pool \<Rightarrow> awp_pool" where
  "count_result i prc pool =
     (let pool = (if prc \<noteq> 0
                  then (upd_worker i (\<lambda>w. w\<lparr>w_process_errors := w_process_errors w + 1\<rparr>) pool)
                         \<lparr>process_errors := process_errors pool + 1\<rparr>
                  else pool)
      in upd_worker i (\<lambda>w. w\<lparr>w_processed := w_processed w + 1\<rparr>) pool)"

definition process_frame ::
  "(nat \<Rightarrow> awp_frame \<Rightarrow> int) \<Rightarrow> world \<Rightarrow> nat \<Rightarrow> nat \<Rightarrow> awp_pool \<Rightarrow> frame_ptr \<Rightarrow> (nat \<times> awp_pool) option" where
  "process_frame proc W i t pool f =
     do { (t, pool) \<leftarrow> hwm_loop W i (awp_ring_depth (queue pool i)) t pool;
          let pool = upd_worker i (progress (v_clk W t)) pool;
              prc = (if cfg_process (cfg pool) then proc t (frame_at pool i f) else 0);
              pool = count_result i prc (v_act W t pool);
              pool = upd_worker i (progress (v_clk W (Suc t))) pool
          in if \<not> in_slab (queue pool i) f
             then do { (t', fp) \<leftarrow> awp_frame_pool_release (v_frames W) 0 (Some (frames pool)) (Some f);
                       Some (Suc t, pool\<lparr>frames := (case fp of Some p \<Rightarrow> p | None \<Rightarrow> frames pool)\<rparr>) }
             else Some (Suc t, pool) }"

partial_function (option) worker_loop ::
  "(nat \<Rightarrow> awp_frame \<Rightarrow> int) \<Rightarrow> world \<Rightarrow> nat \<Rightarrow> nat \<Rightarrow> nat \<Rightarrow> awp_pool \<Rightarrow> (nat \<times> awp_pool) option" where
  "worker_loop proc W me i t pool0 =
     (let pool = v_act W t pool0
      in if w_stop (worker pool i) \<and> awp_ring_depth (queue pool i) = 0 then Some (Suc t, pool)
         else do { (rc, fo, t, pool) \<leftarrow> queue_pop W me i 0 (Suc t) pool;
                   if rc \<noteq> 0 then Some (t, pool)
                   else case fo of
                          None \<Rightarrow> worker_loop proc W me i t pool
                        | Some f \<Rightarrow>
                            do { (t, pool) \<leftarrow> process_frame proc W i t pool f;
                                 worker_loop proc W me i t pool } })"

definition awp_worker_main ::
  "(nat \<Rightarrow> awp_frame \<Rightarrow> int) \<Rightarrow> world \<Rightarrow> nat \<Rightarrow> nat \<Rightarrow> nat \<Rightarrow> awp_pool \<Rightarrow> (nat \<times> awp_pool) option" where
  "awp_worker_main proc W me i t pool =
     do { (t, pool) \<leftarrow> worker_loop proc W me i (Suc t)
            (upd_worker i (\<lambda>w. progress (v_clk W t) (w\<lparr>w_state := AWP_W_RUNNING\<rparr>)) pool);
          Some (t, upd_worker i (\<lambda>w. w\<lparr>w_state := AWP_W_EXITED\<rparr>) pool) }"

text \<open>\<open>crc\<close> is the result of \<open>pthread_create\<close>.\<close>

definition awp_worker_start :: "int \<Rightarrow> nat \<Rightarrow> awp_pool \<Rightarrow> int \<times> awp_pool" where
  "awp_worker_start crc i pool =
     (let pool = upd_worker i (\<lambda>w. w\<lparr>w_stop := False, w_joined := False, w_state := AWP_W_STARTING,
                                      w_generation := w_generation w + 1\<rparr>) pool
      in if crc \<noteq> 0
         then (- crc, upd_worker i (\<lambda>w. w\<lparr>w_state := AWP_W_JOINED, w_joined := True\<rparr>) pool)
         else (0, upd_worker i (\<lambda>w. w\<lparr>w_live := True\<rparr>) pool))"

section \<open>Joins with a deadline\<close>

text \<open>The answers of the calls that set up the helper, and the helper's progress: \<open>jn_done t\<close> tells
  whether its \<open>pthread_join\<close> has returned by time \<open>t\<close>, and \<open>jn_rc\<close> what it returned.\<close>

record join_env =
  jn_calloc :: bool
  jn_mutex :: bool
  jn_cond :: bool
  jn_attr :: bool
  jn_detach :: int
  jn_create :: int
  jn_done :: "nat \<Rightarrow> bool"
  jn_rc :: int

partial_function (option) join_wait ::
  "world \<Rightarrow> join_env \<Rightarrow> u64 \<Rightarrow> nat \<Rightarrow> awp_pool \<Rightarrow> (int \<times> nat \<times> awp_pool) option" where
  "join_wait W J deadline t pool0 =
     (let pool = v_act W t pool0
      in if jn_done J t then Some (if jn_rc J = 0 then 0 else - jn_rc J, Suc t, pool)
         else if v_clk W t \<ge> deadline then Some (1, Suc t, pool)
         else join_wait W J deadline (Suc t) pool)"

definition awp_pthread_join_deadline ::
  "world \<Rightarrow> join_env \<Rightarrow> u64 \<Rightarrow> nat \<Rightarrow> awp_pool \<Rightarrow> (int \<times> nat \<times> awp_pool) option" where
  "awp_pthread_join_deadline W J deadline t pool =
     (if v_clk W t \<ge> deadline then Some (1, Suc t, pool)
      else if \<not> jn_calloc J then Some (- ENOMEM, Suc t, pool)
      else if \<not> jn_mutex J then Some (- ENOMEM, Suc t, pool)
      else if \<not> jn_cond J then Some (- ENOMEM, Suc t, pool)
      else if \<not> jn_attr J then Some (- ENOMEM, Suc t, pool)
      else if jn_detach J \<noteq> 0 then Some (- jn_detach J, Suc t, pool)
      else if jn_create J \<noteq> 0 then Some (- jn_create J, Suc t, pool)
      else join_wait W J deadline (Suc t) pool)"

definition join_exited_deadline ::
  "world \<Rightarrow> join_env \<Rightarrow> nat \<Rightarrow> u64 \<Rightarrow> nat \<Rightarrow> awp_pool \<Rightarrow> (int \<times> nat \<times> awp_pool) option" where
  "join_exited_deadline W J i deadline t pool =
     (if w_joined (worker pool i) then Some (0, t, pool)
      else do { (rc, t, pool) \<leftarrow> awp_pthread_join_deadline W J deadline t pool;
                if rc = 0
                then Some (0, t, upd_worker i (\<lambda>w. w\<lparr>w_joined := True, w_state := AWP_W_JOINED, w_live := False\<rparr>) pool)
                else if rc = 1
                then Some (1, t, upd_worker i (\<lambda>w. w\<lparr>w_state := AWP_W_QUARANTINED\<rparr>) (awp_pool_mark_quarantined pool))
                else Some (- rc, t, awp_pool_mark_quarantined pool) })"

definition busy :: "awp_wstate \<Rightarrow> bool" where
  "busy st \<longleftrightarrow> st = AWP_W_STARTING \<or> st = AWP_W_RUNNING"

partial_function (option) poll_busy ::
  "world \<Rightarrow> nat \<Rightarrow> u64 \<Rightarrow> nat \<Rightarrow> awp_pool \<Rightarrow> (nat \<times> awp_pool) option" where
  "poll_busy W i limit t pool0 =
     (let pool = v_act W t pool0
      in if busy (w_state (worker pool i)) \<and> v_clk W t < limit then poll_busy W i limit (Suc t) pool
         else Some (Suc t, pool))"

text \<open>Result: the return code, \<open>*aborted\<close>, the time and the pool.\<close>

definition awp_worker_join_deadline ::
  "world \<Rightarrow> join_env \<Rightarrow> nat \<Rightarrow> u64 \<Rightarrow> nat \<Rightarrow> awp_pool \<Rightarrow> (int \<times> bool \<times> nat \<times> awp_pool) option" where
  "awp_worker_join_deadline W J i deadline t pool =
     (if w_joined (worker pool i) then Some (0, False, t, pool)
      else if w_state (worker pool i) = AWP_W_QUARANTINED
      then Some (1, True, t, awp_pool_mark_quarantined pool)
      else
        do { (t, pool) \<leftarrow> poll_busy W i deadline t pool;
             let st = w_state (worker pool i)
             in if st = AWP_W_EXITED \<or> st = AWP_W_JOINED
                then do { (rc, t, pool) \<leftarrow> join_exited_deadline W J i deadline t pool;
                          Some (if rc \<noteq> 0 then (1, True, t, pool) else (0, False, t, pool)) }
                else
                  let pool = upd_worker i (\<lambda>w. w\<lparr>w_stop := True, w_queue := awp_ring_close (w_queue w)\<rparr>) pool;
                      now = v_clk W t;
                      grace_end = (if deadline > now + 200000000 then now + 200000000 else deadline)
                  in do { (t, pool) \<leftarrow> poll_busy W i (min grace_end deadline) t pool;
                          if w_state (worker pool i) = AWP_W_EXITED
                          then do { (rc, t, pool) \<leftarrow> join_exited_deadline W J i deadline t pool;
                                    Some (1, True, t, pool) }
                          else Some (1, True, t, awp_pool_mark_quarantined
                                       (upd_worker i (\<lambda>w. w\<lparr>w_state := AWP_W_QUARANTINED\<rparr>) pool)) } })"

section \<open>The join box\<close>

text \<open>
  \<open>awp_join_box_t\<close> is shared by the thread that waits for a join and the detached helper that
  performs it; both hold the box's mutex for each of the steps below. \<open>bx_frees\<close> counts the
  calls of \<open>awp_join_box_free\<close>.
\<close>

datatype waiter_pc = Polling | Leaving | Timed_out | Finished
datatype helper_pc = Joining | Freeing | Ended

record join_box =
  bx_done :: bool
  bx_released :: bool
  bx_frees :: nat
  bx_waiter :: waiter_pc
  bx_helper :: helper_pc

definition box_init :: join_box where
  "box_init = \<lparr>bx_done = False, bx_released = False, bx_frees = 0, bx_waiter = Polling, bx_helper = Joining\<rparr>"

text \<open>\<open>waiter_look\<close> is one pass of the poll loop, \<open>timeout\<close> telling whether the deadline passed.\<close>

definition waiter_look :: "bool \<Rightarrow> join_box \<Rightarrow> join_box" where
  "waiter_look timeout b =
     (if bx_done b then b\<lparr>bx_waiter := Leaving\<rparr>
      else if timeout then b\<lparr>bx_released := True, bx_waiter := Timed_out\<rparr>
      else b)"

definition waiter_free :: "join_box \<Rightarrow> join_box" where
  "waiter_free b = b\<lparr>bx_frees := bx_frees b + 1, bx_waiter := Finished\<rparr>"

definition awp_join_helper :: "join_box \<Rightarrow> join_box" where
  "awp_join_helper b =
     b\<lparr>bx_done := True, bx_helper := (if bx_released b then Freeing else Ended)\<rparr>"

definition helper_free :: "join_box \<Rightarrow> join_box" where
  "helper_free b = b\<lparr>bx_frees := bx_frees b + 1, bx_helper := Ended\<rparr>"

inductive box_step :: "join_box \<Rightarrow> join_box \<Rightarrow> bool" where
  look: "bx_waiter b = Polling \<Longrightarrow> box_step b (waiter_look timeout b)"
| leave: "bx_waiter b = Leaving \<Longrightarrow> box_step b (waiter_free b)"
| joined: "bx_helper b = Joining \<Longrightarrow> box_step b (awp_join_helper b)"
| free: "bx_helper b = Freeing \<Longrightarrow> box_step b (helper_free b)"

inductive box_reach :: "join_box \<Rightarrow> bool" where
  init: "box_reach box_init"
| step: "box_reach b \<Longrightarrow> box_step b b' \<Longrightarrow> box_reach b'"

end
