(* ===== verification/Worker_Spec.thy ===== *)
theory Worker_Spec
  imports Worker
begin

text \<open>
  What the worker thread and the joins of theory \<open>Worker\<close> do. \<open>good R\<close> is the pool invariant
  together with the routing data that no thread changes. The properties: the join box is freed
  once, a join with a deadline returns and tells what became of the thread, and a worker drains
  a closed queue to the last frame.
\<close>

section \<open>Ownership of the join box\<close>

inductive_cases box_stepE: "box_step b b'"

definition box_ok :: "join_box \<Rightarrow> bool" where
  "box_ok b \<longleftrightarrow>
     (bx_released b \<longleftrightarrow> bx_waiter b = Timed_out)
     \<and> (bx_done b \<longleftrightarrow> bx_helper b \<noteq> Joining)
     \<and> (bx_helper b = Freeing \<longrightarrow> bx_released b)
     \<and> (bx_waiter b = Leaving \<or> bx_waiter b = Finished \<longrightarrow> bx_helper b = Ended)
     \<and> bx_frees b = (if bx_waiter b = Finished \<or> bx_waiter b = Timed_out \<and> bx_helper b = Ended then 1 else 0)"

lemma box_reach_ok: "box_reach b \<Longrightarrow> box_ok b"
proof (induction rule: box_reach.induct)
  case init
  then show ?case by (simp add: box_ok_def box_init_def)
next
  case (step b b')
  from step.hyps(2) step.IH show ?case
    by (elim box_stepE)
      (auto simp: box_ok_def waiter_look_def waiter_free_def awp_join_helper_def helper_free_def split: if_splits;
        (cases "bx_helper b"; simp))+
qed

text \<open>C28. The join box is freed exactly once and never used after that: it is never freed twice,
  as long as the waiting thread polls or leaves, or the helper joins or is about to free, it is
  still allocated, and when both are through it has been freed.\<close>

theorem join_box_freed_once:
  assumes "box_reach b"
  shows "bx_frees b \<le> 1
    \<and> (bx_waiter b = Polling \<or> bx_waiter b = Leaving \<or> bx_helper b = Joining \<or> bx_helper b = Freeing \<longrightarrow> bx_frees b = 0)
    \<and> ((bx_waiter b = Finished \<or> bx_waiter b = Timed_out) \<and> bx_helper b = Ended \<longrightarrow> bx_frees b = 1)"
  using box_reach_ok [OF assms] by (auto simp: box_ok_def)

theorem join_box_freed_once_witness:
  "\<exists>b. box_reach b \<and> bx_waiter b = Timed_out \<and> bx_helper b = Ended \<and> bx_frees b = 1"
proof -
  let ?b1 = "waiter_look True box_init"
  let ?b2 = "awp_join_helper ?b1"
  have "box_reach ?b1" by (rule box_reach.step [OF box_reach.init box_step.look]) (simp add: box_init_def)
  then have "box_reach ?b2"
    by (rule box_reach.step [OF _ box_step.joined]) (simp add: box_init_def waiter_look_def)
  then have r: "box_reach (helper_free ?b2)"
    by (rule box_reach.step [OF _ box_step.free]) (simp add: box_init_def waiter_look_def awp_join_helper_def)
  have s: "bx_waiter (helper_free ?b2) = Timed_out" "bx_helper (helper_free ?b2) = Ended"
    by (simp_all add: box_init_def waiter_look_def awp_join_helper_def helper_free_def)
  from join_box_freed_once [OF r] s r show ?thesis by blast
qed

section \<open>Pools in a fair world\<close>

definition good :: "awp_config \<times> cstr option list \<times> u32 \<times> u32 \<times> u32 \<Rightarrow> awp_pool \<Rightarrow> bool" where
  "good R pool \<longleftrightarrow> pool_wf pool \<and> routing pool = R"

lemma good_act: "fair_world W \<Longrightarrow> good R p \<Longrightarrow> good R (v_act W t p)"
  by (auto simp: good_def fair_world_def)

lemma good_index: "good R p \<Longrightarrow> i < unat (n_workers (fst R)) \<Longrightarrow> i < length (workers p) \<and> i < n_wk p"
  by (auto simp: good_def pool_wf_def routing_def)

lemma good_upd_worker:
  assumes "good R p" and "i < unat (n_workers (fst R))" and "queue_wf (w_queue (f (worker p i)))"
  shows "good R (upd_worker i f p)"
proof -
  have i: "i < length (workers p)" using good_index [OF assms(1,2)] by simp
  have "routing (upd_worker i f p) = routing p" "wf_shard_map (upd_worker i f p) = wf_shard_map p"
    by (simp_all add: routing_def wf_shard_map_def upd_worker_def)
  then show ?thesis using assms i by (auto simp: good_def pool_wf_def worker_upd)
qed

lemma good_queue: "good R p \<Longrightarrow> i < unat (n_workers (fst R)) \<Longrightarrow> queue_wf (queue p i)"
  by (auto simp: good_def pool_wf_def routing_def)

lemma good_upd_queue:
  "good R p \<Longrightarrow> i < unat (n_workers (fst R)) \<Longrightarrow> queue_wf (f (queue p i)) \<Longrightarrow> good R (upd_queue i f p)"
  unfolding upd_queue_def by (rule good_upd_worker) simp_all

lemma good_keep:
  assumes "good R p" and "i < unat (n_workers (fst R))" and "\<And>w. w_queue (f w) = w_queue w"
  shows "good R (upd_worker i f p)"
  by (rule good_upd_worker [OF assms(1,2)]) (use good_queue [OF assms(1,2)] assms(3) in simp)

lemma good_mark: "good R (awp_pool_mark_quarantined p) = good R p"
  by (simp add: good_def pool_wf_def wf_shard_map_def routing_def awp_pool_mark_quarantined_def
      awp_frame_pool_close_def worker_def)

lemma queue_wf_close [simp]: "queue_wf (awp_ring_close r) = queue_wf r" "queue_wf (awp_ring_reopen r) = queue_wf r"
  by (simp_all add: awp_ring_close_def awp_ring_reopen_def awp_ring_wake_all_def queue_wf_def slot_def ring_index_def
      cong: conj_cong)

lemma close_fields [simp]: "r_closed (awp_ring_close r)" "ring_abs (awp_ring_close r) = ring_abs r"
  "\<not> r_closed (awp_ring_reopen r)" "ring_abs (awp_ring_reopen r) = ring_abs r"
  by (simp_all add: awp_ring_close_def awp_ring_reopen_def awp_ring_wake_all_def)

section \<open>Joins\<close>

text \<open>The clock passes the deadline and stays there.\<close>

definition passes :: "world \<Rightarrow> u64 \<Rightarrow> bool" where
  "passes W d \<longleftrightarrow> (\<exists>n. \<forall>t\<ge>n. d \<le> v_clk W t)"

lemma passes_le: "passes W d \<Longrightarrow> d' \<le> d \<Longrightarrow> passes W d'"
  by (auto simp: passes_def intro: order_trans)

text \<open>A property that the updates of a join of worker \<open>i\<close> keep.\<close>

definition join_keeps :: "nat \<Rightarrow> (awp_pool \<Rightarrow> bool) \<Rightarrow> bool" where
  "join_keeps i I \<longleftrightarrow>
     (\<forall>p. I p \<longrightarrow> i < length (workers p)
        \<and> I (upd_worker i (\<lambda>w. w\<lparr>w_joined := True, w_state := AWP_W_JOINED, w_live := False\<rparr>) p)
        \<and> I (upd_worker i (\<lambda>w. w\<lparr>w_state := AWP_W_QUARANTINED\<rparr>) p)
        \<and> I (upd_worker i (\<lambda>w. w\<lparr>w_stop := True, w_queue := awp_ring_close (w_queue w)\<rparr>) p)
        \<and> I (awp_pool_mark_quarantined p))"

lemma keeps_good: "fair_world W \<Longrightarrow> keeps W (good R)"
  by (simp add: keeps_def good_act)

lemma join_keeps_good:
  assumes "i < unat (n_workers (fst R))"
  shows "join_keeps i (good R)"
proof -
  have "good R (upd_worker i f p)" if "good R p" "\<And>w. queue_wf (w_queue w) \<Longrightarrow> queue_wf (w_queue (f w))" for f p
    by (rule good_upd_worker [OF that(1) assms]) (use good_queue [OF that(1) assms] that(2) in simp)
  then show ?thesis using good_index [OF _ assms] by (simp add: join_keeps_def good_mark)
qed

interpretation jw: poll_loop W "join_wait W J d"
  "\<lambda>t p. if jn_done J t then Some (if jn_rc J = 0 then 0 else - jn_rc J, Suc t, p)
         else if v_clk W t \<ge> d then Some (1, Suc t, p) else None" for W J d
  by unfold_locales (subst join_wait.simps, simp add: Let_def)

interpretation pb: poll_loop W "poll_busy W i d"
  "\<lambda>t p. if busy (w_state (worker p i)) \<and> v_clk W t < d then None else Some (Suc t, p)" for W i d
  by unfold_locales (subst poll_busy.simps, simp add: Let_def)

lemma join_wait_returns:
  assumes n: "\<forall>t\<ge>n. d \<le> v_clk W t" and "keeps W I" and "I pool"
  shows "\<exists>rc t' p'. join_wait W J d t pool = Some (rc, t', p') \<and> I p'
    \<and> (rc = 0 \<longrightarrow> jn_rc J = 0 \<and> (\<exists>u. jn_done J u))"
  using jw.returns [OF assms(2) _ assms(3), where n = n and d = d and J = J and t = t] n by (fastforce split: if_splits)

lemma pthread_join_returns:
  assumes "passes W d" and "keeps W I" and "I pool"
  shows "\<exists>rc t' p'. awp_pthread_join_deadline W J d t pool = Some (rc, t', p') \<and> I p'
    \<and> (rc = 0 \<longrightarrow> jn_rc J = 0 \<and> (\<exists>u. jn_done J u))"
proof -
  obtain n where n: "\<forall>t\<ge>n. d \<le> v_clk W t" using assms(1) by (auto simp: passes_def)
  from join_wait_returns [OF n assms(2,3), of J "Suc t"] assms(3) show ?thesis
    by (auto simp: awp_pthread_join_deadline_def errno_defs)
qed

lemma poll_busy_returns:
  assumes "passes W d" and "keeps W I" and "I pool"
  shows "\<exists>t' p'. poll_busy W i d t pool = Some (t', p') \<and> I p'"
proof -
  obtain n where n: "\<forall>t\<ge>n. d \<le> v_clk W t" using assms(1) by (auto simp: passes_def)
  show ?thesis
    using pb.returns [OF assms(2) _ assms(3), where n = n and i = i and d = d and t = t] n by (fastforce simp: not_less split: if_splits)
qed

text \<open>Other threads leave a worker alone that is neither starting nor running.\<close>

definition at_rest :: "nat \<Rightarrow> awp_pool \<Rightarrow> bool" where
  "at_rest i p \<longleftrightarrow> \<not> busy (w_state (worker p i))"

lemma join_exited_returns:
  assumes "passes W d" and W: "keeps W I" and K: "join_keeps i I" and "I pool"
  shows "\<exists>rc t' p'. join_exited_deadline W J i d t pool = Some (rc, t', p') \<and> I p'
    \<and> (if rc = 0 then w_joined (worker p' i) else quarantined p')
    \<and> (keeps W (\<lambda>p. I p \<and> at_rest i p) \<longrightarrow> at_rest i pool \<longrightarrow> at_rest i p')"
proof -
  obtain rc t1 p1 where j: "awp_pthread_join_deadline W J d t pool = Some (rc, t1, p1)" and g: "I p1"
    using pthread_join_returns [OF assms(1,2,4)] by blast
  have r: "at_rest i p1" if "keeps W (\<lambda>p. I p \<and> at_rest i p)" "at_rest i pool"
    using pthread_join_returns [OF assms(1) that(1), of pool J t] assms(4) that(2) j by auto
  have l: "i < length (workers p1)" using K g by (simp add: join_keeps_def)
  show ?thesis
    using j l g r K assms(4)
    by (auto simp: join_exited_deadline_def join_keeps_def worker_upd at_rest_def busy_def)
qed

lemma worker_join_returns:
  assumes "passes W d" and W: "keeps W I" and K: "join_keeps i I" and "I pool"
  shows "\<exists>rc ab t' p'. awp_worker_join_deadline W J i d t pool = Some (rc, ab, t', p') \<and> I p'
    \<and> (rc = 0 \<and> \<not> ab \<and> w_joined (worker p' i) \<or> rc = 1 \<and> ab \<and> (quarantined p' \<or> w_joined (worker p' i)))
    \<and> (keeps W (\<lambda>p. I p \<and> at_rest i p) \<longrightarrow> (w_joined (worker pool i) \<longrightarrow> at_rest i pool) \<longrightarrow> at_rest i p')"
proof -
  consider "w_joined (worker pool i)" | "\<not> w_joined (worker pool i)" "w_state (worker pool i) = AWP_W_QUARANTINED"
    | "\<not> w_joined (worker pool i)" "w_state (worker pool i) \<noteq> AWP_W_QUARANTINED" by blast
  then show ?thesis
  proof cases
    case 1
    then have "awp_worker_join_deadline W J i d t pool = Some (0, False, t, pool)"
      by (simp add: awp_worker_join_deadline_def)
    then show ?thesis using assms(4) 1 by blast
  next
    case 2
    then show ?thesis
      using assms(4) K by (auto simp: awp_worker_join_deadline_def join_keeps_def at_rest_def busy_def)
  next
    case 3
    obtain t1 p1 where b1: "poll_busy W i d t pool = Some (t1, p1)" "I p1"
      using poll_busy_returns [OF assms(1,2,4)] by blast
    show ?thesis
    proof (cases "w_state (worker p1 i) = AWP_W_EXITED \<or> w_state (worker p1 i) = AWP_W_JOINED")
      case True
      then have rest: "at_rest i p1" by (auto simp: at_rest_def busy_def)
      obtain rc t2 p2 where e: "join_exited_deadline W J i d t1 p1 = Some (rc, t2, p2)" "I p2"
        "if rc = 0 then w_joined (worker p2 i) else quarantined p2"
        "keeps W (\<lambda>p. I p \<and> at_rest i p) \<longrightarrow> at_rest i p1 \<longrightarrow> at_rest i p2"
        using join_exited_returns [OF assms(1-3) b1(2)] by blast
      then show ?thesis using 3 b1(1) True rest by (auto simp: awp_worker_join_deadline_def split: if_splits)
    next
      case False
      let ?p2 = "upd_worker i (\<lambda>w. w\<lparr>w_stop := True, w_queue := awp_ring_close (w_queue w)\<rparr>) p1"
      let ?g = "if d > v_clk W t1 + 200000000 then v_clk W t1 + 200000000 else d"
      have g2: "I ?p2" using K b1(2) by (simp add: join_keeps_def)
      have "passes W (min ?g d)" by (rule passes_le [OF assms(1)]) simp
      from poll_busy_returns [OF this W g2] obtain t3 p3 where
        b3: "poll_busy W i (min ?g d) t1 ?p2 = Some (t3, p3)" "I p3" by blast
      obtain rc t4 p4 where e: "join_exited_deadline W J i d t3 p3 = Some (rc, t4, p4)" "I p4"
        "if rc = 0 then w_joined (worker p4 i) else quarantined p4"
        "keeps W (\<lambda>p. I p \<and> at_rest i p) \<longrightarrow> at_rest i p3 \<longrightarrow> at_rest i p4"
        using join_exited_returns [OF assms(1-3) b3(2)] by blast
      let ?p5 = "upd_worker i (\<lambda>w. w\<lparr>w_state := AWP_W_QUARANTINED\<rparr>) p3"
      have g5: "I (awp_pool_mark_quarantined ?p5)" and l: "i < length (workers p3)"
        using K b3(2) by (auto simp: join_keeps_def)
      have r5: "at_rest i (awp_pool_mark_quarantined ?p5)" using l by (simp add: at_rest_def busy_def worker_upd)
      show ?thesis
      proof (cases "w_state (worker p3 i) = AWP_W_EXITED")
        case True
        then have "at_rest i p3" by (simp add: at_rest_def busy_def)
        then show ?thesis
          using 3 b1(1) False b3(1) e True
          by (auto simp: awp_worker_join_deadline_def Let_def split: if_splits)
      next
        case nex: False
        have "awp_worker_join_deadline W J i d t pool = Some (1, True, t3, awp_pool_mark_quarantined ?p5)"
          using 3 b1(1) False b3(1) nex by (simp add: awp_worker_join_deadline_def Let_def)
        then show ?thesis using g5 r5 mark_quarantined_fields(1) by blast
      qed
    qed
  qed
qed

section \<open>Draining a closed queue\<close>

definition errs :: "(awp_frame \<Rightarrow> int) \<Rightarrow> awp_frame list \<Rightarrow> u64" where
  "errs proc fs = of_nat (length (filter (\<lambda>f. proc f \<noteq> 0) fs))"

lemma slab_head:
  assumes "queue_wf r" and "ring_abs r = Some x # rest"
  shows "in_slab r x"
proof -
  have G: "ring_geom r" and ok: "ring_ok r" using assms(1) by (auto simp: queue_wf_def ring_ok_def)
  have l: "0 < ring_len r" using assms(2) length_ring_abs [of r] by simp
  then have "slot r 0 = Some x" using assms(2) nth_ring_abs [of 0 r] by simp
  then have x: "x = FramePtr (r_base r) (ring_index r (ring_pos r 0))" using assms(1) l unfolding queue_wf_def by force
  have c: "ring_cap r = unat (r_capacity r)" by (simp add: ring_cap_def)
  have "ring_index r (ring_pos r 0) < ring_cap r" using ring_index_less [OF G] ring_cap_bounds(3) [OF G] by simp
  moreover have "r_frames r \<noteq> []" using assms(1) calculation by (auto simp: queue_wf_def)
  ultimately show ?thesis by (simp add: in_slab_def x c)
qed

lemma process_frame_still:
  assumes "i < length (workers p)" and "in_slab (queue p i) x" and "cfg_process (cfg p)"
  shows "\<exists>p'. process_frame (\<lambda>_. proc) still i t p x = Some (Suc (Suc t), p')
    \<and> (\<forall>j. queue p' j = queue p j) \<and> length (workers p') = length (workers p) \<and> routing p' = routing p
    \<and> w_stop (worker p' i) = w_stop (worker p i)
    \<and> w_processed (worker p' i) = w_processed (worker p i) + 1
    \<and> w_process_errors (worker p' i) = w_process_errors (worker p i) + errs proc [r_frames (queue p i) ! ptr_index x]
    \<and> process_errors p' = process_errors p + errs proc [r_frames (queue p i) ! ptr_index x]"
proof -
  define h where "h = (if ucast (awp_ring_depth (queue p i)) > w_queue_hwm (worker p i)
      then upd_worker i (\<lambda>w. w\<lparr>w_queue_hwm := ucast (awp_ring_depth (queue p i))\<rparr>) p else p)"
  have hl: "hwm_loop still i (awp_ring_depth (queue p i)) t p = Some (Suc t, h)"
    by (subst hwm_loop.simps) (simp add: Let_def h_def)
  have H: "length (workers h) = length (workers p)" "\<And>j. queue h j = queue p j" "routing h = routing p"
    "cfg h = cfg p" "w_stop (worker h i) = w_stop (worker p i)" "w_processed (worker h i) = w_processed (worker p i)"
    "w_process_errors (worker h i) = w_process_errors (worker p i)" "process_errors h = process_errors p"
    using assms(1) by (auto simp: h_def worker_upd routing_def) (auto simp: upd_worker_def)
  have r: "routing (upd_worker i f q) = routing q" "routing (q\<lparr>process_errors := y\<rparr>) = routing q"
    "worker (q\<lparr>process_errors := y\<rparr>) = worker q" for f q y
    by (simp_all add: routing_def upd_worker_def worker_def fun_eq_iff)
  let ?f = "r_frames (queue p i) ! ptr_index x"
  show ?thesis
  proof (cases "proc ?f = 0")
    case True
    then show ?thesis
      using H assms by (auto simp: process_frame_def hl Let_def count_result_def worker_upd progress_def frame_at_def
          r errs_def)
  next
    case False
    then show ?thesis
      using H assms by (auto simp: process_frame_def hl Let_def count_result_def worker_upd progress_def frame_at_def
          r errs_def)
  qed
qed

lemma pop_still:
  assumes "queue_wf (queue p i)"
  shows "ring_abs (queue p i) = Some x # rest \<Longrightarrow>
      queue_pop still me i s t p = Some (0, Some x, t + 2, upd_queue i (\<lambda>_. popped (queue p i)) p)"
    and "ring_abs (queue p i) = [] \<Longrightarrow> r_closed (queue p i) \<Longrightarrow> queue_pop still me i s t p = Some (- 1, None, t + 2, p)"
proof -
  have ok: "ring_ok (queue p i)" using assms by (simp add: queue_wf_def)
  show "queue_pop still me i s t p = Some (0, Some x, t + 2, upd_queue i (\<lambda>_. popped (queue p i)) p)"
    if "ring_abs (queue p i) = Some x # rest"
    using pop_pass_spec [OF ok, of id True] that by (subst queue_pop.simps) (simp add: pop_pass_def Let_def)
  show "queue_pop still me i s t p = Some (- 1, None, t + 2, p)"
    if "ring_abs (queue p i) = []" "r_closed (queue p i)"
  proof -
    have "c_sequence (ring_cell (queue p i) (r_dequeue_pos (queue p i))) \<noteq> r_dequeue_pos (queue p i) + 1"
      using deq_cell [OF ok] that by auto
    then show ?thesis
      using pop_pass_spec [OF ok, of id True] that by (subst queue_pop.simps) (simp add: pop_pass_def Let_def)
  qed
qed

lemma worker_loop_drains:
  assumes "good R pool" and "i < unat (n_workers (fst R))" and "cfg_process (fst R)"
    and "r_closed (queue pool i)" and "\<not> w_stop (worker pool i)" and "queued (queue pool i) = map Some fs"
  shows "\<exists>t' p'. worker_loop (\<lambda>_. proc) still me i t pool = Some (t', p') \<and> good R p' \<and> ring_abs (queue p' i) = []
    \<and> w_processed (worker p' i) = w_processed (worker pool i) + of_nat (length fs)
    \<and> w_process_errors (worker p' i) = w_process_errors (worker pool i) + errs proc fs
    \<and> process_errors p' = process_errors pool + errs proc fs"
  using assms(1,4-6)
proof (induction fs arbitrary: t pool)
  case Nil
  then have e: "ring_abs (queue pool i) = []" by (simp add: queued_def)
  show ?case
    by (subst worker_loop.simps)
      (use Nil pop_still(2) [OF good_queue [OF Nil(1) assms(2)] e Nil(2)] e in \<open>simp add: Let_def errs_def\<close>)
next
  case (Cons f fs)
  let ?r = "queue pool i"
  have wf: "queue_wf ?r" and il: "i < length (workers pool)"
    using good_queue [OF Cons.prems(1) assms(2)] good_index [OF Cons.prems(1) assms(2)] by auto
  obtain x rest where ab: "ring_abs ?r = Some x # rest" "f = r_frames ?r ! ptr_index x"
    using Cons.prems(4) by (cases "ring_abs ?r") (auto simp: queued_def map_option_case split: option.splits)
  note pw = popped_wf [OF wf ab(1)]
  let ?p1 = "upd_queue i (\<lambda>_. popped ?r) pool"
  have q1: "queue ?p1 i = popped ?r" using il by (simp add: queue_upd)
  have w1: "w_stop (worker ?p1 i) = w_stop (worker pool i)" "w_processed (worker ?p1 i) = w_processed (worker pool i)"
    "w_process_errors (worker ?p1 i) = w_process_errors (worker pool i)"
    using il by (simp_all add: upd_queue_def worker_upd)
  have c1: "cfg_process (cfg ?p1)" using Cons.prems(1) assms(3) by (auto simp: good_def routing_def)
  have sl: "in_slab (popped ?r) x"
    using slab_head [OF wf ab(1)] by (simp add: in_slab_def) (simp add: popped_def release_cell_def set_cell_def Let_def awp_ring_wake_if_needed_def)
  obtain p2 where p2: "process_frame (\<lambda>_. proc) still i (Suc t + 2) ?p1 x = Some (Suc (Suc (Suc t + 2)), p2)"
    and Q: "\<forall>j. queue p2 j = queue ?p1 j" "length (workers p2) = length (workers ?p1)" "routing p2 = routing ?p1"
      "w_stop (worker p2 i) = w_stop (worker ?p1 i)" "w_processed (worker p2 i) = w_processed (worker ?p1 i) + 1"
      "w_process_errors (worker p2 i) = w_process_errors (worker ?p1 i) + errs proc [f]"
      "process_errors p2 = process_errors ?p1 + errs proc [f]"
    using process_frame_still [of i ?p1 x proc "Suc t + 2"] il sl c1 q1 ab(2) by auto
  have g1: "good R ?p1"
    using good_upd_worker [OF Cons.prems(1) assms(2), of "\<lambda>w. w\<lparr>w_queue := popped ?r\<rparr>"] pw
    by (simp add: upd_queue_def)
  have "cfg p2 = cfg ?p1" "shard_base p2 = shard_base ?p1" "n_shard_workers p2 = n_shard_workers ?p1"
    using Q(3) by (auto simp: routing_def)
  then have g2: "good R p2" using g1 Q(1-3) by (simp add: good_def pool_wf_def wf_shard_map_def)
  have "queued (queue p2 i) = map Some fs" using pw Cons.prems(4) Q(1) q1 by simp
  moreover have "r_closed (queue p2 i)" "\<not> w_stop (worker p2 i)" using Cons.prems Q w1 q1 by simp_all
  ultimately obtain t' p' where IH: "worker_loop (\<lambda>_. proc) still me i (Suc (Suc (Suc t + 2))) p2 = Some (t', p')"
    "good R p'" "ring_abs (queue p' i) = []"
    "w_processed (worker p' i) = w_processed (worker p2 i) + of_nat (length fs)"
    "w_process_errors (worker p' i) = w_process_errors (worker p2 i) + errs proc fs"
    "process_errors p' = process_errors p2 + errs proc fs"
    using Cons.IH [OF g2] by blast
  have "worker_loop (\<lambda>_. proc) still me i t pool = Some (t', p')"
    by (subst worker_loop.simps)
      (use Cons.prems pop_still(1) [OF wf ab(1)] p2 IH(1) in \<open>simp add: Let_def\<close>)
  then show ?case using IH Q(5-7) w1 by (simp add: errs_def algebra_simps)
qed


section \<open>Properties of the joins and of the worker thread\<close>

text \<open>C27. A join with a deadline ends: once the clock passes the deadline,
  \<open>awp_worker_join_deadline\<close> returns whatever the thread does, the pool is still well formed, and
  its result tells the truth: 0 only for a joined worker, and an abort only with the worker
  joined late or the pool quarantined, so that nothing a live thread may use is freed.\<close>

theorem awp_worker_join_deadline_outcome:
  assumes "passes W deadline" and "fair_world W" and "pool_wf pool" and "i < n_wk pool"
  shows "\<exists>rc ab t' p'. awp_worker_join_deadline W J i deadline t pool = Some (rc, ab, t', p') \<and> pool_wf p'
    \<and> (rc = 0 \<and> \<not> ab \<and> w_joined (worker p' i) \<or> rc = 1 \<and> ab \<and> (quarantined p' \<or> w_joined (worker p' i)))"
proof -
  have "good (routing pool) pool" "i < unat (n_workers (fst (routing pool)))"
    using assms(3,4) by (simp_all add: good_def routing_def)
  from worker_join_returns [OF assms(1) keeps_good [OF assms(2)] join_keeps_good [OF this(2)] this(1), of J t]
  show ?thesis unfolding good_def by blast
qed

definition no_help :: join_env where
  "no_help = \<lparr>jn_calloc = False, jn_mutex = True, jn_cond = True, jn_attr = True, jn_detach = 0, jn_create = 0,
     jn_done = (\<lambda>_. False), jn_rc = 0\<rparr>"

definition late :: world where
  "late = still\<lparr>v_clk := (\<lambda>t. if t < 5 then 0 else 100)\<rparr>"

lemma late_world: "passes late 100" "fair_world late"
proof -
  have "\<forall>t\<ge>5. 100 \<le> v_clk late t" by (simp add: late_def)
  then show "passes late 100" unfolding passes_def by blast
  show "fair_world late" by (simp add: fair_world_def late_def)
qed

theorem awp_worker_join_deadline_outcome_witness:
  "\<exists>rc ab t' p'. awp_worker_join_deadline late no_help 1 100 0 mini_pool = Some (rc, ab, t', p') \<and> pool_wf p'
     \<and> (rc = 0 \<and> \<not> ab \<and> w_joined (worker p' 1) \<or> rc = 1 \<and> ab \<and> (quarantined p' \<or> w_joined (worker p' 1)))"
  by (rule awp_worker_join_deadline_outcome [OF late_world mini_pool_wf(1)]) (simp add: mini_pool_def mini_cfg_def)

lemma worker_main_drains:
  assumes g: "good R pool" and i: "i < unat (n_workers (fst R))" and c: "cfg_process (fst R)"
    and "r_closed (queue pool i)" and "\<not> w_stop (worker pool i)" and "queued (queue pool i) = map Some fs"
  shows "\<exists>t' p'. awp_worker_main (\<lambda>_. proc) still me i t pool = Some (t', p') \<and> good R p'
    \<and> w_state (worker p' i) = AWP_W_EXITED \<and> queued (queue p' i) = []
    \<and> w_processed (worker p' i) = w_processed (worker pool i) + of_nat (length fs)
    \<and> w_process_errors (worker p' i) = w_process_errors (worker pool i) + errs proc fs
    \<and> process_errors p' = process_errors pool + errs proc fs"
proof -
  have il: "i < length (workers pool)" using good_index [OF g i] by simp
  let ?p0 = "upd_worker i (\<lambda>w. progress (v_clk still t) (w\<lparr>w_state := AWP_W_RUNNING\<rparr>)) pool"
  have g0: "good R ?p0" by (rule good_upd_worker [OF g i]) (use good_queue [OF g i] in \<open>simp add: progress_def\<close>)
  have w0: "queue ?p0 i = queue pool i" "w_stop (worker ?p0 i) = w_stop (worker pool i)"
    "w_processed (worker ?p0 i) = w_processed (worker pool i)"
    "w_process_errors (worker ?p0 i) = w_process_errors (worker pool i)"
    using il by (simp_all add: worker_upd progress_def)
  obtain t1 p1 where L: "worker_loop (\<lambda>_. proc) still me i (Suc t) ?p0 = Some (t1, p1)" "good R p1"
    "ring_abs (queue p1 i) = []"
    "w_processed (worker p1 i) = w_processed (worker pool i) + of_nat (length fs)"
    "w_process_errors (worker p1 i) = w_process_errors (worker pool i) + errs proc fs"
    "process_errors p1 = process_errors pool + errs proc fs"
    using worker_loop_drains [OF g0 i c, of fs proc me "Suc t"] assms(4-6) w0 by auto
  let ?p2 = "upd_worker i (\<lambda>w. w\<lparr>w_state := AWP_W_EXITED\<rparr>) p1"
  have "good R ?p2" by (rule good_upd_worker [OF L(2) i]) (use good_queue [OF L(2) i] in simp)
  moreover have "i < length (workers p1)" using good_index [OF L(2) i] by simp
  moreover have "awp_worker_main (\<lambda>_. proc) still me i t pool = Some (t1, ?p2)" using L(1) by (simp add: awp_worker_main_def)
  ultimately show ?thesis using L(3-6) by (simp add: worker_upd queued_def)
qed

text \<open>C26. A closed queue is drained completely: a worker whose queue was closed, with no one else
  interfering, ends in state EXITED with an empty queue, having called \<open>process\<close> on every waiting
  frame once; its counters grew by the number of frames and by the number of failures.\<close>

theorem awp_worker_main_drains:
  assumes "pool_wf pool" and "i < n_wk pool" and "cfg_process (cfg pool)"
    and "r_closed (queue pool i)" and "\<not> w_stop (worker pool i)" and "queued (queue pool i) = map Some fs"
  shows "\<exists>t' p'. awp_worker_main (\<lambda>_. proc) still me i t pool = Some (t', p') \<and> pool_wf p'
    \<and> w_state (worker p' i) = AWP_W_EXITED \<and> queued (queue p' i) = []
    \<and> w_processed (worker p' i) = w_processed (worker pool i) + of_nat (length fs)
    \<and> w_process_errors (worker p' i) = w_process_errors (worker pool i) + errs proc fs
    \<and> process_errors p' = process_errors pool + errs proc fs"
  using worker_main_drains [of "routing pool" pool i fs proc me t] assms by (auto simp: good_def routing_def)

lemma full_ring_queued: "\<exists>fs. queued full_ring = map Some fs \<and> length fs = 2"
proof -
  have 1: "queue_wf (stored id demo_ring)" "ring_len (stored id demo_ring) = 1" "ring_cap (stored id demo_ring) = 2"
    using stored_spec [OF demo_ring_wf(1), of id] demo_ring_ok by simp_all
  obtain x y where "queued full_ring = [Some x, Some y]"
    using stored_spec(2) [OF 1(1), of id] stored_spec(2) [OF demo_ring_wf(1), of id] 1 demo_ring_ok demo_ring_wf(2)
    by (simp add: full_ring_def)
  then show ?thesis by (intro exI [of _ "[x, y]"]) simp
qed

theorem awp_worker_main_drains_witness:
  "\<exists>fs t' p'. length fs = 2 \<and> awp_worker_main (\<lambda>_ _. 5) still 1 1 0 (upd_queue 1 awp_ring_close full_pool) = Some (t', p')
     \<and> w_state (worker p' 1) = AWP_W_EXITED \<and> w_process_errors (worker p' 1) = errs (\<lambda>_. 5) fs"
proof -
  let ?p = "upd_queue 1 awp_ring_close full_pool"
  have il: "1 < length (workers full_pool)" using full_pool_wf(1,4) by (simp add: pool_wf_def)
  have q: "queue ?p 1 = awp_ring_close full_ring" using il full_pool_wf(2) by (simp add: queue_upd)
  have m: "worker full_pool 1 = (mini_worker 1)\<lparr>w_queue := full_ring\<rparr>"
    by (simp add: full_pool_def mini_pool_def upd_queue_def upd_worker_def worker_def)
  have w: "w_stop (worker ?p 1) = False" "w_process_errors (worker ?p 1) = 0"
    using il m by (simp_all add: upd_queue_def worker_upd mini_worker_def)
  obtain fs where fs: "queued full_ring = map Some fs" "length fs = 2"
    using full_ring_queued by blast
  have "queued (queue ?p 1) = map Some fs" using fs(1) q by (simp add: queued_def awp_ring_close_def awp_ring_wake_all_def)
  moreover have "pool_wf ?p"
    by (rule pool_wf_upd_queue [OF full_pool_wf(1)]) (use full_pool_wf full_ring_wf(1) in simp_all)
  moreover have "cfg_process (cfg ?p)" by (simp add: full_pool_def mini_pool_def mini_cfg_def demo_cfg_def)
  moreover have "1 < n_wk ?p" using full_pool_wf(4) by simp
  ultimately show ?thesis
    using awp_worker_main_drains [of ?p 1 fs "\<lambda>_. 5" 1 0] w q fs(2) by simp blast
qed

end
