(* ===== verification/Submit_Live.thy ===== *)
theory Submit_Live
  imports Worker_Spec
begin

text \<open>
  A submit comes to an end: \<open>awp_submit\<close> of a producer that spins, parks on a full queue and is woken
  returns once the queue has room or is closed. Together with the properties of theory
  \<open>Submit_Spec\<close>, which say what a returning submit did, this is its total correctness.
\<close>

section \<open>Being served\<close>

text \<open>From time \<open>n\<close> on, whenever the thread looks, queue \<open>i\<close> has room or is closed, the thread's
  wake-up has been delivered, and its exchanges are not disturbed.\<close>

definition served :: "world \<Rightarrow> nat \<Rightarrow> nat \<Rightarrow> nat \<Rightarrow> bool" where
  "served W me i n \<longleftrightarrow>
     (\<forall>t\<ge>n. v_cas W t \<and> (\<forall>p. pool_wf p \<and> i < n_wk p \<longrightarrow>
        (let r = queue (v_act W t p) i
         in (r_closed r \<or> ring_len r < ring_cap r) \<and> me \<notin> set (r_cv r))))"

lemma servedD:
  assumes "served W me i n" and "good R p" and "i < unat (n_workers (fst R))" and "n \<le> t"
  shows "r_closed (queue (v_act W t p) i) \<or> ring_len (queue (v_act W t p) i) < ring_cap (queue (v_act W t p) i)"
    and "me \<notin> set (r_cv (queue (v_act W t p) i))" and "v_cas W t"
  using assms good_index [OF assms(2,3)] by (auto simp: served_def good_def Let_def)

lemma served_no_wait:
  assumes "served W me i n" and "fair_world W" and "good R p" and "i < unat (n_workers (fst R))" and "n \<le> t"
  shows "\<not> full_to_wait (queue (v_act W t p) i)"
proof -
  have "ring_ok (queue (v_act W t p) i)"
    using good_queue [OF good_act [OF assms(2,3)] assms(4)] by (simp add: queue_wf_def)
  then show ?thesis using full_to_wait_len servedD(1) [OF assms(1,3-5)] by fastforce
qed

section \<open>The waits\<close>

lemma queue_park_returns:
  assumes W: "fair_world W" "served W me i n" and i: "i < unat (n_workers (fst R))"
    and g: "good R p" and me: "me \<in> set (r_cv (queue p i))"
  shows "\<exists>t' p'. queue_park W me i t p = Some (t', p') \<and> t < t' \<and> good R p' \<and> (n < t' \<longrightarrow> \<not> full_to_wait (queue p' i))"
  using g me
proof (induction "n - t" arbitrary: t p rule: less_induct)
  case less
  let ?q = "v_act W t p"
  have gq: "good R ?q" by (rule good_act [OF W(1) less.prems(1)])
  have step: "queue_park W me i t p = queue_park W me i (Suc t) ?q" using less.prems(2) by (subst queue_park.simps) simp
  show ?case
  proof (cases "me \<in> set (r_cv (queue ?q i))")
    case True
    then have "t < n" using servedD(2) [OF W(2) less.prems(1) i] by (meson not_less)
    then have "n - Suc t < n - t" by simp
    from less.hyps [OF this gq True] show ?thesis using step by (auto dest: Suc_lessD)
  next
    case False
    then have "queue_park W me i t p = Some (Suc t, ?q)" using step by (simp add: queue_park.simps [of W me i "Suc t"])
    moreover have "\<not> full_to_wait (queue ?q i)" if "n < Suc t"
      using served_no_wait [OF W(2,1) less.prems(1) i] that by simp
    ultimately show ?thesis using gq by auto
  qed
qed

lemma queue_wait_returns:
  assumes W: "fair_world W" "served W me i n" and i: "i < unat (n_workers (fst R))" and g: "good R p"
  shows "\<exists>t' p'. queue_wait full_to_wait W me i t p = Some (t', p') \<and> t \<le> t' \<and> good R p'"
  using g
proof (induction "n - t" arbitrary: t p rule: less_induct)
  case less
  show ?case
  proof (cases "full_to_wait (queue p i)")
    case True
    let ?p = "upd_queue i (\<lambda>r. r\<lparr>r_cv := me # r_cv r\<rparr>) p"
    have "good R ?p" by (rule good_upd_queue [OF less.prems i]) (use good_queue [OF less.prems i] in simp)
    moreover have "me \<in> set (r_cv (queue ?p i))" using good_index [OF less.prems i] by (simp add: queue_upd)
    ultimately obtain t1 p1 where k: "queue_park W me i t ?p = Some (t1, p1)" "t < t1" "good R p1"
      "n < t1 \<longrightarrow> \<not> full_to_wait (queue p1 i)"
      using queue_park_returns [OF W i] by blast
    have "\<exists>t' p'. queue_wait full_to_wait W me i t1 p1 = Some (t', p') \<and> t1 \<le> t' \<and> good R p'"
    proof (cases "n < t1")
      case True
      then show ?thesis using k(3,4) by (simp add: queue_wait.simps [of full_to_wait W me i t1])
    next
      case False
      then have "n - t1 < n - t" using k(2) by linarith
      then show ?thesis by (rule less.hyps [OF _ k(3)])
    qed
    then show ?thesis using True k(1,2) by (auto simp: queue_wait.simps [of full_to_wait W me i t])
  qed (use less.prems in \<open>auto simp: queue_wait.simps [of full_to_wait W me i t]\<close>)
qed

lemma queue_wait_for_returns:
  assumes W: "fair_world W" "served W me i n" and i: "i < unat (n_workers (fst R))" and g: "good R p"
  shows "\<exists>t' p'. queue_wait_for full_to_wait W me i t p = Some (t', p') \<and> t \<le> t' \<and> good R p'"
proof -
  have wt: "good R (upd_queue i (\<lambda>r. r\<lparr>r_waiters := w r\<rparr>) q)" if "good R q" for q w
    by (rule good_upd_queue [OF that i]) (use good_queue [OF that i] in simp)
  obtain t' p' where "queue_wait full_to_wait W me i t (upd_queue i (\<lambda>r. r\<lparr>r_waiters := r_waiters r + 1\<rparr>) p) = Some (t', p')"
    "t \<le> t'" "good R p'" using queue_wait_returns [OF W i wt [OF g, of "\<lambda>r. r_waiters r + 1"], of t] by auto
  then show ?thesis using wt [of p'] by (simp add: queue_wait_for_def)
qed

section \<open>The loops\<close>

lemma submit_loop_returns:
  assumes W: "fair_world W" "served W me i n" and i: "i < unat (n_workers (fst R))" and g: "good R p"
  shows "\<exists>y. submit_loop wr W me i spin b t p = Some y"
  using g
proof (induction "n - t" arbitrary: spin b t p rule: less_induct)
  case less
  let ?q = "v_act W t p"
  have gq: "good R ?q" by (rule good_act [OF W(1) less.prems])
  note sp = submit_try_spec [OF good_queue [OF gq i], of wr "v_cas W t"]
  obtain o1 q1 where e: "submit_try wr i (v_cas W t) ?q = (o1, q1)" by fastforce
  note unf = submit_loop.simps [of wr W me i spin b t p]
  show ?case
  proof (cases "o1 = Full \<or> o1 = Retry_submit")
    case True
    then have same: "q1 = ?q" and "t < n"
      using sp e servedD(1,3) [OF W(2) less.prems i, of t] by (force split: if_splits)+
    then have dec: "n - t' < n - t" if "Suc t \<le> t'" for t' using that by linarith
    let ?q1 = "upd_worker i (\<lambda>w. w\<lparr>w_enqueue_blocks := w_enqueue_blocks w + 1\<rparr>) ?q"
    have "good R ?q1" by (rule good_keep [OF gq i]) simp
    then obtain t1 p1 where w: "queue_wait_for full_to_wait W me i (Suc t) ?q1 = Some (t1, p1)" "Suc t \<le> t1" "good R p1"
      using queue_wait_for_returns [OF W i] by blast
    show ?thesis
      using less.hyps [OF dec gq, of "Suc t"] less.hyps [OF dec [OF w(2)] w(3)] True e same w(1)
      by (auto simp: unf)
  qed (use e in \<open>cases o1; auto simp: unf\<close>)
qed

lemma hwm_loop_returns:
  assumes "\<forall>t\<ge>n. v_cas W t"
  shows "\<exists>y. hwm_loop W i d t p = Some y"
proof (induction "n - t" arbitrary: t p rule: less_induct)
  case less
  show ?case
  proof (cases "v_cas W t")
    case False
    then have "n - Suc t < n - t" using assms by (meson diff_less_mono2 lessI not_less order.strict_trans1)
    from less [OF this] show ?thesis by (subst hwm_loop.simps) (auto simp: Let_def)
  qed (subst hwm_loop.simps, auto simp: Let_def)
qed

text \<open>C10. Every submit ends: a producer whose queue from some moment on has room or is closed
  whenever it looks, whose wake-up is delivered and whose exchanges are not disturbed, returns from
  \<open>awp_submit\<close>, however full the queue was, however often it parked and whatever the arguments.\<close>

theorem awp_submit_returns:
  assumes "fair_world W" and "pool_wf pool" and "served W me (unat (submit_shard pool feed symbol flags)) n"
  shows "\<exists>rc t' pool'. awp_submit W in_cb me t (Some pool) feed symbol payload len flags = Some (rc, t', Some pool')"
proof -
  let ?R = "routing pool" and ?sh = "submit_shard pool feed symbol flags"
  let ?i = "unat ?sh" and ?p1 = "submit_begin (v_act W t (awp_api_enter pool))"
  let ?wr = "\<lambda>sq. write_frame (or_empty feed) (or_empty symbol) (case payload of None \<Rightarrow> [] | Some b \<Rightarrow> b) len flags sq (v_clk W t) ?sh"
  have g1: "good ?R ?p1" using assms(1,2) by (auto simp: good_def fair_world_def)
  have lt: "?sh < n_workers (cfg pool)" by (rule shard_in_range [OF assms(2)])
  then have i: "?i < unat (n_workers (fst ?R))" by (simp add: routing_def word_less_nat_alt)
  have sh: "awp_compute_shard (Some ?p1) (Some (or_empty feed)) (Some (or_empty symbol)) flags = ?sh"
    using compute_shard_routing [of ?p1 pool] g1 by (simp add: submit_shard_def good_def)
  have nl: "(n_workers (cfg ?p1) \<le> ?sh) = False" using lt g1 by (simp add: good_def routing_def not_le)
  obtain res t1 p2 where l: "submit_loop ?wr W me ?i 0 0 (Suc t) ?p1 = Some (res, t1, p2)"
    using submit_loop_returns [OF assms(1,3) i g1, of ?wr 0 0 "Suc t"] by auto
  have H: "\<exists>t2 p3. hwm_loop W ?i d t1 q = Some (t2, p3)" for d q
    using hwm_loop_returns [of n W ?i d t1 q] assms(3) by (auto simp: served_def)
  show ?thesis
  proof (cases res)
    case (Inr b)
    let ?q = "if b > 0 then upd_worker ?i (\<lambda>w. w\<lparr>w_blocked_ns := w_blocked_ns w + b\<rparr>) p2 else p2"
    obtain t2 p3 where "hwm_loop W ?i (awp_ring_depth (queue ?q ?i)) t1 ?q = Some (t2, p3)" using H by blast
    then show ?thesis unfolding awp_submit_def Let_def option.case sh nl if_False l Inr by simp
  qed (use l in \<open>simp add: awp_submit_def Let_def sh nl\<close>)
qed

text \<open>A world in which every queue is closed at time 100.\<close>

definition closing :: world where
  "closing = still\<lparr>v_act := (\<lambda>t p. if t < 100 then p
     else p\<lparr>workers := map (\<lambda>w. w\<lparr>w_queue := awp_ring_close (w_queue w)\<rparr>) (workers p)\<rparr>)\<rparr>"

lemma closing_world: "fair_world closing" "served closing me i 100"
proof -
  let ?c = "\<lambda>p. p\<lparr>workers := map (\<lambda>w. w\<lparr>w_queue := awp_ring_close (w_queue w)\<rparr>) (workers p)\<rparr>"
  have q: "queue (?c p) i = awp_ring_close (queue p i)" if "pool_wf p" "i < n_wk p" for p i
    using that by (simp add: pool_wf_def worker_def)
  have "pool_wf (?c p)" if "pool_wf p" for p
    using that q [OF that] by (auto simp: pool_wf_def wf_shard_map_def)
  moreover have "routing (?c p) = routing p" for p by (simp add: routing_def)
  ultimately show "fair_world closing" by (simp add: fair_world_def closing_def)
  show "served closing me i 100"
    using q by (auto simp: served_def closing_def Let_def awp_ring_close_def awp_ring_wake_all_def)
qed

theorem awp_submit_returns_witness:
  "\<exists>rc t' p'. awp_submit closing False 7 0 (Some full_pool) (Some [116, 0]) (Some [66, 0]) None 0 0 = Some (rc, t', Some p')"
  by (rule awp_submit_returns [OF closing_world(1) full_pool_wf(1) closing_world(2)])

end
