(* ===== verification/Supervisor.thy ===== *)
theory Supervisor
  imports Worker_Spec
begin

text \<open>
  \<open>src/supervisor.c\<close>: the thread that restarts workers that exited and quarantines workers that
  stopped making progress. What \<open>pthread_join\<close> and \<open>pthread_create\<close> answer when they are called at
  time \<open>t\<close> is an argument. The properties: every outcome of a restart, and that the supervisor
  ends once the pool stops running.
\<close>

section \<open>Restarting a worker\<close>

record sup_env =
  se_join :: "nat \<Rightarrow> int"
  se_create :: "nat \<Rightarrow> int"

definition life_is_running :: "awp_pool \<Rightarrow> bool" where
  "life_is_running pool \<longleftrightarrow> lifecycle pool = AWP_LIFE_RUNNING \<and> \<not> supervisor_stop pool"

definition awp_post_reopen_terminal_check :: "awp_pool option \<Rightarrow> u32 \<Rightarrow> int \<times> awp_pool option" where
  "awp_post_reopen_terminal_check po worker_id =
     (case po of
        None \<Rightarrow> (- 1, None)
      | Some pool \<Rightarrow>
          if worker_id \<ge> n_workers (cfg pool) then (- 1, Some pool)
          else if \<not> life_is_running pool then (1, Some (upd_queue (unat worker_id) awp_ring_close pool))
          else (0, Some pool))"

text \<open>\<open>jrc\<close> is the result of \<open>pthread_join\<close>.\<close>

definition join_worker_thread :: "int \<Rightarrow> nat \<Rightarrow> awp_pool \<Rightarrow> int \<times> awp_pool" where
  "join_worker_thread jrc i pool =
     (if w_joined (worker pool i) then (0, pool)
      else if jrc \<noteq> 0 then (- jrc, awp_pool_mark_quarantined pool)
      else (0, upd_worker i (\<lambda>w. w\<lparr>w_joined := True, w_state := AWP_W_JOINED, w_live := False\<rparr>) pool))"

text \<open>The other threads move while the thread is joined, and between the reopening and the check
  that follows it. The supervisor never sees a NULL pool.\<close>

definition restart_worker ::
  "world \<Rightarrow> sup_env \<Rightarrow> nat \<Rightarrow> nat \<Rightarrow> awp_pool \<Rightarrow> int \<times> nat \<times> awp_pool" where
  "restart_worker W S i t pool =
     (if \<not> life_is_running pool then (- 1, t, pool)
      else case join_worker_thread (se_join S t) i pool of (jrc, pool) \<Rightarrow>
        if jrc \<noteq> 0 then (- 1, Suc t, pool)
        else
          let pool = v_act W t pool
          in if \<not> life_is_running pool then (- 1, Suc t, upd_queue i awp_ring_close pool)
             else
               let pool = upd_queue i awp_ring_reopen pool;
                   pool = v_act W (Suc t) (upd_worker i (progress (v_clk W t)) pool)
               in case awp_post_reopen_terminal_check (Some pool) (w_id (worker pool i)) of (prc, po) \<Rightarrow>
                    let pool = (case po of Some p \<Rightarrow> p | None \<Rightarrow> pool)
                    in if prc \<noteq> 0 then (- 1, t + 2, pool)
                       else case awp_worker_start (se_create S (t + 2)) i pool of (src, pool) \<Rightarrow>
                         if src = 0
                         then (0, t + 3, upd_worker i (\<lambda>w. w\<lparr>w_restarts := w_restarts w + 1\<rparr>) pool)
                         else
                           let pool = awp_pool_mark_quarantined (upd_queue i awp_ring_close pool)
                           in (- 1, t + 3, pool\<lparr>shutdown_aborts := shutdown_aborts pool + 1,
                                                supervisor_stop := True\<rparr>))"

section \<open>The supervisor thread\<close>

text \<open>The grace period of a stalled worker.\<close>

partial_function (option) stall_wait ::
  "world \<Rightarrow> nat \<Rightarrow> u64 \<Rightarrow> u64 \<Rightarrow> nat \<Rightarrow> awp_pool \<Rightarrow> (nat \<times> awp_pool) option" where
  "stall_wait W i grace last_seen t pool0 =
     (let pool = v_act W t pool0
      in if w_state (worker pool i) = AWP_W_RUNNING \<and> v_clk W t < grace \<and> life_is_running pool
         then if w_last_progress_ns (worker pool i) > last_seen
              then Some (Suc t, upd_worker i (\<lambda>w. w\<lparr>w_stop := False\<rparr>) pool)
              else stall_wait W i grace last_seen (Suc t) pool
         else Some (Suc t, pool))"

definition quarantine_stalled :: "nat \<Rightarrow> awp_pool \<Rightarrow> awp_pool" where
  "quarantine_stalled i pool =
     (let pool = upd_worker i (\<lambda>w. w\<lparr>w_state := AWP_W_QUARANTINED, w_queue := awp_ring_close (w_queue w)\<rparr>) pool;
          pool = awp_pool_mark_quarantined pool
      in pool\<lparr>shutdown_aborts := shutdown_aborts pool + 1\<rparr>)"

text \<open>The body of the scan over the workers, for worker \<open>i\<close>. The first component of the result
  tells whether the scan is left by \<open>break\<close>.\<close>

definition scan_worker ::
  "world \<Rightarrow> sup_env \<Rightarrow> u64 \<Rightarrow> u32 \<Rightarrow> nat \<Rightarrow> nat \<Rightarrow> awp_pool \<Rightarrow> (bool \<times> nat \<times> awp_pool) option" where
  "scan_worker W S now stall_ms i t pool0 =
     (let pool = v_act W t pool0;
          st = w_state (worker pool i);
          last = w_last_progress_ns (worker pool i);
          idle_ms = (if now > last then (now - last) div 1000000 else 0);
          restarting = enable_restart (cfg pool)
      in if st = AWP_W_QUARANTINED then Some (False, Suc t, pool)
         else if st = AWP_W_EXITED \<and> restarting
         then (case restart_worker W S i (Suc t) pool of (_, t', pool') \<Rightarrow> Some (False, t', pool'))
         else if st \<noteq> AWP_W_RUNNING then Some (False, Suc t, pool)
         else if restarting \<and> idle_ms > ucast stall_ms \<and> awp_ring_depth (queue pool i) > 0
         then
           let pool = upd_worker i (\<lambda>w. w\<lparr>w_stop := True\<rparr>) pool;
               grace = v_clk W (Suc t) + ucast stall_ms * 1000000
           in do { (t, pool) \<leftarrow> stall_wait W i grace last (t + 2) pool;
                   let pool = v_act W t pool;
                       w = worker pool i
                   in if \<not> life_is_running pool then Some (True, Suc t, pool)
                      else if w_state w = AWP_W_EXITED
                      then (case restart_worker W S i (Suc t) pool of (_, t', pool') \<Rightarrow> Some (False, t', pool'))
                      else if w_state w = AWP_W_RUNNING \<and> w_stop w \<and> w_last_progress_ns w \<le> last
                      then Some (False, Suc t, quarantine_stalled i pool)
                      else Some (False, Suc t, upd_worker i (\<lambda>w. w\<lparr>w_stop := False\<rparr>) pool) }
         else Some (False, Suc t, pool))"

fun scan_workers ::
  "world \<Rightarrow> sup_env \<Rightarrow> u64 \<Rightarrow> u32 \<Rightarrow> nat list \<Rightarrow> nat \<Rightarrow> awp_pool \<Rightarrow> (nat \<times> awp_pool) option" where
  "scan_workers W S now stall_ms [] t pool = Some (t, pool)"
| "scan_workers W S now stall_ms (i # is) t pool =
     (if life_is_running pool
      then do { (brk, t, pool) \<leftarrow> scan_worker W S now stall_ms i t pool;
                if brk then Some (t, pool) else scan_workers W S now stall_ms is t pool }
      else Some (t, pool))"

partial_function (option) slice_wait :: "world \<Rightarrow> u64 \<Rightarrow> nat \<Rightarrow> awp_pool \<Rightarrow> (nat \<times> awp_pool) option" where
  "slice_wait W slice_end t pool0 =
     (let pool = v_act W t pool0
      in if life_is_running pool \<and> v_clk W t < slice_end then slice_wait W slice_end (Suc t) pool
         else Some (Suc t, pool))"

partial_function (option) supervisor_loop ::
  "world \<Rightarrow> sup_env \<Rightarrow> u32 \<Rightarrow> u32 \<Rightarrow> nat \<Rightarrow> awp_pool \<Rightarrow> (nat \<times> awp_pool) option" where
  "supervisor_loop W S interval stall_ms t pool0 =
     (let pool = v_act W t pool0
      in if life_is_running pool
         then let now = v_clk W t
              in do { (t, pool) \<leftarrow> scan_workers W S now stall_ms [0..<n_wk pool] (Suc t) pool;
                      (t, pool) \<leftarrow> slice_wait W (now + ucast interval * 1000000) t pool;
                      supervisor_loop W S interval stall_ms t pool }
         else Some (Suc t, pool))"

definition awp_supervisor_main ::
  "world \<Rightarrow> sup_env \<Rightarrow> nat \<Rightarrow> awp_pool \<Rightarrow> (nat \<times> awp_pool) option" where
  "awp_supervisor_main W S t pool =
     (let c = cfg pool;
          interval = (if supervisor_interval_ms c \<noteq> 0 then supervisor_interval_ms c else 500);
          stall_ms = (if stall_threshold_ms c \<noteq> 0 then stall_threshold_ms c else 5000)
      in do { (t, pool) \<leftarrow> supervisor_loop W S interval stall_ms t
                (pool\<lparr>supervisor_phase := 2, supervisor_alive := True\<rparr>);
              Some (t, pool\<lparr>supervisor_phase := 3, supervisor_alive := False\<rparr>) })"


section \<open>Restarts keep the pool well formed\<close>

lemma good_counters [simp]:
  "good R (p\<lparr>shutdown_aborts := a, supervisor_stop := b\<rparr>) = good R p"
  "good R (p\<lparr>shutdown_aborts := a\<rparr>) = good R p" "good R (p\<lparr>supervisor_stop := b\<rparr>) = good R p"
  "good R (p\<lparr>supervisor_phase := n, supervisor_alive := b\<rparr>) = good R p"
  by (simp_all add: good_def pool_wf_def wf_shard_map_def routing_def worker_def)

lemma worker_counters [simp]:
  "worker (p\<lparr>shutdown_aborts := a, supervisor_stop := b\<rparr>) = worker p" "worker (p\<lparr>shutdown_aborts := a\<rparr>) = worker p"
  "worker (p\<lparr>supervisor_stop := b\<rparr>) = worker p"
  by (simp_all add: worker_def fun_eq_iff)

text \<open>A join of worker \<open>i\<close>'s thread and a start of a new one, in the pool.\<close>

lemma join_worker_thread_cases:
  assumes "good R p" and "i < unat (n_workers (fst R))" and "join_worker_thread jrc i p = (rc, p')"
  shows "good R p'" and "queue p' i = queue p i" and "rc = 0 \<longleftrightarrow> w_joined (worker p' i)"
    and "rc \<noteq> 0 \<Longrightarrow> quarantined p'" and "w_id (worker p' i) = w_id (worker p i)"
  using assms good_index [OF assms(1,2)]
  by (auto simp: join_worker_thread_def good_mark worker_upd intro!: good_keep split: if_splits)

definition restarted :: "awp_worker \<Rightarrow> awp_worker" where
  "restarted w = w\<lparr>w_stop := False, w_joined := False, w_state := AWP_W_STARTING,
     w_generation := w_generation w + 1, w_live := True, w_restarts := w_restarts w + 1\<rparr>"

lemma worker_start_ok:
  assumes "i < length (workers p)"
  shows "\<exists>p1. awp_worker_start 0 i p = (0, p1)
    \<and> upd_worker i (\<lambda>w. w\<lparr>w_restarts := w_restarts w + 1\<rparr>) p1 = upd_worker i restarted p"
  using assms by (simp add: awp_worker_start_def Let_def upd_worker_def restarted_def)

lemma worker_start_fails:
  assumes "good R p" and "i < unat (n_workers (fst R))" and "crc \<noteq> 0"
  shows "\<exists>p1. awp_worker_start crc i p = (- crc, p1) \<and> good R p1 \<and> queue p1 i = queue p i"
  using assms good_index [OF assms(1,2)]
  by (auto simp: awp_worker_start_def Let_def worker_upd intro!: good_keep)

lemma restart_worker_cases:
  assumes W: "fair_world W" and g: "good R pool" and i: "i < unat (n_workers (fst R))"
    and idn: "w_id (worker pool i) = of_nat i" and ids: "\<forall>u p. w_id (worker (v_act W u p) i) = w_id (worker p i)"
  obtains (idle) "\<not> life_is_running pool" "restart_worker W S i t pool = (- 1, t, pool)"
  | (stuck) p where "restart_worker W S i t pool = (- 1, Suc t, p)" "good R p" "quarantined p" "queue p i = queue pool i"
  | (late) p1 where "restart_worker W S i t pool = (- 1, Suc t, upd_queue i awp_ring_close (v_act W t p1))"
      "good R p1" "queue p1 i = queue pool i" "w_joined (worker p1 i)"
  | (lost) p1 q where "restart_worker W S i t pool = (- 1, t + 2, upd_queue i awp_ring_close q)"
      "good R q" "q = v_act W (Suc t) (upd_worker i (progress (v_clk W t)) (upd_queue i awp_ring_reopen (v_act W t p1)))"
      "good R p1" "queue p1 i = queue pool i"
  | (failed) p1 q p2 where "restart_worker W S i t pool = (- 1, t + 3, (awp_pool_mark_quarantined (upd_queue i awp_ring_close p2))
        \<lparr>shutdown_aborts := shutdown_aborts p2 + 1, supervisor_stop := True\<rparr>)"
      "good R q" "q = v_act W (Suc t) (upd_worker i (progress (v_clk W t)) (upd_queue i awp_ring_reopen (v_act W t p1)))"
      "good R p1" "queue p1 i = queue pool i" "good R p2" "queue p2 i = queue q i"
  | (started) p1 q where "restart_worker W S i t pool = (0, t + 3, upd_worker i restarted q)" "se_create S (t + 2) = 0"
      "good R q" "q = v_act W (Suc t) (upd_worker i (progress (v_clk W t)) (upd_queue i awp_ring_reopen (v_act W t p1)))"
      "life_is_running q" "good R p1" "queue p1 i = queue pool i" "w_joined (worker p1 i)"
proof (cases "life_is_running pool")
  case run: True
  obtain jrc p1 where j: "join_worker_thread (se_join S t) i pool = (jrc, p1)" by fastforce
  note J = join_worker_thread_cases [OF g i j]
  show thesis
  proof (cases "jrc = 0")
    case False
    then show thesis using stuck [of p1] run j J by (simp add: restart_worker_def)
  next
    case j0: True
    define a where "a = v_act W t p1"
    have ga: "good R a" using good_act [OF W J(1)] by (simp add: a_def)
    show thesis
    proof (cases "life_is_running a")
      case False
      then show thesis using late [of p1] run j j0 J by (simp add: restart_worker_def Let_def a_def)
    next
      case ra: True
      define b where "b = upd_worker i (progress (v_clk W t)) (upd_queue i awp_ring_reopen a)"
      define q where "q = v_act W (Suc t) b"
      have gb: "good R b" unfolding b_def
        by (intro good_keep good_upd_queue ga i) (use good_queue [OF ga i] in \<open>simp_all add: progress_def\<close>)
      have gq: "good R q" using good_act [OF W gb] by (simp add: q_def)
      have ia: "i < length (workers a)" and iq: "i < length (workers q)" and n: "unat (n_workers (cfg q)) = unat (n_workers (fst R))"
        using good_index [OF ga i] good_index [OF gq i] gq by (auto simp: good_def routing_def)
      have "w_id (worker q i) = of_nat i"
        using J(5) idn ids ia by (simp add: q_def b_def a_def worker_upd upd_queue_def progress_def)
      then have idq: "w_id (worker q i) = of_nat i" .
      have lt: "of_nat i < n_workers (cfg q)" and ui: "unat (of_nat i :: u32) = i"
      proof -
        have "unat (n_workers (fst R)) < 2 ^ 32" using unsigned_less [of "n_workers (fst R)", where 'a = nat] by simp
        then have "i < 2 ^ 32" using i by (rule order.strict_trans [rotated])
        then show "unat (of_nat i :: u32) = i" by (simp add: unat_of_nat)
        then show "of_nat i < n_workers (cfg q)" using i n by (simp add: word_less_nat_alt)
      qed
      have qe: "q = v_act W (Suc t) (upd_worker i (progress (v_clk W t)) (upd_queue i awp_ring_reopen (v_act W t p1)))"
        by (simp add: q_def b_def a_def)
      have pre: "restart_worker W S i t pool =
          (case awp_post_reopen_terminal_check (Some q) (of_nat i) of (prc, po) \<Rightarrow>
             let pool = (case po of Some p \<Rightarrow> p | None \<Rightarrow> q)
             in if prc \<noteq> 0 then (- 1, t + 2, pool)
                else case awp_worker_start (se_create S (t + 2)) i pool of (src, pool) \<Rightarrow>
                  if src = 0
                  then (0, t + 3, upd_worker i (\<lambda>w. w\<lparr>w_restarts := w_restarts w + 1\<rparr>) pool)
                  else
                    let pool = awp_pool_mark_quarantined (upd_queue i awp_ring_close pool)
                    in (- 1, t + 3, pool\<lparr>shutdown_aborts := shutdown_aborts pool + 1, supervisor_stop := True\<rparr>))"
        unfolding restart_worker_def q_def b_def a_def
        using run j j0 ra [unfolded a_def] idq [unfolded q_def b_def a_def] by (simp add: Let_def)
      show thesis
      proof (cases "life_is_running q")
        case False
        then have "restart_worker W S i t pool = (- 1, t + 2, upd_queue i awp_ring_close q)"
          using pre lt ui by (simp add: awp_post_reopen_terminal_check_def not_le)
        then show thesis using lost gq qe J(1,2) by blast
      next
        case rq: True
        then have post: "awp_post_reopen_terminal_check (Some q) (of_nat i) = (0, Some q)"
          using lt by (simp add: awp_post_reopen_terminal_check_def not_le)
        show thesis
        proof (cases "se_create S (t + 2) = 0")
          case True
          have "restart_worker W S i t pool = (0, t + 3, upd_worker i restarted q)"
            using pre post True worker_start_ok [OF iq] by auto
          then show thesis using started True gq qe rq J j0 by blast
        next
          case False
          obtain p2 where p2: "awp_worker_start (se_create S (t + 2)) i q = (- se_create S (t + 2), p2)"
            "good R p2" "queue p2 i = queue q i" using worker_start_fails [OF gq i False] by blast
          then have "restart_worker W S i t pool = (- 1, t + 3, (awp_pool_mark_quarantined (upd_queue i awp_ring_close p2))
              \<lparr>shutdown_aborts := shutdown_aborts p2 + 1, supervisor_stop := True\<rparr>)"
            using pre post False by simp
          then show thesis using failed gq qe J(1,2) p2(2,3) by blast
        qed
      qed
    qed
  qed
qed (use idle in \<open>simp add: restart_worker_def\<close>)


text \<open>A restart of the second worker, which has exited.\<close>

definition exited_pool :: awp_pool where
  "exited_pool = upd_worker 1 (\<lambda>w. w\<lparr>w_state := AWP_W_EXITED\<rparr>) mini_pool"

definition willing :: sup_env where
  "willing = \<lparr>se_join = (\<lambda>_. 0), se_create = (\<lambda>_. 0)\<rparr>"

lemma exited_pool_facts: "pool_wf exited_pool" "1 < n_wk exited_pool" "w_id (worker exited_pool 1) = of_nat 1"
proof -
  have R: "good (routing mini_pool) mini_pool" using mini_pool_wf(1) by (simp add: good_def)
  have n: "1 < unat (n_workers (fst (routing mini_pool)))" by (simp add: routing_def mini_pool_def mini_cfg_def)
  show "pool_wf exited_pool" using good_keep [OF R n] by (simp add: exited_pool_def good_def)
  show "1 < n_wk exited_pool" by (simp add: exited_pool_def mini_pool_def mini_cfg_def)
  show "w_id (worker exited_pool 1) = of_nat 1"
    by (simp add: exited_pool_def mini_pool_def mini_worker_def worker_def upd_worker_def)
qed


section \<open>The supervisor ends\<close>

lemma restart_worker_good:
  assumes W: "fair_world W" and g: "good R pool" and i: "i < unat (n_workers (fst R))"
  shows "\<exists>rc t' p'. restart_worker W S i t pool = (rc, t', p') \<and> t \<le> t' \<and> good R p'"
proof (cases "life_is_running pool")
  case run: True
  obtain jrc p1 where j: "join_worker_thread (se_join S t) i pool = (jrc, p1)" by fastforce
  have g1: "good R p1" by (rule join_worker_thread_cases(1) [OF g i j])
  define a where "a = v_act W t p1"
  have ga: "good R a" using good_act [OF W g1] by (simp add: a_def)
  have cl: "good R (upd_queue k awp_ring_close p)" if "good R p" "k < unat (n_workers (fst R))" for p k
    by (rule good_upd_queue [OF that]) (use good_queue [OF that] in simp)
  define q where "q = v_act W (Suc t) (upd_worker i (progress (v_clk W t)) (upd_queue i awp_ring_reopen a))"
  have gq: "good R q" unfolding q_def
    by (intro good_act [OF W] good_keep good_upd_queue ga i) (use good_queue [OF ga i] in \<open>simp_all add: progress_def\<close>)
  obtain prc p2 where c: "awp_post_reopen_terminal_check (Some q) (w_id (worker q i)) = (prc, Some p2)" and g2: "good R p2"
  proof -
    have "cfg q = fst R" using gq by (auto simp: good_def routing_def)
    then have "\<exists>prc p2. awp_post_reopen_terminal_check (Some q) (w_id (worker q i)) = (prc, Some p2) \<and> good R p2"
      using gq cl [OF gq, of "unat (w_id (worker q i))"] by (auto simp: awp_post_reopen_terminal_check_def word_le_nat_alt)
    then show thesis using that by blast
  qed
  obtain src p3 where s: "awp_worker_start (se_create S (t + 2)) i p2 = (src, p3)" by fastforce
  have g3: "good R p3" using s g2 i by (auto simp: awp_worker_start_def Let_def intro!: good_keep split: if_splits)
  have g4: "good R (upd_worker i (\<lambda>w. w\<lparr>w_restarts := w_restarts w + 1\<rparr>) p3)" by (rule good_keep [OF g3 i]) simp
  show ?thesis
    using run j c s g1 ga cl [OF ga i] cl [OF g3 i] g2 g4 unfolding restart_worker_def
    by (simp add: Let_def a_def [symmetric] q_def [symmetric] good_mark)
qed (use g in \<open>simp add: restart_worker_def\<close>)

text \<open>From time \<open>n\<close> on the pool is no longer running.\<close>

definition stops_at :: "world \<Rightarrow> nat \<Rightarrow> bool" where
  "stops_at W n \<longleftrightarrow> (\<forall>t\<ge>n. \<forall>p. \<not> life_is_running (v_act W t p))"

interpretation sw: poll_loop W "stall_wait W i grace seen"
  "\<lambda>t p. if w_state (worker p i) = AWP_W_RUNNING \<and> v_clk W t < grace \<and> life_is_running p
         then if w_last_progress_ns (worker p i) > seen
              then Some (Suc t, upd_worker i (\<lambda>w. w\<lparr>w_stop := False\<rparr>) p) else None
         else Some (Suc t, p)" for W i grace seen
  by unfold_locales (subst stall_wait.simps, simp add: Let_def)

interpretation sl: poll_loop W "slice_wait W e"
  "\<lambda>t p. if life_is_running p \<and> v_clk W t < e then None else Some (Suc t, p)" for W e
  by unfold_locales (subst slice_wait.simps, simp add: Let_def)

lemma stall_wait_returns:
  assumes W: "fair_world W" and n: "stops_at W n" and i: "i < unat (n_workers (fst R))" and g: "good R pool"
  shows "\<exists>t' p'. stall_wait W i grace seen t pool = Some (t', p') \<and> t < t' \<and> good R p'"
proof -
  have "good R (upd_worker i (\<lambda>w. w\<lparr>w_stop := False\<rparr>) q)" if "good R q" for q
    by (rule good_keep [OF that i]) simp
  then show ?thesis
    using sw.returns [OF keeps_good [OF W] _ g, where n = n and i = i and grace = grace and seen = seen and t = t] n
    by (fastforce simp: stops_at_def split: if_splits)
qed

lemma slice_wait_returns:
  assumes W: "fair_world W" and n: "stops_at W n" and g: "good R pool"
  shows "\<exists>t' p'. slice_wait W e t pool = Some (t', p') \<and> t < t' \<and> good R p'"
  using sl.returns [OF keeps_good [OF W] _ g, where n = n and e = e and t = t] n
  by (fastforce simp: stops_at_def split: if_splits)

lemma scan_worker_returns:
  assumes W: "fair_world W" and n: "stops_at W n" and i: "i < unat (n_workers (fst R))" and "good R pool"
  shows "\<exists>b t' p'. scan_worker W S now stall_ms i t pool = Some (b, t', p') \<and> t \<le> t' \<and> good R p'"
proof -
  define p where "p = v_act W t pool"
  have g: "good R p" using good_act [OF W assms(4)] by (simp add: p_def)
  obtain rc t1 p1 where r: "restart_worker W S i (Suc t) p = (rc, t1, p1)" "Suc t \<le> t1" "good R p1"
    using restart_worker_good [OF W g i] by blast
  let ?grace = "v_clk W (Suc t) + ucast stall_ms * 1000000" and ?last = "w_last_progress_ns (worker p i)"
  have "good R (upd_worker i (\<lambda>w. w\<lparr>w_stop := True\<rparr>) p)" by (rule good_keep [OF g i]) simp
  then obtain t2 p2 where s: "stall_wait W i ?grace ?last (t + 2) (upd_worker i (\<lambda>w. w\<lparr>w_stop := True\<rparr>) p) = Some (t2, p2)"
    "t + 2 < t2" "good R p2" using stall_wait_returns [OF W n i] by blast
  define q where "q = v_act W t2 p2"
  have gq: "good R q" using good_act [OF W s(3)] by (simp add: q_def)
  obtain rc' t3 p3 where r': "restart_worker W S i (Suc t2) q = (rc', t3, p3)" "Suc t2 \<le> t3" "good R p3"
    using restart_worker_good [OF W gq i] by blast
  have "good R (upd_worker i (\<lambda>w. w\<lparr>w_state := AWP_W_QUARANTINED, w_queue := awp_ring_close (w_queue w)\<rparr>) q)"
    by (rule good_upd_worker [OF gq i]) (use good_queue [OF gq i] in simp)
  then have gs: "good R (quarantine_stalled i q)" by (simp add: quarantine_stalled_def Let_def good_mark)
  have gc: "good R (upd_worker i (\<lambda>w. w\<lparr>w_stop := False\<rparr>) q)" by (rule good_keep [OF gq i]) simp
  have le: "t \<le> t1" "t \<le> t3" "t \<le> Suc t2" using r(2) r'(2) s(2) by auto
  have "\<exists>r. scan_worker W S now stall_ms i t pool = Some r \<and> t \<le> fst (snd r) \<and> good R (snd (snd r))"
    using r(1,3) s(1) r'(1,3) g gq gs gc le unfolding scan_worker_def Let_def p_def [symmetric]
    by (simp add: q_def [symmetric] del: split_paired_Ex)
  then show ?thesis by (metis prod.collapse)
qed

lemma scan_workers_returns:
  assumes W: "fair_world W" and n: "stops_at W n" and "\<forall>i \<in> set is. i < unat (n_workers (fst R))" and "good R pool"
  shows "\<exists>t' p'. scan_workers W S now stall_ms is t pool = Some (t', p') \<and> t \<le> t' \<and> good R p'"
  using assms(3,4)
proof (induction "is" arbitrary: t pool)
  case (Cons i "is")
  obtain b t1 p1 where s: "scan_worker W S now stall_ms i t pool = Some (b, t1, p1)" "t \<le> t1" "good R p1"
    using scan_worker_returns [OF W n _ Cons.prems(2), of i S now stall_ms t] Cons.prems(1) by auto
  obtain t2 p2 where "scan_workers W S now stall_ms is t1 p1 = Some (t2, p2)" "t1 \<le> t2" "good R p2"
    using Cons.IH [OF _ s(3), of t1] Cons.prems(1) by auto
  then show ?case using s Cons.prems(2) by (cases b) (auto intro: order_trans)
qed simp

lemma supervisor_loop_returns:
  assumes W: "fair_world W" and n: "stops_at W n" and "good R pool"
  shows "\<exists>t' p'. supervisor_loop W S interval stall_ms t pool = Some (t', p') \<and> good R p'"
  using assms(3)
proof (induction "n - t" arbitrary: t pool rule: less_induct)
  case less
  define p where "p = v_act W t pool"
  have g: "good R p" using good_act [OF W less.prems] by (simp add: p_def)
  have "\<forall>i \<in> set [0..<n_wk p]. i < unat (n_workers (fst R))" using g by (auto simp: good_def routing_def)
  then obtain t1 p1 where s: "scan_workers W S (v_clk W t) stall_ms [0..<n_wk p] (Suc t) p = Some (t1, p1)" "Suc t \<le> t1" "good R p1"
    using scan_workers_returns [OF W n _ g] by blast
  obtain t2 p2 where w: "slice_wait W (v_clk W t + ucast interval * 1000000) t1 p1 = Some (t2, p2)" "t1 < t2" "good R p2"
    using slice_wait_returns [OF W n s(3)] by blast
  show ?case
  proof (cases "life_is_running p")
    case True
    then have "t < n" using n by (auto simp: stops_at_def p_def not_less [symmetric])
    then have "n - t2 < n - t" using s(2) w(2) by linarith
    from less.hyps [OF this w(3)] True s(1) w(1) show ?thesis
      by (subst supervisor_loop.simps) (simp add: Let_def p_def [symmetric])
  qed (use g in \<open>subst supervisor_loop.simps, simp add: Let_def p_def [symmetric]\<close>)
qed

text \<open>C18. The supervisor ends: once the pool is no longer running, because shutdown won or the
  supervisor was told to stop, \<open>awp_supervisor_main\<close> returns from wherever it is, including the
  grace period of a stalled worker and the sleep between two scans, and leaves phase 3, which is
  what shutdown waits for. The workers' queues stay well formed throughout.\<close>

theorem awp_supervisor_main_returns:
  assumes "fair_world W" and "pool_wf pool" and "\<forall>u\<ge>n. \<forall>p. \<not> life_is_running (v_act W u p)"
  shows "\<exists>t' p'. awp_supervisor_main W S t pool = Some (t', p') \<and> pool_wf p'
    \<and> supervisor_phase p' = 3 \<and> \<not> supervisor_alive p'"
proof -
  have g: "good (routing pool) pool" and n: "stops_at W n" using assms(2,3) by (simp_all add: good_def stops_at_def)
  let ?c = "cfg pool"
  let ?iv = "if supervisor_interval_ms ?c \<noteq> 0 then supervisor_interval_ms ?c else 500"
  let ?st = "if stall_threshold_ms ?c \<noteq> 0 then stall_threshold_ms ?c else 5000"
  obtain t1 p1 where l: "supervisor_loop W S ?iv ?st t (pool\<lparr>supervisor_phase := 2, supervisor_alive := True\<rparr>) = Some (t1, p1)"
    "good (routing pool) p1" using supervisor_loop_returns [OF assms(1) n, of "routing pool" "pool\<lparr>supervisor_phase := 2, supervisor_alive := True\<rparr>"] g
    by (simp only: good_counters) blast
  have "good (routing pool) (p1\<lparr>supervisor_phase := 3, supervisor_alive := False\<rparr>)" using l(2) by simp
  then show ?thesis using l(1) by (simp add: awp_supervisor_main_def Let_def good_def)
qed

definition stopping :: world where
  "stopping = still\<lparr>v_act := (\<lambda>t p. if t < 4 then p else set_life AWP_LIFE_QUIESCING p)\<rparr>"

theorem awp_supervisor_main_returns_witness:
  "\<exists>t' p'. awp_supervisor_main stopping willing 0 exited_pool = Some (t', p') \<and> supervisor_phase p' = 3"
proof -
  have "pool_wf (set_life l p) = pool_wf p" "routing (set_life l p) = routing p" for l p
    by (simp_all add: set_life_def pool_wf_def wf_shard_map_def worker_def routing_def)
  then have "fair_world stopping" by (simp add: fair_world_def stopping_def)
  moreover have "\<forall>u\<ge>4. \<forall>p. \<not> life_is_running (v_act stopping u p)"
    by (simp add: stopping_def life_is_running_def set_life_def)
  ultimately show ?thesis using awp_supervisor_main_returns [of stopping exited_pool 4 willing 0] exited_pool_facts(1) by blast
qed

end
