(* ===== verification/Supervisor_Stall.thy ===== *)
theory Supervisor_Stall
  imports Supervisor
begin

text \<open>
  When the supervisor gives a worker up. A scan of one worker ends once the clock passes the grace
  period, and it quarantines a worker only on evidence: work was waiting, the worker had been
  silent for longer than the threshold, was told to stop, and made no progress until the end of
  the grace period.
\<close>

section \<open>Workers nobody has given up\<close>

definition sound :: "awp_config \<times> cstr option list \<times> u32 \<times> u32 \<times> u32 \<Rightarrow> nat \<Rightarrow> awp_pool \<Rightarrow> bool" where
  "sound R i p \<longleftrightarrow> good R p \<and> i < unat (n_workers (fst R)) \<and> w_state (worker p i) \<noteq> AWP_W_QUARANTINED"

lemma sound_upd_worker:
  assumes "sound R i p" and "queue_wf (w_queue (f (worker p i)))" and "w_state (f (worker p i)) \<noteq> AWP_W_QUARANTINED"
  shows "sound R i (upd_worker i f p)"
  using assms good_upd_worker [of R p i f] good_index [of R p i] by (auto simp: sound_def worker_upd)

lemma sound_keep:
  assumes "sound R i p" and "\<And>w. w_queue (f w) = w_queue w" and "w_state (f (worker p i)) \<noteq> AWP_W_QUARANTINED"
  shows "sound R i (upd_worker i f p)"
  by (rule sound_upd_worker [OF assms(1)]) (use assms good_queue [of R p i] in \<open>simp_all add: sound_def\<close>)

lemma sound_ring:
  assumes "sound R i p"
  shows "sound R i (upd_queue i awp_ring_close p)" "sound R i (upd_queue i awp_ring_reopen p)"
  unfolding upd_queue_def
  by (rule sound_upd_worker [OF assms]; use assms good_queue [of R p i] in \<open>simp add: sound_def\<close>)+

lemma sound_fields [simp]:
  "sound R i (awp_pool_mark_quarantined p) = sound R i p"
  "sound R i (p\<lparr>shutdown_aborts := a, supervisor_stop := b\<rparr>) = sound R i p"
  by (simp_all add: sound_def good_mark)

lemma sound_start:
  assumes "sound R i p" and "awp_worker_start crc i p = (rc, p')"
  shows "sound R i p'"
  using assms good_index [of R p i]
  by (auto simp: awp_worker_start_def Let_def sound_def worker_upd intro!: sound_keep good_keep split: if_splits)

lemma restart_worker_sound:
  assumes W: "keeps W (sound R i)" and s: "sound R i p" and r: "restart_worker W S i t p = (rc, t', p')"
  shows "sound R i p'"
proof (cases "life_is_running p")
  case run: True
  obtain jrc p1 where j: "join_worker_thread (se_join S t) i p = (jrc, p1)" by fastforce
  have s1: "sound R i p1"
    using j s by (auto simp: join_worker_thread_def intro!: sound_keep split: if_splits)
  define a where "a = v_act W t p1"
  have sa: "sound R i a" using keepsD [OF W s1] by (simp add: a_def)
  define q where "q = v_act W (Suc t) (upd_worker i (progress (v_clk W t)) (upd_queue i awp_ring_reopen a))"
  have "sound R i (upd_worker i (progress (v_clk W t)) (upd_queue i awp_ring_reopen a))"
    by (rule sound_keep [OF sound_ring(2) [OF sa]])
      (use sound_ring(2) [OF sa] in \<open>simp_all add: progress_def sound_def\<close>)
  then have sq: "sound R i q" using keepsD [OF W] by (simp add: q_def)
  obtain prc p2 where c: "awp_post_reopen_terminal_check (Some q) (w_id (worker q i)) = (prc, Some p2)"
    by (cases "awp_post_reopen_terminal_check (Some q) (w_id (worker q i))")
      (auto simp: awp_post_reopen_terminal_check_def split: if_splits)
  have "prc \<noteq> 0 \<and> p2 = upd_queue (unat (w_id (worker q i))) awp_ring_close q \<or> p2 = q"
    using c by (auto simp: awp_post_reopen_terminal_check_def split: if_splits)
  moreover have "sound R i (upd_queue j awp_ring_close q)" if "j < unat (n_workers (fst R))" for j
    using good_upd_queue [of R q j awp_ring_close] good_queue [of R q j] sq that good_index [of R q j]
    by (auto simp: sound_def upd_queue_def worker_upd)
  moreover have "unat (w_id (worker q i)) < unat (n_workers (fst R))" if "prc = 1"
    using c that sq by (auto simp: awp_post_reopen_terminal_check_def sound_def good_def routing_def word_less_nat_alt not_le split: if_splits)
  moreover have "p2 = q" if "prc \<noteq> 1" using c that by (auto simp: awp_post_reopen_terminal_check_def split: if_splits)
  ultimately have s2: "sound R i p2" using sq by metis
  obtain src p3 where st: "awp_worker_start (se_create S (t + 2)) i p2 = (src, p3)" by fastforce
  have s3: "sound R i p3" by (rule sound_start [OF s2 st])
  have "sound R i (upd_worker i (\<lambda>w. w\<lparr>w_restarts := w_restarts w + 1\<rparr>) p3)"
    by (rule sound_keep [OF s3]) (use s3 in \<open>simp_all add: sound_def\<close>)
  then show ?thesis
    using r run j c st s1 sound_ring(1) [OF sa] s2 sound_ring(1) [OF s3] unfolding restart_worker_def
    by (auto simp: Let_def a_def [symmetric] q_def [symmetric] split: if_splits)
qed (use r s in \<open>simp add: restart_worker_def\<close>)

lemma stall_wait_ends:
  assumes "keeps W (sound R i)" and "passes W grace" and "sound R i p"
  shows "\<exists>t' p'. stall_wait W i grace seen t p = Some (t', p') \<and> sound R i p'"
proof -
  obtain n where n: "\<forall>t\<ge>n. grace \<le> v_clk W t" using assms(2) by (auto simp: passes_def)
  have "sound R i (upd_worker i (\<lambda>w. w\<lparr>w_stop := False\<rparr>) q)" if "sound R i q" for q
    by (rule sound_keep [OF that]) (use that in \<open>simp_all add: sound_def\<close>)
  then show ?thesis
    using sw.returns [OF assms(1) _ assms(3), where n = n and i = i and grace = grace and seen = seen and t = t] n
    by (fastforce simp: not_less split: if_splits)
qed

section \<open>Evidence\<close>

text \<open>The silence of a worker, as the scan that started at time \<open>now\<close> measures it.\<close>

definition idle_time :: "u64 \<Rightarrow> awp_worker \<Rightarrow> u64" where
  "idle_time now w = (if now > w_last_progress_ns w then (now - w_last_progress_ns w) div 1000000 else 0)"

lemma scan_worker_result:
  assumes W: "keeps W (sound R i)" and d: "passes W (v_clk W (Suc t) + ucast stall_ms * 1000000)" and s: "sound R i pool"
  defines "q \<equiv> v_act W t pool"
  shows "\<exists>b t' p'. scan_worker W S now stall_ms i t pool = Some (b, t', p') \<and>
    (sound R i p'
     \<or> w_state (worker q i) = AWP_W_RUNNING \<and> enable_restart (cfg q) \<and> ucast stall_ms < idle_time now (worker q i)
       \<and> awp_ring_depth (queue q i) > 0
       \<and> (\<exists>z. sound R i z \<and> life_is_running z \<and> w_state (worker z i) = AWP_W_RUNNING \<and> w_stop (worker z i)
            \<and> w_last_progress_ns (worker z i) \<le> w_last_progress_ns (worker q i) \<and> p' = quarantine_stalled i z))"
proof -
  have sq: "sound R i q" using keepsD [OF W s] by (simp add: q_def)
  let ?grace = "v_clk W (Suc t) + ucast stall_ms * 1000000" and ?last = "w_last_progress_ns (worker q i)"
  obtain rc1 t1 p1 where r: "restart_worker W S i (Suc t) q = (rc1, t1, p1)" by (metis prod.exhaust)
  have s1: "sound R i p1" by (rule restart_worker_sound [OF W sq r])
  have "sound R i (upd_worker i (\<lambda>w. w\<lparr>w_stop := True\<rparr>) q)"
    by (rule sound_keep [OF sq]) (use sq in \<open>simp_all add: sound_def\<close>)
  from stall_wait_ends [OF W d this, of ?last "t + 2"] obtain t2 p2 where
    w: "stall_wait W i ?grace ?last (t + 2) (upd_worker i (\<lambda>w. w\<lparr>w_stop := True\<rparr>) q) = Some (t2, p2)" "sound R i p2" by blast
  define z where "z = v_act W t2 p2"
  have sz: "sound R i z" using keepsD [OF W w(2)] by (simp add: z_def)
  obtain rc3 t3 p3 where r': "restart_worker W S i (Suc t2) z = (rc3, t3, p3)" by (metis prod.exhaust)
  have s3: "sound R i p3" by (rule restart_worker_sound [OF W sz r'])
  have s4: "sound R i (upd_worker i (\<lambda>w. w\<lparr>w_stop := False\<rparr>) z)"
    by (rule sound_keep [OF sz]) (use sz in \<open>simp_all add: sound_def\<close>)
  show ?thesis
  proof (cases "w_state (worker q i) = AWP_W_RUNNING \<and> enable_restart (cfg q) \<and> ucast stall_ms < idle_time now (worker q i)
      \<and> awp_ring_depth (queue q i) > 0")
    case True
    then have e: "scan_worker W S now stall_ms i t pool =
        (if \<not> life_is_running z then Some (True, Suc t2, z)
         else if w_state (worker z i) = AWP_W_EXITED then Some (False, t3, p3)
         else if w_state (worker z i) = AWP_W_RUNNING \<and> w_stop (worker z i) \<and> w_last_progress_ns (worker z i) \<le> ?last
         then Some (False, Suc t2, quarantine_stalled i z)
         else Some (False, Suc t2, upd_worker i (\<lambda>w. w\<lparr>w_stop := False\<rparr>) z))"
      using w(1) r' unfolding scan_worker_def Let_def q_def [symmetric] idle_time_def by (simp add: z_def [symmetric])
    show ?thesis
      by (cases "life_is_running z"; cases "w_state (worker z i) = AWP_W_EXITED";
          cases "w_state (worker z i) = AWP_W_RUNNING \<and> w_stop (worker z i) \<and> w_last_progress_ns (worker z i) \<le> ?last")
        (use e True sz s3 s4 in auto)
  next
    case False
    then show ?thesis
      using r s1 sq unfolding scan_worker_def Let_def q_def [symmetric] idle_time_def by auto
  qed
qed

lemma quarantine_stalled_spec:
  assumes "sound R i z"
  shows "pool_wf (quarantine_stalled i z)" "quarantined (quarantine_stalled i z)" "r_closed (queue (quarantine_stalled i z) i)"
    "ring_abs (queue (quarantine_stalled i z) i) = ring_abs (queue z i)"
    "shutdown_aborts (quarantine_stalled i z) = shutdown_aborts z + 1"
proof -
  have g: "good R z" and i: "i < unat (n_workers (fst R))" using assms by (auto simp: sound_def)
  have "good R (upd_worker i (\<lambda>w. w\<lparr>w_state := AWP_W_QUARANTINED, w_queue := awp_ring_close (w_queue w)\<rparr>) z)"
    by (rule good_upd_worker [OF g i]) (use good_queue [OF g i] in simp)
  then have "good R (quarantine_stalled i z)" by (simp add: quarantine_stalled_def Let_def good_mark)
  then show "pool_wf (quarantine_stalled i z)" by (simp add: good_def)
qed (use assms good_index [of R z i] in \<open>simp_all add: quarantine_stalled_def Let_def worker_upd sound_def\<close>)


text \<open>A world in which the worker stays silent while the clock runs past the grace period.\<close>

definition silent :: world where
  "silent = still\<lparr>v_clk := (\<lambda>t. if t < 4 then 2 ^ 35 else 2 ^ 40)\<rparr>"


end
