(* ===== verification/Pool.thy ===== *)
theory Pool
  imports Supervisor
begin

text \<open>
  The life cycle of a pool (\<open>src/pool.c\<close>) up to its shutdown: configuration defaults, creation
  with its rollback, the metrics. What the allocator, the thread library and the joins answer is
  an argument. A pool's memory is not modelled as a heap; instead the result of an
  operation that frees the pool says so, together with the content at that moment.
\<close>

section \<open>Configuration\<close>

definition awp_config_init :: "awp_config option \<Rightarrow> awp_config option" where
  "awp_config_init co =
     (case co of
        None \<Rightarrow> None
      | Some _ \<Rightarrow> Some
          \<lparr>n_workers = 8, queue_capacity = 256, frame_pool_size = 2048, ring_mode = AWP_RING_MPSC,
           shutdown_deadline_ms = 10000, supervisor_interval_ms = 500, stall_threshold_ms = 5000,
           enable_supervisor = True, enable_restart = True, cfg_process = False, cfg_on_error = False,
           n_broadcast_workers = 0, cfg_broadcast_feeds = None\<rparr>)"

text \<open>\<open>strcasecmp\<close> in the C locale, compared with 0.\<close>

definition to_lower :: "u8 \<Rightarrow> u8" where
  "to_lower c = (if 65 \<le> c \<and> c \<le> 90 then c + 32 else c)"

definition strcaseeq :: "cstr \<Rightarrow> cstr \<Rightarrow> bool" where
  "strcaseeq a b \<longleftrightarrow> map to_lower (content a) = map to_lower (content b)"

text \<open>The argument is the value of the environment variable, with \<open>''true''\<close> and \<open>''yes''\<close> written
  out as bytes.\<close>

definition awp_runtime_enabled :: "cstr option \<Rightarrow> bool" where
  "awp_runtime_enabled e =
     (case e of
        None \<Rightarrow> False
      | Some e \<Rightarrow>
          if e ! 0 = 49 \<and> e ! 1 = 0 then True
          else if strcaseeq e [116, 114, 117, 101, 0] \<or> strcaseeq e [121, 101, 115, 0] then True
          else False)"

section \<open>Broadcast feeds\<close>

text \<open>The first component lists the strings given to \<open>free\<close>.\<close>

definition free_broadcast_feeds :: "awp_pool \<Rightarrow> cstr option list \<times> awp_pool" where
  "free_broadcast_feeds pool =
     (if broadcast_feeds pool = [] then ([], pool)
      else (take (unat (n_broadcast_feeds pool)) (broadcast_feeds pool),
            pool\<lparr>broadcast_feeds := [], n_broadcast_feeds := 0\<rparr>))"

definition strdup :: "cstr \<Rightarrow> cstr" where
  "strdup s = content s @ [0]"

text \<open>\<open>dup i\<close> tells whether the \<open>i\<close>-th call of \<open>strdup\<close> succeeds.\<close>

fun dup_feeds :: "(nat \<Rightarrow> bool) \<Rightarrow> nat \<Rightarrow> cstr list \<Rightarrow> awp_pool \<Rightarrow> bool \<times> awp_pool" where
  "dup_feeds dup i [] pool = (True, pool)"
| "dup_feeds dup i (f # fs) pool =
     (if dup i
      then dup_feeds dup (Suc i) fs (pool\<lparr>broadcast_feeds := (broadcast_feeds pool)[i := Some (strdup f)]\<rparr>)
      else (False, pool))"

definition copy_broadcast_feeds ::
  "bool \<Rightarrow> (nat \<Rightarrow> bool) \<Rightarrow> awp_pool \<Rightarrow> awp_config \<Rightarrow> int \<times> cstr option list \<times> awp_pool" where
  "copy_broadcast_feeds calloc dup pool c =
     (case cfg_broadcast_feeds c of
        None \<Rightarrow> (0, [], pool)
      | Some fs \<Rightarrow>
          let n = of_nat (length fs) :: u32
          in if n = 0 then (0, [], pool)
             else if \<not> calloc then (- ENOMEM, [], pool)
             else case dup_feeds dup 0 (take (unat n) fs) (pool\<lparr>broadcast_feeds := replicate (unat n) None\<rparr>) of
                    (True, pool) \<Rightarrow> (0, [], pool\<lparr>n_broadcast_feeds := n\<rparr>)
                  | (False, pool) \<Rightarrow>
                      case free_broadcast_feeds pool of (freed, pool) \<Rightarrow> (- ENOMEM, freed, pool))"

section \<open>Creation\<close>

text \<open>What the allocator, the initialisers and the thread library answer during \<open>awp_pool_create\<close>;
  \<open>ce_thread i\<close> and \<open>ce_join i\<close> are the results of \<open>pthread_create\<close> and of the rollback's
  \<open>pthread_join\<close> for worker \<open>i\<close>.\<close>

record create_env =
  ce_pool :: bool
  ce_life_mu :: bool
  ce_life_cv :: bool
  ce_metrics_mu :: bool
  ce_feeds :: bool
  ce_strdup :: "nat \<Rightarrow> bool"
  ce_frames :: pool_alloc
  ce_workers :: bool
  ce_metrics :: bool
  ce_ring :: "nat \<Rightarrow> ring_alloc"
  ce_thread :: "nat \<Rightarrow> int"
  ce_supervisor :: int
  ce_join :: "nat \<Rightarrow> int"

text \<open>\<open>Rolled_back ws pool\<close>: everything was freed; \<open>ws\<close> is the worker array as it was when it
  was freed (empty when it never was) and \<open>pool\<close> the content at \<open>free(pool)\<close>. \<open>Leaked\<close>: the call
  returned with the pool still allocated.\<close>

datatype created = Refused | Rolled_back "awp_worker list" awp_pool | Leaked awp_pool | Created awp_pool

definition zero_worker :: awp_worker where
  "zero_worker =
     \<lparr>w_id = 0, w_live = False, w_queue = zero_ring, w_processed = 0, w_process_errors = 0,
      w_enqueue_blocks = 0, w_blocked_ns = 0, w_queue_hwm = 0, w_last_progress_ns = 0,
      w_restarts = 0, w_generation = 0, w_state = AWP_W_STARTING, w_stop = False, w_joined = False\<rparr>"

definition zero_metrics :: awp_worker_metrics where
  "zero_metrics =
     \<lparr>m_processed = 0, m_process_errors = 0, m_enqueue_blocks = 0, m_blocked_ns = 0, m_queue_depth = 0,
      m_queue_hwm = 0, m_restarts = 0, m_last_progress_ns = 0, m_alive = False\<rparr>"

definition new_pool :: "awp_config \<Rightarrow> awp_pool" where
  "new_pool c =
     \<lparr>cfg = c, workers = [], frames = zero_pool, submitted = 0, dropped = 0, process_errors = 0,
      shutdown_aborts = 0, seq = 0, abandoned = 0, lifecycle = AWP_LIFE_INIT, active_submits = 0,
      api_refs = 0, shutdown_waiters = 0, supervisor_stop = False, supervisor_alive = False,
      supervisor_phase = 0, supervisor_joined = True, supervisor_started = False, quarantined = False,
      destroy_started = False, metrics_buf = [], broadcast_feeds = [], n_broadcast_feeds = 0,
      shard_base = n_broadcast_workers c, n_shard_workers = n_workers c - n_broadcast_workers c\<rparr>"

definition fail_mu :: "int \<Rightarrow> awp_worker list \<Rightarrow> awp_pool \<Rightarrow> int \<times> created" where
  "fail_mu rc ws pool = (rc, Rolled_back ws pool)"

definition fail_feeds :: "int \<Rightarrow> awp_worker list \<Rightarrow> awp_pool \<Rightarrow> int \<times> created" where
  "fail_feeds rc ws pool = fail_mu rc ws (snd (free_broadcast_feeds pool))"

definition destroy_frames :: "awp_pool \<Rightarrow> awp_pool" where
  "destroy_frames pool =
     (case awp_frame_pool_destroy (Some (frames pool)) of Some fp \<Rightarrow> pool\<lparr>frames := fp\<rparr> | None \<Rightarrow> pool)"

definition fail_frames :: "int \<Rightarrow> awp_worker list \<Rightarrow> awp_pool \<Rightarrow> int \<times> created" where
  "fail_frames rc ws pool = fail_feeds rc ws (destroy_frames pool)"

text \<open>The loop that destroys the rings of joined workers.\<close>

definition destroy_rings :: "nat \<Rightarrow> awp_pool \<Rightarrow> awp_pool" where
  "destroy_rings n pool =
     fold (\<lambda>i p. if w_joined (worker p i) then upd_queue i awp_ring_destroy p else p) [0..<n] pool"

definition fail_workers :: "int \<Rightarrow> nat \<Rightarrow> awp_pool \<Rightarrow> int \<times> created" where
  "fail_workers rc rings_ok pool =
     (let pool = destroy_rings rings_ok pool
      in fail_frames rc (workers pool) (pool\<lparr>workers := [], metrics_buf := []\<rparr>))"

text \<open>The rollback once threads may be running; the first component is False when a join failed.\<close>

fun rollback :: "create_env \<Rightarrow> world \<Rightarrow> nat list \<Rightarrow> nat \<Rightarrow> awp_pool \<Rightarrow> bool \<times> awp_pool" where
  "rollback A W [] t pool = (True, pool)"
| "rollback A W (i # is) t pool0 =
     (let pool = upd_worker i (\<lambda>w. w\<lparr>w_stop := True, w_queue := awp_ring_close (w_queue w)\<rparr>) (v_act W t pool0)
      in if w_joined (worker pool i) then rollback A W is (Suc t) pool
         else if ce_join A i = 0
         then rollback A W is (Suc t) (upd_worker i (\<lambda>w. w\<lparr>w_joined := True, w_live := False\<rparr>) pool)
         else (False, pool))"

definition fail_running :: "create_env \<Rightarrow> world \<Rightarrow> int \<Rightarrow> nat \<Rightarrow> nat \<Rightarrow> awp_pool \<Rightarrow> int \<times> created" where
  "fail_running A W rc rings_ok t pool =
     (case rollback A W [0..<n_wk pool] t (set_life AWP_LIFE_DRAINING (pool\<lparr>supervisor_stop := True\<rparr>)) of
        (False, pool) \<Rightarrow> (rc, Leaked pool)
      | (True, pool) \<Rightarrow> fail_workers rc rings_ok pool)"

definition init_worker :: "u64 \<Rightarrow> nat \<Rightarrow> awp_worker \<Rightarrow> awp_worker" where
  "init_worker now i w =
     w\<lparr>w_id := of_nat i, w_processed := 0, w_process_errors := 0, w_enqueue_blocks := 0, w_blocked_ns := 0,
       w_queue_hwm := 0, w_last_progress_ns := now, w_restarts := 0, w_generation := 0,
       w_state := AWP_W_JOINED, w_stop := False, w_joined := True\<rparr>"

text \<open>Result: the return code, \<open>rings_ok\<close> and the pool.\<close>

fun init_workers ::
  "create_env \<Rightarrow> world \<Rightarrow> awp_config \<Rightarrow> nat list \<Rightarrow> nat \<Rightarrow> nat \<Rightarrow> awp_pool \<Rightarrow> int \<times> nat \<times> awp_pool" where
  "init_workers A W c [] rings_ok t pool = (0, rings_ok, pool)"
| "init_workers A W c (i # is) rings_ok t pool =
     (let w = init_worker (v_clk W t) i (worker pool i)
      in case awp_ring_init (ce_ring A i) (Some (w_queue w)) (queue_capacity c) (ring_mode c) of (rc, ro) \<Rightarrow>
           let r = (case ro of Some r \<Rightarrow> r | None \<Rightarrow> w_queue w);
               pool = upd_worker i (\<lambda>_. w\<lparr>w_queue := r\<rparr>) pool
           in if rc \<noteq> 0 then (rc, rings_ok, pool)
              else init_workers A W c is (Suc rings_ok) (Suc t) pool)"

text \<open>The threads that were started already move.\<close>

fun start_workers :: "create_env \<Rightarrow> world \<Rightarrow> nat list \<Rightarrow> nat \<Rightarrow> awp_pool \<Rightarrow> int \<times> nat \<times> awp_pool" where
  "start_workers A W [] t pool = (0, t, pool)"
| "start_workers A W (i # is) t pool =
     (case awp_worker_start (ce_thread A i) i pool of (rc, pool) \<Rightarrow>
        let pool = v_act W t pool
        in if rc \<noteq> 0 then (rc, Suc t, pool) else start_workers A W is (Suc t) pool)"

definition start_supervisor ::
  "create_env \<Rightarrow> world \<Rightarrow> awp_config \<Rightarrow> nat \<Rightarrow> nat \<Rightarrow> awp_pool \<Rightarrow> int \<times> created" where
  "start_supervisor A W c rings_ok t pool =
     (if \<not> enable_supervisor c then (0, Created pool)
      else
        let pool = pool\<lparr>supervisor_joined := False, supervisor_phase := 1\<rparr>
        in if ce_supervisor A \<noteq> 0
           then fail_running A W (- ce_supervisor A) rings_ok (Suc t)
                  (pool\<lparr>supervisor_phase := 0, supervisor_joined := True\<rparr>)
           else (0, Created ((v_act W t pool)\<lparr>supervisor_started := True\<rparr>)))"

definition valid_config :: "awp_config \<Rightarrow> bool" where
  "valid_config c \<longleftrightarrow>
     cfg_process c
     \<and> \<not> (n_workers c < 1 \<or> queue_capacity c < 1 \<or> frame_pool_size c < 1)
     \<and> \<not> n_broadcast_workers c \<ge> n_workers c
     \<and> ring_mode c \<noteq> AWP_RING_OTHER
     \<and> awp_round_up_pow2 (queue_capacity c) \<noteq> 0"

definition awp_pool_create ::
  "create_env \<Rightarrow> world \<Rightarrow> nat \<Rightarrow> awp_config option \<Rightarrow> bool \<Rightarrow> int \<times> created" where
  "awp_pool_create A W t co out =
     (case co of
        None \<Rightarrow> (- EINVAL, Refused)
      | Some c \<Rightarrow>
          if \<not> out \<or> \<not> valid_config c then (- EINVAL, Refused)
          else if \<not> ce_pool A then (- ENOMEM, Refused)
          else
            let pool = new_pool c
            in if \<not> ce_life_mu A \<or> \<not> ce_life_cv A \<or> \<not> ce_metrics_mu A then (- ENOMEM, Rolled_back [] pool)
               else case copy_broadcast_feeds (ce_feeds A) (ce_strdup A) pool c of (rc, _, pool) \<Rightarrow>
                 if rc \<noteq> 0 then fail_mu rc [] pool
                 else case awp_frame_pool_init (ce_frames A) (Some (frames pool)) (frame_pool_size c) of (rc, fo) \<Rightarrow>
                   let pool = pool\<lparr>frames := (case fo of Some fp \<Rightarrow> fp | None \<Rightarrow> frames pool)\<rparr>
                   in if rc \<noteq> 0 then fail_feeds rc [] pool
                      else
                        let pool = pool
                              \<lparr>workers := (if ce_workers A then replicate (unat (n_workers c)) zero_worker else []),
                               metrics_buf := (if ce_metrics A then replicate (unat (n_workers c)) zero_metrics else [])\<rparr>
                        in if \<not> ce_workers A \<or> \<not> ce_metrics A then fail_frames (- ENOMEM) [] pool
                           else case init_workers A W c [0..<unat (n_workers c)] 0 t pool of (rc, rings_ok, pool) \<Rightarrow>
                             if rc \<noteq> 0 then fail_workers rc rings_ok pool
                             else case start_workers A W [0..<unat (n_workers c)] (t + unat (n_workers c))
                                         (set_life AWP_LIFE_RUNNING pool) of (rc, t, pool) \<Rightarrow>
                               if rc \<noteq> 0 then fail_running A W rc rings_ok t pool
                               else start_supervisor A W c rings_ok t pool)"

section \<open>Metrics\<close>

definition worker_metrics :: "awp_worker \<Rightarrow> awp_worker_metrics" where
  "worker_metrics w =
     \<lparr>m_processed = w_processed w, m_process_errors = w_process_errors w, m_enqueue_blocks = w_enqueue_blocks w,
      m_blocked_ns = w_blocked_ns w, m_queue_depth = ucast (awp_ring_depth (w_queue w)),
      m_queue_hwm = w_queue_hwm w, m_restarts = w_restarts w, m_last_progress_ns = w_last_progress_ns w,
      m_alive = (w_state w = AWP_W_RUNNING \<or> w_state w = AWP_W_STARTING \<or> w_state w = AWP_W_QUARANTINED)\<rparr>"

text \<open>The rows are read one worker after the other while the other threads move; \<open>metrics_mu\<close> keeps
  other readers out.\<close>

fun metric_rows :: "world \<Rightarrow> nat list \<Rightarrow> nat \<Rightarrow> awp_pool \<Rightarrow> nat \<times> awp_pool" where
  "metric_rows W [] t pool = (t, pool)"
| "metric_rows W (i # is) t pool0 =
     (let pool = v_act W t pool0
      in metric_rows W is (Suc t) (pool\<lparr>metrics_buf := (metrics_buf pool)[i := worker_metrics (worker pool i)]\<rparr>))"

definition awp_pool_get_metrics ::
  "world \<Rightarrow> nat \<Rightarrow> awp_pool option \<Rightarrow> bool \<Rightarrow> int \<times> awp_pool_metrics option \<times> nat \<times> awp_pool option" where
  "awp_pool_get_metrics W t po out =
     (case po of
        None \<Rightarrow> (- EINVAL, None, t, None)
      | Some pool0 \<Rightarrow>
          if \<not> out then (- EINVAL, None, t, po)
          else
            let pool = v_act W t (awp_api_enter pool0)
            in case metric_rows W [0..<n_wk pool] (Suc t) pool of (t', pool') \<Rightarrow>
                 (0, Some \<lparr>pm_submitted = submitted pool, pm_dropped = dropped pool + abandoned pool,
                           pm_process_errors = process_errors pool, pm_shutdown_aborts = shutdown_aborts pool,
                           pm_n_workers = n_workers (cfg pool), pm_workers = metrics_buf pool'\<rparr>,
                  t', Some (awp_api_leave pool')))"

definition awp_pool_drops :: "awp_pool option \<Rightarrow> u64 \<times> awp_pool option" where
  "awp_pool_drops po =
     (case po of
        None \<Rightarrow> (0, None)
      | Some pool \<Rightarrow>
          let pool = awp_api_enter pool
          in (dropped pool + abandoned pool, Some (awp_api_leave pool)))"

end
