(* ===== verification/Pool_Spec.thy ===== *)
theory Pool_Spec
  imports Pool
begin

text \<open>
  What creation does, on top of theory \<open>Pool\<close>: when it succeeds, the state it hands out, and
  what a failed call leaves behind. \<open>ready_pool\<close> is the state before the first thread starts.
\<close>


section \<open>What creation needs\<close>

definition ring_env_ok :: "ring_alloc \<Rightarrow> bool" where
  "ring_env_ok A \<longleftrightarrow> a_mutex A \<and> a_cond A
     \<and> (a_cells_memalign A \<or> a_cells_calloc A) \<and> (a_frames_memalign A \<or> a_frames_calloc A)"

definition feeds_ok :: "create_env \<Rightarrow> awp_config \<Rightarrow> bool" where
  "feeds_ok A c \<longleftrightarrow>
     (case cfg_broadcast_feeds c of
        None \<Rightarrow> True
      | Some fs \<Rightarrow> fs = [] \<or> ce_feeds A \<and> (\<forall>i<length fs. ce_strdup A i))"

definition create_env_ok :: "create_env \<Rightarrow> awp_config \<Rightarrow> bool" where
  "create_env_ok A c \<longleftrightarrow>
     ce_pool A \<and> ce_life_mu A \<and> ce_life_cv A \<and> ce_metrics_mu A \<and> feeds_ok A c
     \<and> b_slab (ce_frames A) \<and> b_next (ce_frames A) \<and> b_mutex (ce_frames A) \<and> b_cond (ce_frames A)
     \<and> ce_workers A \<and> ce_metrics A \<and> (\<forall>i<unat (n_workers c). ring_env_ok (ce_ring A i) \<and> ce_thread A i = 0)
     \<and> (enable_supervisor c \<longrightarrow> ce_supervisor A = 0)"

text \<open>An open and empty queue of the configured capacity.\<close>

definition fresh_queue :: "awp_config \<Rightarrow> awp_ring \<Rightarrow> bool" where
  "fresh_queue c r \<longleftrightarrow>
     queue_wf r \<and> open_ring r \<and> queued r = [] \<and> r_mode r = ring_mode c
     \<and> ring_cap r = unat (awp_round_up_pow2 (queue_capacity c))"

definition no_storage :: "awp_ring \<Rightarrow> bool" where
  "no_storage r \<longleftrightarrow> r_cells r = [] \<and> r_frames r = []"

lemma ring_init_cases:
  assumes "valid_config c"
  shows "\<exists>rc r. awp_ring_init A (Some r0) (queue_capacity c) (ring_mode c) = (rc, Some r)
    \<and> (rc = 0 \<longleftrightarrow> ring_env_ok A) \<and> (if rc = 0 then fresh_queue c r else no_storage r)"
proof -
  have v: "queue_capacity c < 1 \<longleftrightarrow> False" "ring_mode c \<noteq> AWP_RING_OTHER" "awp_round_up_pow2 (queue_capacity c) \<noteq> 0"
    using assms by (auto simp: valid_config_def)
  obtain rc r where e: "awp_ring_init A (Some r0) (queue_capacity c) (ring_mode c) = (rc, Some r)"
  proof -
    have "\<exists>rc r. awp_ring_init A (Some r0) (queue_capacity c) (ring_mode c) = (rc, Some r)"
      using v by (simp add: awp_ring_init_def Let_def split: prod.split)
    then show thesis using that by blast
  qed
  have iff: "rc = 0 \<longleftrightarrow> ring_env_ok A"
    using e v by (auto simp: awp_ring_init_def ring_alloc_cells_def ring_env_ok_def Let_def errno_defs split: if_splits)
  have "no_storage r" if "rc \<noteq> 0"
    using e v that by (auto simp: awp_ring_init_def ring_alloc_cells_def no_storage_def zero_ring_def Let_def split: if_splits)
  moreover have "fresh_queue c r" if "rc = 0"
  proof -
    have ok: "open_ring r" "ring_abs r = []" "length (r_frames r) = ring_cap r" "r_mode r = ring_mode c"
      "ring_cap r = unat (awp_round_up_pow2 (queue_capacity c))"
      using awp_ring_init_ok [of A r0 "queue_capacity c" "ring_mode c" r] e that by auto
    have "\<forall>f \<in> set (r_frames r). wf_frame f"
      using e v that by (auto simp: awp_ring_init_def ring_alloc_cells_def Let_def errno_defs split: if_splits)
    moreover have "ring_len r = 0" using ok(2) length_ring_abs [of r] by simp
    ultimately show ?thesis using ok by (simp add: fresh_queue_def queue_wf_def open_ring_def queued_def)
  qed
  ultimately show ?thesis using e iff by auto
qed

text \<open>A worker after the initialisation loop.\<close>

definition idle_worker :: "awp_config \<Rightarrow> nat \<Rightarrow> awp_worker \<Rightarrow> bool" where
  "idle_worker c i w \<longleftrightarrow>
     fresh_queue c (w_queue w) \<and> w_id w = of_nat i \<and> w_state w = AWP_W_JOINED \<and> w_joined w \<and> \<not> w_stop w
     \<and> w_generation w = 0 \<and> w_processed w = 0 \<and> w_process_errors w = 0"

lemma init_workers_cases:
  assumes "valid_config c" and "k \<le> N" and "length (workers pool) = N"
    and "\<forall>j<k. idle_worker c j (worker pool j)" and "\<forall>j. k \<le> j \<and> j < N \<longrightarrow> no_storage (queue pool j)"
  shows "\<exists>rc k' ws. init_workers A W c [k..<N] k t pool = (rc, k', pool\<lparr>workers := ws\<rparr>) \<and> length ws = N \<and> k' \<le> N
    \<and> (rc = 0 \<longleftrightarrow> (\<forall>j. k \<le> j \<and> j < N \<longrightarrow> ring_env_ok (ce_ring A j)))
    \<and> (rc = 0 \<longrightarrow> k' = N) \<and> (\<forall>j<k'. idle_worker c j (ws ! j))
    \<and> (\<forall>j. k' \<le> j \<and> j < N \<longrightarrow> no_storage (w_queue (ws ! j)))"
  using assms(2-5)
proof (induction "N - k" arbitrary: k t pool)
  case 0
  then have "pool = pool\<lparr>workers := workers pool\<rparr>" "k = N" by simp_all
  then show ?case using 0 by (intro exI [of _ 0] exI [of _ N] exI [of _ "workers pool"]) (auto simp: worker_def)
next
  case (Suc d)
  let ?w = "init_worker (v_clk W t) k (worker pool k)"
  obtain rc r where r: "awp_ring_init (ce_ring A k) (Some (w_queue ?w)) (queue_capacity c) (ring_mode c) = (rc, Some r)"
    "rc = 0 \<longleftrightarrow> ring_env_ok (ce_ring A k)" "if rc = 0 then fresh_queue c r else no_storage r"
    using ring_init_cases [OF assms(1)] by blast
  let ?p = "upd_worker k (\<lambda>_. ?w\<lparr>w_queue := r\<rparr>) pool"
  have kN: "k < N" and up: "[k..<N] = k # [Suc k..<N]" using Suc.hyps(2) by (simp_all add: upt_rec)
  have P: "workers ?p = (workers pool)[k := ?w\<lparr>w_queue := r\<rparr>]" "?p = pool\<lparr>workers := workers ?p\<rparr>"
    by (simp_all add: upd_worker_def)
  show ?case
  proof (cases "rc = 0")
    case False
    have e: "init_workers A W c [k..<N] k t pool = (rc, k, pool\<lparr>workers := workers ?p\<rparr>)"
      using r(1) False up P(2) by (simp add: Let_def)
    have "\<forall>j<k. idle_worker c j (workers ?p ! j)" using Suc.prems(3) P(1) by (auto simp: worker_def)
    moreover have "no_storage (w_queue (workers ?p ! j))" if "k \<le> j" "j < N" for j
      using that Suc.prems(2,4) P(1) r(3) False by (cases "j = k") (auto simp: worker_def)
    moreover have "\<not> (\<forall>j. k \<le> j \<and> j < N \<longrightarrow> ring_env_ok (ce_ring A j))" using r(2) False kN by auto
    ultimately show ?thesis using e False Suc.prems(2) kN P(1) by (intro exI [of _ rc] exI [of _ k] exI [of _ "workers ?p"]) simp
  next
    case True
    have pre: "d = N - Suc k" "Suc k \<le> N" "length (workers ?p) = N" using Suc.hyps(2) Suc.prems(2) P(1) by simp_all
    have "idle_worker c k (?w\<lparr>w_queue := r\<rparr>)" using r(3) True by (simp add: idle_worker_def init_worker_def)
    then have "\<forall>j<Suc k. idle_worker c j (worker ?p j)"
      using Suc.prems(2,3) P(1) kN by (auto simp: worker_def less_Suc_eq)
    moreover have "\<forall>j. Suc k \<le> j \<and> j < N \<longrightarrow> no_storage (queue ?p j)"
      using Suc.prems(4) P(1) by (auto simp: worker_def)
    ultimately obtain rc' k' ws where IH: "init_workers A W c [Suc k..<N] (Suc k) (Suc t) ?p = (rc', k', ?p\<lparr>workers := ws\<rparr>)"
      "length ws = N" "k' \<le> N" "rc' = 0 \<longleftrightarrow> (\<forall>j. Suc k \<le> j \<and> j < N \<longrightarrow> ring_env_ok (ce_ring A j))"
      "rc' = 0 \<longrightarrow> k' = N" "\<forall>j<k'. idle_worker c j (ws ! j)" "\<forall>j. k' \<le> j \<and> j < N \<longrightarrow> no_storage (w_queue (ws ! j))"
      using Suc.hyps(1) [OF pre, of "Suc t"] by blast
    have "?p\<lparr>workers := ws\<rparr> = pool\<lparr>workers := ws\<rparr>" by (simp add: upd_worker_def)
    then have e: "init_workers A W c [k..<N] k t pool = (rc', k', pool\<lparr>workers := ws\<rparr>)"
      using r(1) True up IH(1) by (simp add: Let_def)
    have "(\<forall>j. k \<le> j \<and> j < N \<longrightarrow> ring_env_ok (ce_ring A j)) \<longleftrightarrow> (\<forall>j. Suc k \<le> j \<and> j < N \<longrightarrow> ring_env_ok (ce_ring A j))"
      using r(2) True by (metis Suc_leD Suc_leI le_eq_less_or_eq)
    then show ?thesis using e IH(2-7) by blast
  qed
qed

section \<open>Starting the threads\<close>

lemma worker_start_rc: "\<exists>p. awp_worker_start crc i pool = (- crc, p)"
  by (simp add: awp_worker_start_def Let_def)

lemma good_start:
  "good R p \<Longrightarrow> i < unat (n_workers (fst R)) \<Longrightarrow> awp_worker_start crc i p = (rc, p') \<Longrightarrow> good R p'"
  by (auto simp: awp_worker_start_def Let_def intro!: good_keep split: if_splits)

lemma start_workers_cases:
  assumes W: "fair_world W" and "good R pool" and "\<forall>i \<in> set is. i < unat (n_workers (fst R))"
  shows "\<exists>rc t' p'. start_workers A W is t pool = (rc, t', p') \<and> good R p'
    \<and> (rc = 0 \<longleftrightarrow> (\<forall>i \<in> set is. ce_thread A i = 0))"
  using assms(2,3)
proof (induction "is" arbitrary: t pool)
  case (Cons i "is")
  obtain p1 where s: "awp_worker_start (ce_thread A i) i pool = (- ce_thread A i, p1)" using worker_start_rc by blast
  have g: "good R (v_act W t p1)" using good_act [OF W good_start [OF Cons.prems(1) _ s]] Cons.prems(2) by simp
  obtain rc t' p' where "start_workers A W is (Suc t) (v_act W t p1) = (rc, t', p')" "good R p'"
    "rc = 0 \<longleftrightarrow> (\<forall>i \<in> set is. ce_thread A i = 0)"
    using Cons.IH [OF g] Cons.prems(2) by force
  then show ?case using s g by (cases "ce_thread A i = 0") (auto simp: Let_def)
qed simp

text \<open>A worker just after its thread was created.\<close>

definition started_worker :: "awp_worker \<Rightarrow> awp_worker" where
  "started_worker w = w\<lparr>w_stop := False, w_joined := False, w_state := AWP_W_STARTING,
     w_generation := w_generation w + 1, w_live := True\<rparr>"

lemma start_workers_alone:
  assumes alone: "\<forall>t p. v_act W t p = p" and "distinct is" and "\<forall>i \<in> set is. i < length (workers pool) \<and> ce_thread A i = 0"
  shows "\<exists>t' ws. start_workers A W is t pool = (0, t', pool\<lparr>workers := ws\<rparr>) \<and> length ws = length (workers pool)
    \<and> (\<forall>j. ws ! j = (if j \<in> set is then started_worker (worker pool j) else worker pool j))"
  using assms(2,3)
proof (induction "is" arbitrary: t pool)
  case Nil
  then show ?case by (auto simp: worker_def intro: exI [of _ "workers pool"])
next
  case (Cons i "is")
  let ?p = "upd_worker i started_worker pool"
  have s: "awp_worker_start (ce_thread A i) i pool = (0, ?p)"
    using Cons.prems(2) by (simp add: awp_worker_start_def Let_def upd_worker_def started_worker_def)
  have "\<forall>i \<in> set is. i < length (workers ?p) \<and> ce_thread A i = 0" using Cons.prems(2) by simp
  then obtain t' ws where IH: "start_workers A W is (Suc t) ?p = (0, t', ?p\<lparr>workers := ws\<rparr>)"
    "length ws = length (workers ?p)" "\<forall>j. ws ! j = (if j \<in> set is then started_worker (worker ?p j) else worker ?p j)"
    using Cons.IH [of ?p "Suc t"] Cons.prems(1) by auto
  have "?p\<lparr>workers := ws\<rparr> = pool\<lparr>workers := ws\<rparr>" by (simp add: upd_worker_def)
  moreover have "worker ?p j = (if j = i then started_worker (worker pool i) else worker pool j)" for j
    using Cons.prems(2) by (simp add: worker_upd)
  ultimately show ?case using s IH Cons.prems(1) alone by auto
qed


section \<open>Copying the feeds\<close>

lemma dup_feeds_cases:
  assumes "i + length fs = length (broadcast_feeds pool)"
  shows "\<exists>ok f. dup_feeds dup i fs pool = (ok, pool\<lparr>broadcast_feeds := f\<rparr>) \<and> length f = length (broadcast_feeds pool)
    \<and> (ok \<longleftrightarrow> (\<forall>j<length fs. dup (i + j)))
    \<and> (ok \<longrightarrow> f = take i (broadcast_feeds pool) @ map (Some \<circ> strdup) fs)"
  using assms
proof (induction fs arbitrary: i pool)
  case Nil
  then show ?case by (intro exI [of _ True] exI [of _ "broadcast_feeds pool"]) simp
next
  case (Cons s fs)
  let ?p = "pool\<lparr>broadcast_feeds := (broadcast_feeds pool)[i := Some (strdup s)]\<rparr>"
  have all: "(\<forall>j<length (s # fs). dup (i + j)) \<longleftrightarrow> dup i \<and> (\<forall>j<length fs. dup (Suc i + j))"
    by (auto simp: less_Suc_eq_0_disj)
  have pre: "Suc i + length fs = length (broadcast_feeds ?p)" using Cons.prems by simp
  obtain ok f where IH: "dup_feeds dup (Suc i) fs ?p = (ok, ?p\<lparr>broadcast_feeds := f\<rparr>)" "length f = length (broadcast_feeds ?p)"
    "ok \<longleftrightarrow> (\<forall>j<length fs. dup (Suc i + j))" "ok \<longrightarrow> f = take (Suc i) (broadcast_feeds ?p) @ map (Some \<circ> strdup) fs"
    using Cons.IH [OF pre] by blast
  have tk: "take (Suc i) (broadcast_feeds ?p) = take i (broadcast_feeds pool) @ [Some (strdup s)]"
    using Cons.prems by (simp add: take_Suc_conv_app_nth)
  show ?case
  proof (cases "dup i")
    case True
    have "dup_feeds dup i (s # fs) pool = (ok, pool\<lparr>broadcast_feeds := f\<rparr>)" using True IH(1) by simp
    moreover have "length f = length (broadcast_feeds pool)" using IH(2) by simp
    moreover have "ok \<longleftrightarrow> (\<forall>j<length (s # fs). dup (i + j))" using all IH(3) True by blast
    moreover have "ok \<longrightarrow> f = take i (broadcast_feeds pool) @ map (Some \<circ> strdup) (s # fs)" using IH(4) tk by simp
    ultimately show ?thesis by blast
  next
    case False
    then have "dup_feeds dup i (s # fs) pool = (False, pool\<lparr>broadcast_feeds := broadcast_feeds pool\<rparr>)" by simp
    then show ?thesis using all False by blast
  qed
qed

definition feed_copies :: "awp_config \<Rightarrow> cstr option list" where
  "feed_copies c = (case cfg_broadcast_feeds c of None \<Rightarrow> [] | Some fs \<Rightarrow> map (Some \<circ> strdup) fs)"

definition few_feeds :: "awp_config \<Rightarrow> bool" where
  "few_feeds c \<longleftrightarrow> (case cfg_broadcast_feeds c of None \<Rightarrow> True | Some fs \<Rightarrow> length fs < 2 ^ 32)"

lemma copy_feeds_cases:
  assumes "few_feeds c" and "broadcast_feeds pool = []" and "n_broadcast_feeds pool = 0"
  shows "\<exists>rc freed f n. copy_broadcast_feeds (ce_feeds A) (ce_strdup A) pool c
      = (rc, freed, pool\<lparr>broadcast_feeds := f, n_broadcast_feeds := n\<rparr>)
    \<and> (rc = 0 \<longleftrightarrow> feeds_ok A c) \<and> freed = []
    \<and> (if rc = 0 then f = feed_copies c \<and> unat n = length f else f = [] \<and> n = 0)"
proof (cases "cfg_broadcast_feeds c")
  case None
  then have "copy_broadcast_feeds (ce_feeds A) (ce_strdup A) pool c
      = (0, [], pool\<lparr>broadcast_feeds := [], n_broadcast_feeds := 0\<rparr>)"
    using assms(2,3) by (simp add: copy_broadcast_feeds_def)
  note e = this
  show ?thesis
  proof (intro exI conjI)
    show "copy_broadcast_feeds (ce_feeds A) (ce_strdup A) pool c
      = (0, [], pool\<lparr>broadcast_feeds := [], n_broadcast_feeds := 0\<rparr>)" by (rule e)
  qed (use None in \<open>simp_all add: feeds_ok_def feed_copies_def\<close>)
next
  case (Some fs)
  have n: "unat (of_nat (length fs) :: u32) = length fs"
    using assms(1) Some by (simp add: few_feeds_def unat_of_nat)
  have z: "(of_nat (length fs) :: u32) = 0 \<longleftrightarrow> fs = []" using n by (metis unat_0 unat_eq_zero length_0_conv)
  show ?thesis
  proof (cases "fs = []")
    case True
    then have "copy_broadcast_feeds (ce_feeds A) (ce_strdup A) pool c
        = (0, [], pool\<lparr>broadcast_feeds := [], n_broadcast_feeds := 0\<rparr>)"
      using assms(2,3) Some by (simp add: copy_broadcast_feeds_def)
    note e = this
    show ?thesis
    proof (intro exI conjI)
      show "copy_broadcast_feeds (ce_feeds A) (ce_strdup A) pool c
        = (0, [], pool\<lparr>broadcast_feeds := [], n_broadcast_feeds := 0\<rparr>)" by (rule e)
    qed (use True Some in \<open>simp_all add: feeds_ok_def feed_copies_def\<close>)
  next
    case ne: False
    let ?p = "pool\<lparr>broadcast_feeds := replicate (length fs) None\<rparr>"
    obtain ok f where d: "dup_feeds (ce_strdup A) 0 fs ?p = (ok, ?p\<lparr>broadcast_feeds := f\<rparr>)" "length f = length fs"
      "ok \<longleftrightarrow> (\<forall>j<length fs. ce_strdup A j)" "ok \<longrightarrow> f = map (Some \<circ> strdup) fs"
    proof -
      have pre: "0 + length fs = length (broadcast_feeds ?p)" by simp
      obtain ok f where D: "dup_feeds (ce_strdup A) 0 fs ?p = (ok, ?p\<lparr>broadcast_feeds := f\<rparr>)"
        "length f = length (broadcast_feeds ?p)" "ok \<longleftrightarrow> (\<forall>j<length fs. ce_strdup A (0 + j))"
        "ok \<longrightarrow> f = take 0 (broadcast_feeds ?p) @ map (Some \<circ> strdup) fs"
        using dup_feeds_cases [OF pre, of "ce_strdup A"] by blast
      show thesis by (rule that [OF D(1)]) (use D(2-4) in simp_all)
    qed
    have "f \<noteq> []" using d(2) ne by auto
    then have e: "copy_broadcast_feeds (ce_feeds A) (ce_strdup A) pool c =
        (if \<not> ce_feeds A then (- ENOMEM, [], pool)
         else if ok then (0, [], pool\<lparr>broadcast_feeds := f, n_broadcast_feeds := of_nat (length fs)\<rparr>)
         else (- ENOMEM, [], pool\<lparr>broadcast_feeds := [], n_broadcast_feeds := 0\<rparr>))"
      using d(1) ne z n Some assms(3) by (simp add: copy_broadcast_feeds_def Let_def free_broadcast_feeds_def)
    have p: "pool\<lparr>broadcast_feeds := [], n_broadcast_feeds := 0\<rparr> = pool" using assms(2,3) by simp
    have iff: "feeds_ok A c \<longleftrightarrow> ce_feeds A \<and> ok" using Some ne d(3) by (simp add: feeds_ok_def)
    have fc: "feed_copies c = map (Some \<circ> strdup) fs" using Some by (simp add: feed_copies_def)
    show ?thesis
    proof (cases "ce_feeds A \<and> ok")
      case True
      show ?thesis
      proof (intro exI conjI)
        show "copy_broadcast_feeds (ce_feeds A) (ce_strdup A) pool c
          = (0, [], pool\<lparr>broadcast_feeds := f, n_broadcast_feeds := of_nat (length fs)\<rparr>)" using e True by simp
      qed (use True iff fc d(2,4) n in simp_all)
    next
      case False
      then have "copy_broadcast_feeds (ce_feeds A) (ce_strdup A) pool c
          = (- ENOMEM, [], pool\<lparr>broadcast_feeds := [], n_broadcast_feeds := 0\<rparr>)"
        unfolding e p by auto
      note e' = this
      show ?thesis
      proof (intro exI conjI)
        show "copy_broadcast_feeds (ce_feeds A) (ce_strdup A) pool c
          = (- ENOMEM, [], pool\<lparr>broadcast_feeds := [], n_broadcast_feeds := 0\<rparr>)" by (rule e')
      qed (use iff False in \<open>simp_all add: errno_defs\<close>)
    qed
  qed
qed

section \<open>The stages of creation\<close>

text \<open>Everything but the threads.\<close>

definition memory_ok :: "create_env \<Rightarrow> awp_config \<Rightarrow> bool" where
  "memory_ok A c \<longleftrightarrow>
     ce_pool A \<and> ce_life_mu A \<and> ce_life_cv A \<and> ce_metrics_mu A \<and> feeds_ok A c
     \<and> b_slab (ce_frames A) \<and> b_next (ce_frames A) \<and> b_mutex (ce_frames A) \<and> b_cond (ce_frames A)
     \<and> ce_workers A \<and> ce_metrics A \<and> (\<forall>i<unat (n_workers c). ring_env_ok (ce_ring A i))"

definition clean :: "create_env \<Rightarrow> created \<Rightarrow> bool" where
  "clean A res \<longleftrightarrow>
     (case res of
        Refused \<Rightarrow> True
      | Rolled_back ws p \<Rightarrow>
          (\<forall>w \<in> set ws. no_storage (w_queue w)) \<and> p_slab (frames p) = [] \<and> p_next (frames p) = []
          \<and> broadcast_feeds p = [] \<and> (workers p \<noteq> [] \<longrightarrow> ce_workers A \<and> \<not> ce_metrics A)
      | Leaked p \<Rightarrow> \<exists>i. ce_join A i \<noteq> 0
      | Created p \<Rightarrow> False)"

lemma fail_feeds_clean:
  assumes "\<forall>w \<in> set ws. no_storage (w_queue w)" and "p_slab (frames p) = []" and "p_next (frames p) = []"
    and "workers p \<noteq> [] \<longrightarrow> ce_workers A \<and> \<not> ce_metrics A"
  shows "fst (fail_feeds rc ws p) = rc \<and> clean A (snd (fail_feeds rc ws p))"
  using assms by (auto simp: fail_feeds_def fail_mu_def clean_def free_broadcast_feeds_def)

lemma fail_frames_clean:
  assumes "\<forall>w \<in> set ws. no_storage (w_queue w)" and "workers p \<noteq> [] \<longrightarrow> ce_workers A \<and> \<not> ce_metrics A"
  shows "fst (fail_frames rc ws p) = rc \<and> clean A (snd (fail_frames rc ws p))"
  using fail_feeds_clean [of ws "destroy_frames p" A rc] assms
  by (simp add: fail_frames_def destroy_frames_def awp_frame_pool_destroy_def zero_pool_def)

text \<open>The loop over the rings reaches exactly the joined workers below its bound.\<close>

lemma destroy_rings_spec:
  assumes "n \<le> length (workers p)"
  shows "length (workers (destroy_rings n p)) = length (workers p)
    \<and> (\<forall>j. worker (destroy_rings n p) j =
          (if j < n \<and> w_joined (worker p j) then (worker p j)\<lparr>w_queue := awp_ring_destroy (queue p j)\<rparr> else worker p j))"
  using assms
proof (induction n)
  case 0
  then show ?case by (simp add: destroy_rings_def)
next
  case (Suc n)
  let ?q = "destroy_rings n p"
  have q: "length (workers ?q) = length (workers p)"
    "\<And>j. worker ?q j = (if j < n \<and> w_joined (worker p j) then (worker p j)\<lparr>w_queue := awp_ring_destroy (queue p j)\<rparr> else worker p j)"
    using Suc by auto
  have s: "destroy_rings (Suc n) p = (if w_joined (worker ?q n) then upd_queue n awp_ring_destroy ?q else ?q)"
    by (simp add: destroy_rings_def)
  show ?case
  proof (cases "w_joined (worker p n)")
    case True
    then have "destroy_rings (Suc n) p = upd_queue n awp_ring_destroy ?q" using s q(2) [of n] by simp
    then show ?thesis using q Suc.prems True by (auto simp: upd_queue_def worker_upd less_Suc_eq)
  next
    case False
    then have "destroy_rings (Suc n) p = ?q" using s q(2) [of n] by simp
    then show ?thesis using q False by (auto simp: less_Suc_eq)
  qed
qed

lemma fail_workers_clean:
  assumes "k \<le> length (workers p)" and "\<forall>j<k. w_joined (worker p j)"
    and "\<forall>j. k \<le> j \<and> j < length (workers p) \<longrightarrow> no_storage (queue p j)"
  shows "fst (fail_workers rc k p) = rc \<and> clean A (snd (fail_workers rc k p))"
proof -
  let ?q = "destroy_rings k p"
  have "no_storage (w_queue w)" if w: "w \<in> set (workers ?q)" for w
  proof -
    obtain j where j: "j < length (workers ?q)" "w = worker ?q j" using w by (auto simp: in_set_conv_nth worker_def)
    then show ?thesis
      using destroy_rings_spec [OF assms(1)] assms(2,3)
      by (cases "j < k") (auto simp: no_storage_def awp_ring_destroy_def not_less)
  qed
  then show ?thesis
    using fail_frames_clean [of "workers ?q" "?q\<lparr>workers := [], metrics_buf := []\<rparr>" A rc] by (simp add: fail_workers_def Let_def)
qed


text \<open>The pool when the first thread is about to start.\<close>

definition ready_pool :: "awp_config \<Rightarrow> awp_pool \<Rightarrow> bool" where
  "ready_pool c p \<longleftrightarrow>
     cfg p = c \<and> shard_base p = n_broadcast_workers c \<and> n_shard_workers p = n_workers c - n_broadcast_workers c
     \<and> broadcast_feeds p = feed_copies c \<and> unat (n_broadcast_feeds p) = length (feed_copies c)
     \<and> length (workers p) = unat (n_workers c) \<and> (\<forall>j<unat (n_workers c). idle_worker c j (worker p j))
     \<and> lifecycle p = AWP_LIFE_RUNNING \<and> \<not> quarantined p \<and> \<not> destroy_started p
     \<and> api_refs p = 0 \<and> active_submits p = 0 \<and> shutdown_waiters p = 0 \<and> shutdown_aborts p = 0
     \<and> \<not> supervisor_started p \<and> supervisor_joined p \<and> \<not> supervisor_stop p
     \<and> pool_ok (frames p) \<and> \<not> p_closed (frames p) \<and> free_list (frames p) = [0..<unat (frame_pool_size c)]"

lemma ready_pool_wf: "valid_config c \<Longrightarrow> ready_pool c p \<Longrightarrow> pool_wf p"
  by (auto simp: ready_pool_def pool_wf_def wf_shard_map_def valid_config_def idle_worker_def fresh_queue_def not_le)

text \<open>Creation up to the start of the threads.\<close>

lemma create_stages:
  assumes v: "valid_config c" and f: "few_feeds c"
  shows "memory_ok A c \<Longrightarrow> \<exists>p0. ready_pool c p0 \<and> awp_pool_create A W t (Some c) True =
      (case start_workers A W [0..<unat (n_workers c)] (t + unat (n_workers c)) p0 of (rc, t, pool) \<Rightarrow>
         if rc \<noteq> 0 then fail_running A W rc (unat (n_workers c)) t pool
         else start_supervisor A W c (unat (n_workers c)) t pool)"
    and "\<not> memory_ok A c \<Longrightarrow> fst (awp_pool_create A W t (Some c) True) \<noteq> 0
      \<and> clean A (snd (awp_pool_create A W t (Some c) True))"
proof -
  let ?N = "unat (n_workers c)" and ?p = "new_pool c"
  let ?C = "awp_pool_create A W t (Some c) True"
  obtain rc1 fd bf nb where cp: "copy_broadcast_feeds (ce_feeds A) (ce_strdup A) ?p c
      = (rc1, fd, ?p\<lparr>broadcast_feeds := bf, n_broadcast_feeds := nb\<rparr>)" "rc1 = 0 \<longleftrightarrow> feeds_ok A c"
    "if rc1 = 0 then bf = feed_copies c \<and> unat nb = length bf else bf = [] \<and> nb = 0"
    using copy_feeds_cases [OF f, of ?p A] by (auto simp: new_pool_def)
  let ?p1 = "?p\<lparr>broadcast_feeds := bf, n_broadcast_feeds := nb\<rparr>"
  obtain rc2 fp where fi: "awp_frame_pool_init (ce_frames A) (Some (frames ?p1)) (frame_pool_size c) = (rc2, Some fp)"
  proof -
    have "\<exists>rc fp. awp_frame_pool_init (ce_frames A) (Some (frames ?p1)) (frame_pool_size c) = (rc, Some fp)"
      using v by (simp add: awp_frame_pool_init_def valid_config_def Let_def)
    then show thesis using that by blast
  qed
  have fi0: "rc2 = 0 \<longleftrightarrow> b_slab (ce_frames A) \<and> b_next (ce_frames A) \<and> b_mutex (ce_frames A) \<and> b_cond (ce_frames A)"
    "rc2 \<noteq> 0 \<Longrightarrow> p_slab fp = [] \<and> p_next fp = []"
    using fi v by (auto simp: awp_frame_pool_init_def valid_config_def Let_def errno_defs zero_pool_def split: if_splits)
  let ?p2 = "?p1\<lparr>frames := fp\<rparr>"
  let ?p3 = "?p2\<lparr>workers := (if ce_workers A then replicate ?N zero_worker else []),
       metrics_buf := (if ce_metrics A then replicate ?N zero_metrics else [])\<rparr>"
  have C: "?C = (if \<not> ce_pool A then (- ENOMEM, Refused)
      else if \<not> ce_life_mu A \<or> \<not> ce_life_cv A \<or> \<not> ce_metrics_mu A then (- ENOMEM, Rolled_back [] ?p)
      else if rc1 \<noteq> 0 then fail_mu rc1 [] ?p1
      else if rc2 \<noteq> 0 then fail_feeds rc2 [] ?p2
      else if \<not> ce_workers A \<or> \<not> ce_metrics A then fail_frames (- ENOMEM) [] ?p3
      else case init_workers A W c [0..<?N] 0 t ?p3 of (rc, rings_ok, pool) \<Rightarrow>
        if rc \<noteq> 0 then fail_workers rc rings_ok pool
        else case start_workers A W [0..<?N] (t + ?N) (set_life AWP_LIFE_RUNNING pool) of (rc, t, pool) \<Rightarrow>
          if rc \<noteq> 0 then fail_running A W rc rings_ok t pool
          else start_supervisor A W c rings_ok t pool)"
    using v cp(1) fi by (simp add: awp_pool_create_def Let_def)
  have init: "\<exists>rc k ws. init_workers A W c [0..<?N] 0 t ?p3 = (rc, k, ?p3\<lparr>workers := ws\<rparr>) \<and> length ws = ?N \<and> k \<le> ?N
    \<and> (rc = 0 \<longleftrightarrow> (\<forall>j. 0 \<le> j \<and> j < ?N \<longrightarrow> ring_env_ok (ce_ring A j)))
    \<and> (rc = 0 \<longrightarrow> k = ?N) \<and> (\<forall>j<k. idle_worker c j (ws ! j))
    \<and> (\<forall>j. k \<le> j \<and> j < ?N \<longrightarrow> no_storage (w_queue (ws ! j)))" if "ce_workers A"
    by (rule init_workers_cases [OF v])
      (use that in \<open>simp_all add: worker_def zero_worker_def zero_ring_def no_storage_def\<close>)
  show "\<exists>p0. ready_pool c p0 \<and> ?C =
      (case start_workers A W [0..<?N] (t + ?N) p0 of (rc, t, pool) \<Rightarrow>
         if rc \<noteq> 0 then fail_running A W rc ?N t pool else start_supervisor A W c ?N t pool)" if M: "memory_ok A c"
  proof -
    obtain ws where i: "init_workers A W c [0..<?N] 0 t ?p3 = (0, ?N, ?p3\<lparr>workers := ws\<rparr>)" "length ws = ?N"
      "\<forall>j<?N. idle_worker c j (ws ! j)"
      using init M by (auto simp: memory_ok_def)
    have z: "rc1 = 0" "rc2 = 0" using cp(2) fi0(1) M by (auto simp: memory_ok_def)
    let ?p0 = "set_life AWP_LIFE_RUNNING (?p3\<lparr>workers := ws\<rparr>)"
    have fp: "pool_ok fp" "\<not> p_closed fp" "free_list fp = [0..<unat (frame_pool_size c)]"
      using init_pool_ok fi z by auto
    have "ready_pool c ?p0"
      using i(2,3) cp(3) z fp by (simp add: ready_pool_def set_life_def new_pool_def worker_def)
    moreover have "?C = (case start_workers A W [0..<?N] (t + ?N) ?p0 of (rc, t, pool) \<Rightarrow>
         if rc \<noteq> 0 then fail_running A W rc ?N t pool else start_supervisor A W c ?N t pool)"
      using C i(1) z M by (simp add: memory_ok_def)
    ultimately show ?thesis by blast
  qed
  show "fst ?C \<noteq> 0 \<and> clean A (snd ?C)" if M: "\<not> memory_ok A c"
  proof -
    consider "\<not> ce_pool A" | "ce_pool A" "\<not> ce_life_mu A \<or> \<not> ce_life_cv A \<or> \<not> ce_metrics_mu A"
      | "ce_pool A" "ce_life_mu A \<and> ce_life_cv A \<and> ce_metrics_mu A" "rc1 \<noteq> 0"
      | "ce_pool A" "ce_life_mu A \<and> ce_life_cv A \<and> ce_metrics_mu A" "rc1 = 0" "rc2 \<noteq> 0"
      | "ce_pool A" "ce_life_mu A \<and> ce_life_cv A \<and> ce_metrics_mu A" "rc1 = 0" "rc2 = 0" "\<not> ce_workers A \<or> \<not> ce_metrics A"
      | "ce_pool A" "ce_life_mu A \<and> ce_life_cv A \<and> ce_metrics_mu A" "rc1 = 0" "rc2 = 0" "ce_workers A" "ce_metrics A"
      by blast
    then show ?thesis
    proof cases
      case 1
      then show ?thesis by (simp add: C clean_def errno_defs)
    next
      case 2
      then show ?thesis by (auto simp: C clean_def errno_defs new_pool_def zero_pool_def)
    next
      case 3
      then show ?thesis using cp(3) by (simp add: C clean_def fail_mu_def new_pool_def zero_pool_def)
    next
      case 4
      then show ?thesis using fail_feeds_clean [of "[]" ?p2 A rc2] fi0(2) by (simp add: C new_pool_def)
    next
      case 5
      then show ?thesis using fail_frames_clean [of "[]" ?p3 A "- ENOMEM"] by (auto simp: C errno_defs)
    next
      case 6
      then obtain rc k ws where i: "init_workers A W c [0..<?N] 0 t ?p3 = (rc, k, ?p3\<lparr>workers := ws\<rparr>)" "length ws = ?N" "k \<le> ?N"
        "rc = 0 \<longleftrightarrow> (\<forall>j<?N. ring_env_ok (ce_ring A j))" "\<forall>j<k. idle_worker c j (ws ! j)"
        "\<forall>j. k \<le> j \<and> j < ?N \<longrightarrow> no_storage (w_queue (ws ! j))" using init by auto
      have "rc \<noteq> 0" using M 6 cp(2) fi0(1) i(4) by (auto simp: memory_ok_def)
      then have "?C = fail_workers rc k (?p3\<lparr>workers := ws\<rparr>)" using C 6 i(1) by simp
      moreover have "fst (fail_workers rc k (?p3\<lparr>workers := ws\<rparr>)) = rc \<and> clean A (snd (fail_workers rc k (?p3\<lparr>workers := ws\<rparr>)))"
        by (rule fail_workers_clean) (use i(2,3,5,6) in \<open>auto simp: worker_def idle_worker_def\<close>)
      ultimately show ?thesis using \<open>rc \<noteq> 0\<close> by simp
    qed
  qed
qed

section \<open>Rollback\<close>

definition keeps_joined :: "world \<Rightarrow> bool" where
  "keeps_joined W \<longleftrightarrow> (\<forall>t p i. w_joined (worker p i) \<longrightarrow> w_joined (worker (v_act W t p) i))"

lemma rollback_cases:
  assumes W: "fair_world W" "keeps_joined W" and "good R p" and "\<forall>i \<in> set is. i < unat (n_workers (fst R))"
  shows "\<exists>ok p'. rollback A W is t p = (ok, p') \<and> good R p'
    \<and> (if ok then \<forall>i. i \<in> set is \<or> w_joined (worker p i) \<longrightarrow> w_joined (worker p' i) else \<exists>i. ce_join A i \<noteq> 0)"
  using assms(3,4)
proof (induction "is" arbitrary: t p)
  case (Cons i "is")
  have i: "i < unat (n_workers (fst R))" and rest: "\<forall>i \<in> set is. i < unat (n_workers (fst R))" using Cons.prems(2) by auto
  let ?a = "v_act W t p"
  let ?q = "upd_worker i (\<lambda>w. w\<lparr>w_stop := True, w_queue := awp_ring_close (w_queue w)\<rparr>) ?a"
  have ga: "good R ?a" by (rule good_act [OF W(1) Cons.prems(1)])
  have gq: "good R ?q" by (rule good_upd_worker [OF ga i]) (use good_queue [OF ga i] in simp)
  let ?q' = "upd_worker i (\<lambda>w. w\<lparr>w_joined := True, w_live := False\<rparr>) ?q"
  have gq': "good R ?q'" by (rule good_keep [OF gq i]) simp
  have l: "i < length (workers ?a)" "i < length (workers ?q)" using good_index [OF ga i] by simp_all
  have jq: "w_joined (worker ?q j) = w_joined (worker ?a j)" for j using l by (simp add: worker_upd)
  have jq': "w_joined (worker ?q' j) = (j = i \<or> w_joined (worker ?a j))" for j using l by (simp add: worker_upd)
  have ja: "w_joined (worker p j) \<longrightarrow> w_joined (worker ?a j)" for j using W(2) by (simp add: keeps_joined_def)
  have step: ?case if e: "rollback A W (i # is) t p = rollback A W is (Suc t) x" and x: "good R x"
    and j: "\<And>j. j = i \<or> w_joined (worker p j) \<Longrightarrow> w_joined (worker x j)" for x
  proof -
    obtain ok p' where "rollback A W is (Suc t) x = (ok, p')" "good R p'"
      "if ok then \<forall>i. i \<in> set is \<or> w_joined (worker x i) \<longrightarrow> w_joined (worker p' i) else \<exists>i. ce_join A i \<noteq> 0"
      using Cons.IH [OF x rest, of "Suc t"] by blast
    then show ?thesis using e j by (cases ok) auto
  qed
  consider "w_joined (worker ?q i)" | "\<not> w_joined (worker ?q i)" "ce_join A i = 0" | "\<not> w_joined (worker ?q i)" "ce_join A i \<noteq> 0"
    by blast
  then show ?case
  proof cases
    case 1
    then have e: "rollback A W (i # is) t p = rollback A W is (Suc t) ?q" by simp
    show ?thesis by (rule step [OF e gq]) (use 1 jq ja in blast)
  next
    case 2
    then have e: "rollback A W (i # is) t p = rollback A W is (Suc t) ?q'" by simp
    show ?thesis by (rule step [OF e gq']) (use jq' ja in blast)
  next
    case 3
    then show ?thesis using gq by auto
  qed
qed auto

lemma fail_running_clean:
  assumes W: "fair_world W" "keeps_joined W" and g: "good R p" and rc: "rc \<noteq> 0"
  shows "fst (fail_running A W rc (unat (n_workers (fst R))) t p) = rc
    \<and> clean A (snd (fail_running A W rc (unat (n_workers (fst R))) t p))"
proof -
  let ?N = "unat (n_workers (fst R))" and ?q = "set_life AWP_LIFE_DRAINING (p\<lparr>supervisor_stop := True\<rparr>)"
  have n: "n_wk p = ?N" using g by (auto simp: good_def routing_def)
  have "good R ?q" using g by (auto simp: good_def pool_wf_def wf_shard_map_def routing_def worker_def set_life_def)
  then obtain ok p' where r: "rollback A W [0..<?N] t ?q = (ok, p')" "good R p'"
    "if ok then \<forall>i. i \<in> set [0..<?N] \<or> w_joined (worker ?q i) \<longrightarrow> w_joined (worker p' i) else \<exists>i. ce_join A i \<noteq> 0"
    using rollback_cases [OF W, of R ?q "[0..<?N]" A t] by auto
  have len: "length (workers p') = ?N" using r(2) by (auto simp: good_def pool_wf_def routing_def)
  show ?thesis
  proof (cases ok)
    case True
    then have "fst (fail_workers rc ?N p') = rc \<and> clean A (snd (fail_workers rc ?N p'))"
      by (intro fail_workers_clean) (use r(3) len in auto)
    then show ?thesis using r(1) True n by (simp add: fail_running_def)
  next
    case False
    then show ?thesis using r(1,3) n by (simp add: fail_running_def clean_def)
  qed
qed


section \<open>Properties of creation\<close>

lemma create_env_memory: "create_env_ok A c \<longleftrightarrow>
    memory_ok A c \<and> (\<forall>i<unat (n_workers c). ce_thread A i = 0) \<and> (enable_supervisor c \<longrightarrow> ce_supervisor A = 0)"
  by (auto simp: create_env_ok_def memory_ok_def)

lemma good_supervisor [simp]:
  "good R (p\<lparr>supervisor_joined := b, supervisor_phase := n\<rparr>) = good R p"
  "good R (p\<lparr>supervisor_phase := n, supervisor_joined := b\<rparr>) = good R p"
  "good R (p\<lparr>supervisor_started := b\<rparr>) = good R p"
  by (simp_all add: good_def pool_wf_def wf_shard_map_def routing_def worker_def)

lemma fail_running_rc: "fst (fail_running A W rc k t p) = rc" "\<forall>q. snd (fail_running A W rc k t p) \<noteq> Created q"
  by (auto simp: fail_running_def fail_workers_def fail_frames_def fail_feeds_def fail_mu_def Let_def split: prod.split bool.split)

lemma start_supervisor_cases:
  assumes W: "fair_world W" and g: "good R p"
  shows "fst (start_supervisor A W c k t p) = 0 \<longleftrightarrow> (enable_supervisor c \<longrightarrow> ce_supervisor A = 0)"
    and "\<exists>q. snd (start_supervisor A W c k t p) = Created q \<Longrightarrow> fst (start_supervisor A W c k t p) = 0"
    and "fst (start_supervisor A W c k t p) = 0 \<Longrightarrow> \<exists>q. snd (start_supervisor A W c k t p) = Created q \<and> good R q"
proof -
  have "good R ((v_act W t (p\<lparr>supervisor_joined := False, supervisor_phase := 1\<rparr>))\<lparr>supervisor_started := True\<rparr>)"
    using good_act [OF W] g by simp
  then show "fst (start_supervisor A W c k t p) = 0 \<longleftrightarrow> (enable_supervisor c \<longrightarrow> ce_supervisor A = 0)"
    "\<exists>q. snd (start_supervisor A W c k t p) = Created q \<Longrightarrow> fst (start_supervisor A W c k t p) = 0"
    "fst (start_supervisor A W c k t p) = 0 \<Longrightarrow> \<exists>q. snd (start_supervisor A W c k t p) = Created q \<and> good R q"
    using g by (auto simp: start_supervisor_def Let_def fail_running_rc split: if_splits)
qed

text \<open>C35. Creation: \<open>awp_pool_create\<close> succeeds exactly when the configuration is valid and every
  allocation, initialiser and thread start succeeds, and only then hands out a pool; whatever the
  threads it started do meanwhile, that pool is well formed, has the given configuration and its
  own copies of the broadcast feeds.\<close>

theorem awp_pool_create_spec:
  assumes "fair_world W" and "few_feeds c"
  shows "\<exists>rc res. awp_pool_create A W t (Some c) True = (rc, res)
    \<and> (rc = 0 \<longleftrightarrow> valid_config c \<and> create_env_ok A c)
    \<and> (if rc = 0 then \<exists>p. res = Created p \<and> pool_wf p \<and> cfg p = c \<and> broadcast_feeds p = feed_copies c
       else \<forall>p. res \<noteq> Created p)"
proof -
  let ?C = "awp_pool_create A W t (Some c) True" and ?N = "unat (n_workers c)"
  have "(fst ?C = 0 \<longleftrightarrow> valid_config c \<and> create_env_ok A c)
    \<and> (if fst ?C = 0 then \<exists>p. snd ?C = Created p \<and> pool_wf p \<and> cfg p = c \<and> broadcast_feeds p = feed_copies c
       else \<forall>p. snd ?C \<noteq> Created p)"
  proof (cases "valid_config c \<and> memory_ok A c")
    case True
    obtain p0 where p0: "ready_pool c p0" and C: "?C = (case start_workers A W [0..<?N] (t + ?N) p0 of (rc, t, pool) \<Rightarrow>
         if rc \<noteq> 0 then fail_running A W rc ?N t pool else start_supervisor A W c ?N t pool)"
      using create_stages(1) [OF _ assms(2)] True by blast
    have g: "good (routing p0) p0" using ready_pool_wf [OF _ p0] True by (simp add: good_def)
    have R: "fst (routing p0) = c" "fst (snd (routing p0)) = feed_copies c"
      using p0 by (simp_all add: routing_def ready_pool_def)
    obtain rc t1 p1 where s: "start_workers A W [0..<?N] (t + ?N) p0 = (rc, t1, p1)" "good (routing p0) p1"
      "rc = 0 \<longleftrightarrow> (\<forall>i \<in> set [0..<?N]. ce_thread A i = 0)"
      using start_workers_cases [OF assms(1) g, of "[0..<?N]" A "t + ?N"] R by auto
    have fin: "pool_wf q \<and> cfg q = c \<and> broadcast_feeds q = feed_copies c" if "good (routing p0) q" for q
      using that R by (auto simp: good_def routing_def)
    note S = start_supervisor_cases [OF assms(1) s(2), of A c ?N t1]
    show ?thesis
    proof (cases "rc = 0")
      case rc: True
      then have C': "?C = start_supervisor A W c ?N t1 p1" using C s(1) by simp
      have "(\<forall>i<?N. ce_thread A i = 0)" using rc s(3) by simp
      then show ?thesis unfolding C' using S fin True by (auto simp: create_env_memory)
    next
      case False
      then have C': "?C = fail_running A W rc ?N t1 p1" using C s(1) by simp
      show ?thesis unfolding C' using False s(3) fail_running_rc by (auto simp: create_env_memory)
    qed
  next
    case False
    show ?thesis
    proof (cases "valid_config c")
      case True
      then have "\<not> memory_ok A c" using False by simp
      from create_stages(2) [OF True assms(2) this, of W t] \<open>\<not> memory_ok A c\<close> show ?thesis
        by (auto simp: create_env_memory clean_def)
    qed (simp add: awp_pool_create_def errno_defs)
  qed
  then show ?thesis by (metis prod.collapse)
qed

definition willing_create :: create_env where
  "willing_create = \<lparr>ce_pool = True, ce_life_mu = True, ce_life_cv = True, ce_metrics_mu = True, ce_feeds = True,
     ce_strdup = (\<lambda>_. True), ce_frames = demo_pool_alloc, ce_workers = True, ce_metrics = True,
     ce_ring = (\<lambda>_. demo_alloc), ce_thread = (\<lambda>_. 0), ce_supervisor = 0, ce_join = (\<lambda>_. 0)\<rparr>"

lemma round_up_pow2_small: "n \<noteq> 0 \<Longrightarrow> unat n \<le> 2 ^ 24 \<Longrightarrow> awp_round_up_pow2 n \<noteq> 0"
  using round_up_pow2_cases [of n] by auto

lemma demo_create: "valid_config demo_cfg" "few_feeds demo_cfg" "create_env_ok willing_create demo_cfg"
proof -
  have "awp_round_up_pow2 256 \<noteq> 0" by (rule round_up_pow2_small) simp_all
  then show "valid_config demo_cfg" by (simp add: valid_config_def demo_cfg_def)
  show "few_feeds demo_cfg" by (simp add: few_feeds_def demo_cfg_def)
  show "create_env_ok willing_create demo_cfg"
    by (simp add: create_env_ok_def willing_create_def feeds_ok_def demo_cfg_def ring_env_ok_def demo_pool_alloc_def demo_alloc_def)
qed

theorem awp_pool_create_spec_witness:
  "\<exists>p. awp_pool_create willing_create still 0 (Some demo_cfg) True = (0, Created p) \<and> pool_wf p
     \<and> cfg p = demo_cfg \<and> broadcast_feeds p = feed_copies demo_cfg"
  using awp_pool_create_spec [OF mini_pool_wf(2) demo_create(2), of willing_create 0] demo_create by auto

text \<open>Creation with nothing else running: every worker of the ready pool is started, and the
  supervisor if it is configured.\<close>

definition running_pool :: "awp_config \<Rightarrow> awp_worker list \<Rightarrow> awp_pool \<Rightarrow> awp_pool" where
  "running_pool c ws p =
     (if enable_supervisor c
      then p\<lparr>workers := ws, supervisor_joined := False, supervisor_phase := 1, supervisor_started := True\<rparr>
      else p\<lparr>workers := ws\<rparr>)"

lemma create_alone:
  assumes "valid_config c" and "create_env_ok A c" and "few_feeds c" and "\<forall>t p. v_act W t p = p"
  obtains p0 ws where "ready_pool c p0" "length ws = unat (n_workers c)"
    "\<forall>i<unat (n_workers c). ws ! i = started_worker (worker p0 i)"
    "awp_pool_create A W t (Some c) True = (0, Created (running_pool c ws p0))" "pool_wf (running_pool c ws p0)"
proof -
  let ?N = "unat (n_workers c)"
  have m: "memory_ok A c" "\<forall>i<?N. ce_thread A i = 0" "enable_supervisor c \<longrightarrow> ce_supervisor A = 0"
    using assms(2) by (auto simp: create_env_memory)
  obtain p0 where p0: "ready_pool c p0" and C: "awp_pool_create A W t (Some c) True =
      (case start_workers A W [0..<?N] (t + ?N) p0 of (rc, t, pool) \<Rightarrow>
         if rc \<noteq> 0 then fail_running A W rc ?N t pool else start_supervisor A W c ?N t pool)"
    using create_stages(1) [OF assms(1,3) m(1)] by blast
  have "\<forall>i \<in> set [0..<?N]. i < length (workers p0) \<and> ce_thread A i = 0" using p0 m(2) by (simp add: ready_pool_def)
  then obtain t1 ws where s: "start_workers A W [0..<?N] (t + ?N) p0 = (0, t1, p0\<lparr>workers := ws\<rparr>)"
    "length ws = length (workers p0)" "\<forall>j. ws ! j = (if j \<in> set [0..<?N] then started_worker (worker p0 j) else worker p0 j)"
    using start_workers_alone [OF assms(4)] by (metis distinct_upt)
  have l: "length ws = ?N" and w: "\<forall>i<?N. ws ! i = started_worker (worker p0 i)"
    using s(2,3) p0 by (simp_all add: ready_pool_def)
  have "\<forall>i<?N. queue_wf (w_queue (ws ! i))"
    using w p0 by (simp add: ready_pool_def started_worker_def idle_worker_def fresh_queue_def)
  then have "pool_wf (running_pool c ws p0)" using p0 l assms(1)
    by (auto simp: running_pool_def pool_wf_def wf_shard_map_def ready_pool_def valid_config_def not_le worker_def)
  moreover have "awp_pool_create A W t (Some c) True = (0, Created (running_pool c ws p0))"
    using C s(1) m(3) assms(4) by (simp add: start_supervisor_def Let_def running_pool_def)
  ultimately show thesis using that [OF p0 l w] by blast
qed





text \<open>The copies made before a failing \<open>strdup\<close> are lost: the count of feeds is still 0, so
  \<open>free_broadcast_feeds\<close> frees the array and none of the strings in it.\<close>

theorem copy_broadcast_feeds_leaks:
  assumes "cfg_broadcast_feeds c = Some fs" and "length fs < 2 ^ 32" and "k < length fs" and "\<not> dup k"
    and "n_broadcast_feeds pool = 0"
  shows "\<exists>p'. copy_broadcast_feeds True dup pool c = (- ENOMEM, [], p')"
proof -
  let ?p = "pool\<lparr>broadcast_feeds := replicate (length fs) None\<rparr>"
  have n: "unat (of_nat (length fs) :: u32) = length fs" using assms(2) by (simp add: unat_of_nat)
  then have nz: "(of_nat (length fs) :: u32) \<noteq> 0" using assms(3) by (metis unat_0 not_less_zero)
  have pre: "0 + length fs = length (broadcast_feeds ?p)" by simp
  obtain ok f where d: "dup_feeds dup 0 fs ?p = (ok, ?p\<lparr>broadcast_feeds := f\<rparr>)" "length f = length (broadcast_feeds ?p)"
    "ok \<longleftrightarrow> (\<forall>j<length fs. dup (0 + j))"
    using dup_feeds_cases [OF pre, of dup] by blast
  have "\<not> ok" using d(3) assms(3,4) by auto
  then have "dup_feeds dup 0 fs ?p = (False, ?p\<lparr>broadcast_feeds := f\<rparr>)" "f \<noteq> []" using d assms(3) by auto
  then show ?thesis using assms nz n by (simp add: copy_broadcast_feeds_def Let_def free_broadcast_feeds_def)
qed

end
