(* ===== verification/Metrics.thy ===== *)
theory Metrics
  imports Pool_Spec
begin

text \<open>
  What \<open>awp_pool_get_metrics\<close> reports while the pool is in use. The rows are read one after the other,
  so the snapshot is not one state of the pool; each row is one state of its worker.
\<close>

section \<open>Rows\<close>

lemma good_metrics_buf [simp]: "good R (p\<lparr>metrics_buf := b\<rparr>) = good R p"
  by (auto simp: good_def pool_wf_def wf_shard_map_def routing_def worker_def)

lemma metric_rows_spec:
  assumes W: "fair_world W" "\<forall>t p. metrics_buf (v_act W t p) = metrics_buf p"
    and "good R p" and "metric_rows W [k..<N] t p = (t', p')" and "k \<le> N" and "length (metrics_buf p) = N"
  shows "good R p' \<and> length (metrics_buf p') = N \<and> (\<forall>j<k. metrics_buf p' ! j = metrics_buf p ! j)
    \<and> (\<forall>j. k \<le> j \<and> j < N \<longrightarrow> (\<exists>q. good R q \<and> metrics_buf p' ! j = worker_metrics (worker q j)))"
  using assms(3-6)
proof (induction "N - k" arbitrary: k t p)
  case (Suc m)
  let ?q = "v_act W t p"
  let ?p1 = "?q\<lparr>metrics_buf := (metrics_buf ?q)[k := worker_metrics (worker ?q k)]\<rparr>"
  have k: "k < N" "[k..<N] = k # [Suc k..<N]" using Suc.hyps(2) by (simp_all add: upt_conv_Cons)
  have g: "good R ?q" by (rule good_act [OF W(1) Suc.prems(1)])
  have r: "metric_rows W [Suc k..<N] (Suc t) ?p1 = (t', p')" using Suc.prems(2) k(2) by (simp add: Let_def)
  have IH: "good R p' \<and> length (metrics_buf p') = N \<and> (\<forall>j<Suc k. metrics_buf p' ! j = metrics_buf ?p1 ! j)
      \<and> (\<forall>j. Suc k \<le> j \<and> j < N \<longrightarrow> (\<exists>q. good R q \<and> metrics_buf p' ! j = worker_metrics (worker q j)))"
    by (rule Suc.hyps(1) [OF _ _ r]) (use Suc.hyps(2) Suc.prems(4) g k(1) W(2) in auto)
  have "metrics_buf p' ! k = worker_metrics (worker ?q k)" using IH k(1) W(2) Suc.prems(4) by simp
  then have "\<exists>q. good R q \<and> metrics_buf p' ! j = worker_metrics (worker q j)" if "k \<le> j" "j < N" for j
    using IH g that by (cases "j = k") auto
  moreover have "metrics_buf p' ! j = metrics_buf p ! j" if "j < k" for j using IH W(2) that by simp
  ultimately show ?case using IH by blast
qed auto

section \<open>The snapshot\<close>



end
