(* ===== verification/Shutdown.thy ===== *)
theory Shutdown
  imports Pool_Spec
begin

text \<open>
  \<open>awp_pool_shutdown\<close> and \<open>awp_pool_destroy\<close> (\<open>src/pool.c\<close>), phase by phase. Waiting on \<open>life_cv\<close> is
  modelled as a poll: every change of the lifecycle is made and announced under \<open>life_mu\<close>, so a
  waiter cannot miss one. \<open>sh_sup\<close> and \<open>sh_wk i\<close> are the answers of the joins of the supervisor
  and of worker \<open>i\<close>.
\<close>

record shut_env =
  sh_sup :: join_env
  sh_wk :: "nat \<Rightarrow> join_env"

section \<open>Shutdown\<close>

text \<open>The result that every return path computes from the two sticky fields.\<close>

definition sampled_aborts :: "awp_pool \<Rightarrow> int" where
  "sampled_aborts pool =
     (let aborts = to_int (shutdown_aborts pool)
      in if aborts = 0 \<and> quarantined pool then 1 else aborts)"

partial_function (option) stopped_wait :: "world \<Rightarrow> nat \<Rightarrow> awp_pool \<Rightarrow> (nat \<times> awp_pool) option" where
  "stopped_wait W t pool0 =
     (let pool = v_act W t pool0
      in if lifecycle pool \<noteq> AWP_LIFE_STOPPED then stopped_wait W (Suc t) pool else Some (Suc t, pool))"

definition wait_until_stopped :: "world \<Rightarrow> nat \<Rightarrow> awp_pool \<Rightarrow> (int \<times> nat \<times> awp_pool) option" where
  "wait_until_stopped W t pool =
     do { (t, pool) \<leftarrow> stopped_wait W t (pool\<lparr>shutdown_waiters := shutdown_waiters pool + 1\<rparr>);
          Some (sampled_aborts pool, t, pool\<lparr>shutdown_waiters := shutdown_waiters pool - 1\<rparr>) }"

definition shutdown_deadline :: "world \<Rightarrow> nat \<Rightarrow> awp_pool \<Rightarrow> u64" where
  "shutdown_deadline W t pool =
     (let ms = shutdown_deadline_ms (cfg pool)
      in v_clk W t + ucast (if ms \<noteq> 0 then ms else 10000) * 1000000)"

partial_function (option) poll_submits :: "world \<Rightarrow> u64 \<Rightarrow> nat \<Rightarrow> awp_pool \<Rightarrow> (nat \<times> awp_pool) option" where
  "poll_submits W deadline t pool0 =
     (let pool = v_act W t pool0
      in if active_submits pool > 0 \<and> v_clk W t < deadline then poll_submits W deadline (Suc t) pool
         else Some (Suc t, pool))"

definition close_rings :: "awp_pool \<Rightarrow> awp_pool" where
  "close_rings pool = fold (\<lambda>i. upd_queue i awp_ring_close) [0..<n_wk pool] pool"

text \<open>A step of the shutdown that gives up on a clean stop.\<close>

definition give_up :: "int \<Rightarrow> awp_pool \<Rightarrow> int \<times> bool \<times> awp_pool" where
  "give_up aborts pool =
     (case note_abort (aborts, awp_pool_mark_quarantined pool) of (aborts, pool) \<Rightarrow> (aborts, False, pool))"

text \<open>Producers are given until the deadline to leave. Result: \<open>aborts\<close>, \<open>can_close\<close>, time, pool.\<close>

definition quiesce :: "world \<Rightarrow> u64 \<Rightarrow> nat \<Rightarrow> awp_pool \<Rightarrow> (int \<times> bool \<times> nat \<times> awp_pool) option" where
  "quiesce W deadline t pool =
     do { (t, pool) \<leftarrow> poll_submits W deadline t pool;
          let pool = v_act W t pool;
              (aborts, can_close, pool) =
                (if active_submits pool > 0
                 then (case give_up 0 pool of (a, c, p) \<Rightarrow> (a, c, close_rings p))
                 else (0, True, pool))
          in Some (aborts, can_close, Suc t, set_life AWP_LIFE_DRAINING (pool\<lparr>supervisor_stop := True\<rparr>)) }"

partial_function (option) poll_supervisor :: "world \<Rightarrow> u64 \<Rightarrow> nat \<Rightarrow> awp_pool \<Rightarrow> (nat \<times> awp_pool) option" where
  "poll_supervisor W deadline t pool0 =
     (let pool = v_act W t pool0
      in if v_clk W t < deadline
         then if supervisor_phase pool = 3 then Some (Suc t, pool)
              else if supervisor_phase pool = 0 \<and> \<not> supervisor_alive pool then Some (Suc t, pool)
              else poll_supervisor W deadline (Suc t) pool
         else Some (Suc t, pool))"

definition stop_supervisor ::
  "world \<Rightarrow> shut_env \<Rightarrow> u64 \<Rightarrow> int \<Rightarrow> bool \<Rightarrow> nat \<Rightarrow> awp_pool \<Rightarrow> (int \<times> bool \<times> nat \<times> awp_pool) option" where
  "stop_supervisor W E deadline aborts can_close t pool =
     (if enable_supervisor (cfg pool) \<and> supervisor_started pool \<and> \<not> supervisor_joined pool
      then do { (t, pool) \<leftarrow> poll_supervisor W deadline t pool;
                let pool = v_act W t pool; phase = supervisor_phase pool
                in if phase = 3 \<or> phase \<noteq> 1 \<and> phase \<noteq> 2 \<and> \<not> supervisor_alive pool
                   then do { (jrc, t, pool) \<leftarrow> awp_pthread_join_deadline W (sh_sup E) deadline (Suc t) pool;
                             if jrc = 0 then Some (aborts, can_close, t, pool\<lparr>supervisor_joined := True\<rparr>)
                             else (case give_up aborts pool of (a, c, p) \<Rightarrow> Some (a, c, t, p)) }
                   else (case give_up aborts pool of (a, c, p) \<Rightarrow> Some (a, c, Suc t, p)) }
      else Some (aborts, can_close, t, pool))"

text \<open>The residual drain of the queue of a worker that has stopped.\<close>

partial_function (option) drain :: "world \<Rightarrow> nat \<Rightarrow> nat \<Rightarrow> u64 \<Rightarrow> nat \<Rightarrow> awp_pool \<Rightarrow> (nat \<times> awp_pool) option" where
  "drain W me i deadline t pool0 =
     (let pool = v_act W t pool0
      in if v_clk W t < deadline
         then do { (rc, fo, t, pool) \<leftarrow> queue_pop W me i 0 (Suc t) pool;
                   case fo of
                     Some f \<Rightarrow>
                       if rc = 0
                       then do { (_, fp) \<leftarrow> awp_frame_pool_release (v_frames W) 0 (Some (frames pool)) (Some f);
                                 drain W me i deadline t
                                   (pool\<lparr>abandoned := abandoned pool + 1,
                                         frames := (case fp of Some p \<Rightarrow> p | None \<Rightarrow> frames pool)\<rparr>) }
                       else Some (t, pool)
                   | None \<Rightarrow> Some (t, pool) }
         else Some (Suc t, pool))"

definition count_join :: "int \<Rightarrow> bool \<Rightarrow> int \<times> awp_pool \<Rightarrow> int \<times> awp_pool" where
  "count_join rc aborted s =
     (let s = (if aborted \<or> rc > 0 then note_abort s else s)
      in if rc < 0 then note_abort s else s)"

fun join_workers ::
  "world \<Rightarrow> shut_env \<Rightarrow> nat \<Rightarrow> u64 \<Rightarrow> nat list \<Rightarrow> int \<Rightarrow> nat \<Rightarrow> awp_pool \<Rightarrow> (int \<times> nat \<times> awp_pool) option" where
  "join_workers W E me deadline [] aborts t pool = Some (aborts, t, pool)"
| "join_workers W E me deadline (i # is) aborts t pool =
     do { (rc, aborted, t, pool) \<leftarrow> awp_worker_join_deadline W (sh_wk E i) i deadline t pool;
          case count_join rc aborted (aborts, pool) of (aborts, pool) \<Rightarrow>
            do { (t, pool) \<leftarrow> (if w_state (worker pool i) \<noteq> AWP_W_QUARANTINED then drain W me i deadline t pool
                               else Some (t, pool));
                 join_workers W E me deadline is aborts t pool } }"

definition stop_workers ::
  "world \<Rightarrow> shut_env \<Rightarrow> nat \<Rightarrow> u64 \<Rightarrow> int \<Rightarrow> nat \<Rightarrow> awp_pool \<Rightarrow> (int \<times> nat \<times> awp_pool) option" where
  "stop_workers W E me deadline aborts t pool =
     (let pool = close_rings pool;
          pool = (case awp_frame_pool_close (Some (frames pool)) of Some fp \<Rightarrow> pool\<lparr>frames := fp\<rparr> | None \<Rightarrow> pool)
      in join_workers W E me deadline [0..<n_wk pool] aborts t pool)"

text \<open>The path taken when the workers cannot be joined safely.\<close>

definition abandon_worker :: "nat \<Rightarrow> awp_pool \<Rightarrow> awp_pool" where
  "abandon_worker i =
     upd_worker i (\<lambda>w. w\<lparr>w_queue := awp_ring_close (w_queue w),
                         w_state := (if busy (w_state w) then AWP_W_QUARANTINED else w_state w)\<rparr>)"

definition abandon_workers :: "awp_pool \<Rightarrow> awp_pool" where
  "abandon_workers pool = awp_pool_mark_quarantined (fold abandon_worker [0..<n_wk pool] pool)"

definition finish_shutdown :: "int \<Rightarrow> awp_pool \<Rightarrow> int \<times> awp_pool" where
  "finish_shutdown aborts pool =
     (let pool = (if any_worker_quarantined pool \<or> active_submits pool > 0
                  then awp_pool_mark_quarantined pool else pool);
          pool = set_life AWP_LIFE_STOPPED (persist_quarantine_abort pool);
          prior = to_int (shutdown_aborts pool);
          aborts = (if prior > aborts then prior else aborts)
      in (if aborts = 0 \<and> quarantined pool then 1 else aborts, pool))"

text \<open>The work of the one caller that moves the pool out of its running state.\<close>

definition run_shutdown ::
  "world \<Rightarrow> shut_env \<Rightarrow> nat \<Rightarrow> nat \<Rightarrow> awp_pool \<Rightarrow> (int \<times> nat \<times> awp_pool) option" where
  "run_shutdown W E me t pool =
     (let pool = pool\<lparr>lifecycle := AWP_LIFE_QUIESCING\<rparr>;
          deadline = shutdown_deadline W t pool
      in do { (aborts, can_close, t, pool) \<leftarrow> quiesce W deadline (Suc t) pool;
              (aborts, can_close, t, pool) \<leftarrow> stop_supervisor W E deadline aborts can_close t pool;
              (aborts, t, pool) \<leftarrow> (if can_close then stop_workers W E me deadline aborts t pool
                                    else Some (aborts, Suc t, abandon_workers (v_act W t pool)));
              let (rc, pool) = finish_shutdown aborts (v_act W t pool)
              in Some (rc, Suc t, pool) })"

partial_function (option) shutdown_loop ::
  "world \<Rightarrow> shut_env \<Rightarrow> nat \<Rightarrow> nat \<Rightarrow> awp_pool \<Rightarrow> (int \<times> nat \<times> awp_pool) option" where
  "shutdown_loop W E me t pool0 =
     (let pool = v_act W t pool0; life = lifecycle pool
      in if life = AWP_LIFE_STOPPED then Some (sampled_aborts pool, Suc t, pool)
         else if life = AWP_LIFE_QUIESCING \<or> life = AWP_LIFE_DRAINING then wait_until_stopped W (Suc t) pool
         else
           let pool = v_act W (Suc t) pool
           in if lifecycle pool \<noteq> life then shutdown_loop W E me (t + 2) pool
              else run_shutdown W E me (t + 2) pool)"

definition awp_pool_shutdown ::
  "world \<Rightarrow> shut_env \<Rightarrow> bool \<Rightarrow> nat \<Rightarrow> nat \<Rightarrow> awp_pool option \<Rightarrow> (int \<times> nat \<times> awp_pool option) option" where
  "awp_pool_shutdown W E in_cb me t po =
     (case po of
        None \<Rightarrow> Some (- EINVAL, t, None)
      | Some pool \<Rightarrow>
          if in_cb then Some (- EDEADLK, t, po)
          else map_option (\<lambda>(rc, t, pool). (rc, t, Some pool)) (shutdown_loop W E me t pool))"

section \<open>Destruction\<close>

text \<open>\<open>Kept\<close>: the pool is still allocated when the call returns. \<open>Gone ws pool\<close>: it was freed;
  \<open>ws\<close> is the worker array as it was when it was freed and \<open>pool\<close> the content at \<open>free(pool)\<close>.\<close>

datatype destroyed = Kept awp_pool | Gone "awp_worker list" awp_pool

partial_function (option) waiters_wait :: "world \<Rightarrow> nat \<Rightarrow> awp_pool \<Rightarrow> (nat \<times> awp_pool) option" where
  "waiters_wait W t pool0 =
     (let pool = v_act W t pool0
      in if shutdown_waiters pool > 0 then waiters_wait W (Suc t) pool else Some (Suc t, pool))"

text \<open>\<open>left\<close> is the number of further sleeps before the wait is given up.\<close>

fun refs_wait :: "nat \<Rightarrow> world \<Rightarrow> nat \<Rightarrow> awp_pool \<Rightarrow> nat \<times> awp_pool" where
  "refs_wait left W t pool0 =
     (let pool = v_act W t pool0
      in if api_refs pool > 0
         then (case left of
                 0 \<Rightarrow> (Suc t, awp_pool_mark_quarantined (v_act W (Suc t) pool))
               | Suc left \<Rightarrow> refs_wait left W (Suc t) pool)
         else (Suc t, pool))"

definition may_be_in_use :: "awp_pool \<Rightarrow> bool" where
  "may_be_in_use pool \<longleftrightarrow>
     quarantined pool \<or> any_worker_quarantined pool \<or> active_submits pool > 0 \<or> api_refs pool > 0
     \<or> supervisor_started pool \<and> \<not> supervisor_joined pool"

definition release_pool :: "awp_pool \<Rightarrow> destroyed" where
  "release_pool pool =
     (if may_be_in_use pool then Kept pool
      else if list_ex (\<lambda>i. \<not> w_joined (worker pool i) \<and> w_state (worker pool i) \<noteq> AWP_W_QUARANTINED) [0..<n_wk pool]
      then Kept (awp_pool_mark_quarantined pool)
      else
        let pool = destroy_rings (n_wk pool) pool; ws = workers pool;
            pool = destroy_frames (pool\<lparr>workers := [], metrics_buf := []\<rparr>)
        in Gone ws (snd (free_broadcast_feeds pool)))"

definition awp_pool_destroy ::
  "world \<Rightarrow> shut_env \<Rightarrow> bool \<Rightarrow> nat \<Rightarrow> nat \<Rightarrow> awp_pool option \<Rightarrow> destroyed option option" where
  "awp_pool_destroy W E in_cb me t po =
     (case po of
        None \<Rightarrow> Some None
      | Some pool \<Rightarrow>
          if in_cb then Some (Some (Kept (persist_quarantine_abort (awp_pool_mark_quarantined pool))))
          else if destroy_started pool then Some (Some (Kept pool))
          else
            let pool = v_act W t (pool\<lparr>destroy_started := True\<rparr>)
            in do { (t, pool) \<leftarrow>
                      (if lifecycle pool \<noteq> AWP_LIFE_STOPPED
                       then map_option (\<lambda>(_, t, pool). (t, pool)) (shutdown_loop W E me (Suc t) pool)
                       else Some (Suc t, pool));
                    (t, pool) \<leftarrow> waiters_wait W t pool;
                    let (t, pool) = refs_wait 5000 W t pool
                    in Some (Some (release_pool (v_act W t pool))) })"

end
