(* ===== verification/Shutdown_Spec.thy ===== *)
theory Shutdown_Spec
  imports Shutdown
begin

text \<open>
  What shutdown and destruction do, on top of theory \<open>Shutdown\<close>: both return, the result of a
  shutdown tells whether it was clean, and a pool is freed only when nothing can refer to it.
  \<open>orderly\<close> collects what the caller relies on the other threads for; \<open>draining\<close> is the invariant of
  the joins and of the residual drain.
\<close>


section \<open>The other threads during a shutdown\<close>

definition sup_gone :: "awp_pool \<Rightarrow> bool" where
  "sup_gone p \<longleftrightarrow> \<not> (enable_supervisor (cfg p) \<and> supervisor_started p \<and> \<not> supervisor_joined p)"

definition ended :: "nat \<Rightarrow> awp_pool \<Rightarrow> bool" where
  "ended i p \<longleftrightarrow> w_state (worker p i) = AWP_W_EXITED \<or> w_state (worker p i) = AWP_W_JOINED"

definition settled :: "awp_pool \<Rightarrow> bool" where
  "settled p \<longleftrightarrow> (\<forall>i<length (workers p). w_joined (worker p i) \<longrightarrow> at_rest i p)"

definition same_slots :: "awp_ring \<Rightarrow> awp_ring \<Rightarrow> bool" where
  "same_slots r r' \<longleftrightarrow> (\<exists>w c. r' = r\<lparr>r_waiters := w, r_cv := c\<rparr>)"

text \<open>
  What the caller of shutdown relies on. Only it changes the lifecycle; the quarantine is
  sticky; a joined worker is never starting or running. Once the pool is draining and the
  supervisor is gone, nobody unjoins a worker, reopens a queue or restarts a thread, and the
  closed queue of a worker whose thread has ended is left alone, but for threads that leave
  its wait list. Uncontended exchanges succeed.
\<close>

definition orderly :: "world \<Rightarrow> bool" where
  "orderly W \<longleftrightarrow>
     (\<forall>t p. let q = v_act W t p in
        lifecycle q = lifecycle p \<and> (quarantined p \<longrightarrow> quarantined q) \<and> (settled p \<longrightarrow> settled q)
        \<and> (lifecycle p = AWP_LIFE_DRAINING \<and> sup_gone p \<longrightarrow>
             sup_gone q
             \<and> (\<forall>i<length (workers p).
                  (w_joined (worker p i) \<longrightarrow> w_joined (worker q i))
                  \<and> (r_closed (queue p i) \<longrightarrow> r_closed (queue q i))
                  \<and> (at_rest i p \<longrightarrow> at_rest i q)
                  \<and> (ended i p \<and> r_closed (queue p i) \<longrightarrow> ended i q \<and> same_slots (queue p i) (queue q i)))))
     \<and> (\<forall>t. v_cas W t) \<and> (\<forall>t. q_cas (v_frames W) t)"

text \<open>Progress that is never undone.\<close>

definition later :: "nat \<Rightarrow> awp_pool \<Rightarrow> awp_pool \<Rightarrow> bool" where
  "later n p q \<longleftrightarrow> (quarantined p \<longrightarrow> quarantined q) \<and> (\<forall>i<n. w_joined (worker p i) \<longrightarrow> w_joined (worker q i))"

lemma later_refl [simp]: "later n p p"
  by (simp add: later_def)

lemma later_trans: "later n p q \<Longrightarrow> later n q r \<Longrightarrow> later n p r"
  by (simp add: later_def)

abbreviation size_of :: "awp_config \<times> 'a \<Rightarrow> nat" where
  "size_of R \<equiv> unat (n_workers (fst R))"

text \<open>The state while workers are joined and their queues drained, \<open>p0\<close> being an earlier one.\<close>

definition draining :: "awp_config \<times> cstr option list \<times> u32 \<times> u32 \<times> u32 \<Rightarrow> awp_pool \<Rightarrow> awp_pool \<Rightarrow> bool" where
  "draining R p0 p \<longleftrightarrow>
     good R p \<and> lifecycle p = AWP_LIFE_DRAINING \<and> sup_gone p \<and> settled p \<and> later (size_of R) p0 p
     \<and> (\<forall>i< size_of R. r_closed (queue p i))"

lemma draining_len: "draining R p0 p \<Longrightarrow> length (workers p) = size_of R"
  by (auto simp: draining_def good_def pool_wf_def routing_def)

lemma draining_self: "draining R p0 p \<Longrightarrow> draining R p p"
  by (simp add: draining_def)

lemma draining_trans: "draining R p q \<Longrightarrow> draining R p0 p \<Longrightarrow> draining R p0 q"
  by (auto simp: draining_def intro: later_trans)

lemma draining_act:
  assumes "fair_world W" and "orderly W" and "draining R p0 p"
  shows "draining R p0 (v_act W t p)"
    and "\<And>i. i < size_of R \<Longrightarrow> at_rest i p \<Longrightarrow> at_rest i (v_act W t p)"
    and "\<And>i. i < size_of R \<Longrightarrow> ended i p \<Longrightarrow> ended i (v_act W t p) \<and> same_slots (queue p i) (queue (v_act W t p) i)"
proof -
  let ?q = "v_act W t p"
  have len: "length (workers p) = size_of R" by (rule draining_len [OF assms(3)])
  have d: "lifecycle p = AWP_LIFE_DRAINING" "sup_gone p" "settled p" "good R p" "later (size_of R) p0 p"
    "\<forall>i< size_of R. r_closed (queue p i)" using assms(3) by (auto simp: draining_def)
  have o: "lifecycle ?q = lifecycle p" "quarantined p \<longrightarrow> quarantined ?q" "settled p \<longrightarrow> settled ?q" "sup_gone ?q"
    "\<forall>i<length (workers p). (w_joined (worker p i) \<longrightarrow> w_joined (worker ?q i))
        \<and> (r_closed (queue p i) \<longrightarrow> r_closed (queue ?q i)) \<and> (at_rest i p \<longrightarrow> at_rest i ?q)
        \<and> (ended i p \<and> r_closed (queue p i) \<longrightarrow> ended i ?q \<and> same_slots (queue p i) (queue ?q i))"
    using assms(2) d(1,2) unfolding orderly_def Let_def by auto
  show "draining R p0 ?q"
    using d o good_act [OF assms(1) d(4)] len by (auto simp: draining_def later_def)
  show "\<And>i. i < size_of R \<Longrightarrow> at_rest i p \<Longrightarrow> at_rest i ?q"
    "\<And>i. i < size_of R \<Longrightarrow> ended i p \<Longrightarrow> ended i ?q \<and> same_slots (queue p i) (queue ?q i)"
    using o(5) d(6) len by auto
qed

lemma draining_upd:
  assumes d: "draining R p0 p" and i: "i < size_of R" and "queue_wf (w_queue (f (worker p i)))"
    and "r_closed (w_queue (f (worker p i)))" and "w_joined (worker p i) \<longrightarrow> w_joined (f (worker p i))"
    and "w_joined (f (worker p i)) \<longrightarrow> \<not> busy (w_state (f (worker p i)))"
  shows "draining R p0 (upd_worker i f p)"
proof -
  have l: "i < length (workers p)" using draining_len [OF d] i by simp
  have "good R (upd_worker i f p)" using d by (intro good_upd_worker i assms(3)) (simp add: draining_def)
  then show ?thesis
    using d l assms(4-6) by (auto simp: draining_def sup_gone_def settled_def later_def at_rest_def worker_upd)
qed

lemma draining_fields [simp]:
  "draining R p0 (p\<lparr>shutdown_aborts := a\<rparr>) = draining R p0 p"
  "draining R p0 (p\<lparr>abandoned := b, frames := f\<rparr>) = draining R p0 p"
  "at_rest i (p\<lparr>shutdown_aborts := a\<rparr>) = at_rest i p"
  "ended i (p\<lparr>abandoned := b, frames := f\<rparr>) = ended i p"
  "ended i (p\<lparr>shutdown_aborts := a\<rparr>) = ended i p"
  "worker (p\<lparr>abandoned := b, frames := f\<rparr>) = worker p"
  by (simp_all add: draining_def good_def pool_wf_def wf_shard_map_def routing_def worker_def sup_gone_def settled_def
      later_def at_rest_def ended_def fun_eq_iff)

lemma keeps_draining: "fair_world W \<Longrightarrow> orderly W \<Longrightarrow> keeps W (draining R p0)"
  "fair_world W \<Longrightarrow> orderly W \<Longrightarrow> i < size_of R \<Longrightarrow> keeps W (\<lambda>p. draining R p0 p \<and> at_rest i p)"
  using draining_act(1) draining_act(2) unfolding keeps_def by blast+

lemma join_keeps_draining:
  assumes i: "i < size_of R"
  shows "join_keeps i (draining R p0)"
proof -
  have q: "queue_wf (queue p i)" "r_closed (queue p i)" "w_joined (worker p i) \<longrightarrow> \<not> busy (w_state (worker p i))"
    "i < length (workers p)" if "draining R p0 p" for p
    using that i good_queue [of R p i] draining_len [OF that] by (auto simp: draining_def settled_def at_rest_def)
  have m: "draining R p0 (awp_pool_mark_quarantined p)" if "draining R p0 p" for p
    using that by (simp add: draining_def good_mark sup_gone_def settled_def later_def at_rest_def)
  show ?thesis
    unfolding join_keeps_def using q m by (auto intro!: draining_upd [OF _ i] simp: busy_def)
qed

section \<open>The residual drain\<close>

lemma same_slots_facts:
  assumes "same_slots r r'"
  shows "queue_wf r' = queue_wf r" "ring_abs r' = ring_abs r" "ring_len r' = ring_len r" "r_dequeue_pos r' = r_dequeue_pos r"
    "ring_cell r' = ring_cell r" "r_closed r' = r_closed r"
  using assms unfolding same_slots_def
  by (auto simp: ring_len_def ring_cell_def ring_index_def fun_eq_iff)

lemma release_returns:
  assumes "q_cas Q t"
  shows "\<exists>y. awp_frame_pool_release Q t (Some p) (Some f) = Some y"
  using assms
  by (auto simp: awp_frame_pool_release_def release_loop.simps [of _ _ t] release_pass_def Let_def split: prod.splits if_splits)

lemma queue_pop_ended:
  assumes W: "fair_world W" "orderly W" and d: "draining R p0 p" and i: "i < size_of R" and e: "ended i p"
  shows "\<exists>rc fo t' p'. queue_pop W me i s t p = Some (rc, fo, t', p') \<and> draining R p0 p' \<and> ended i p'
    \<and> (fo \<noteq> None \<longrightarrow> Suc (ring_len (queue p' i)) = ring_len (queue p i))"
proof -
  let ?q = "v_act W t p"
  have q: "draining R p0 ?q" "ended i ?q" "same_slots (queue p i) (queue ?q i)" using draining_act [OF W d] i e by auto
  let ?r = "queue ?q i"
  have wf: "queue_wf ?r" "r_closed ?r" using q(1) i good_queue [of R ?q i] by (auto simp: draining_def)
  then have ok: "ring_ok ?r" by (simp add: queue_wf_def)
  have cas: "v_cas W t" using W(2) by (simp add: orderly_def)
  show ?thesis
  proof (cases "\<exists>x rest. ring_abs ?r = Some x # rest")
    case True
    then obtain x rest where x: "ring_abs ?r = Some x # rest" by blast
    let ?p' = "upd_queue i (\<lambda>_. popped ?r) ?q"
    have "pop_pass id (v_cas W t) ?r = (Return 0, Some x, popped ?r)"
      using pop_pass_spec [OF ok, of id "v_cas W t"] x cas by (simp add: pop_pass_def)
    then have "queue_pop W me i s t p = Some (0, Some x, t + 2, ?p')"
      by (subst queue_pop.simps) (simp add: Let_def)
    moreover have "draining R p0 ?p'"
      unfolding upd_queue_def
      using q(1) popped_wf [OF wf(1) x] wf(2) draining_len [OF q(1)] i
      by (intro draining_upd [OF q(1) i]) (auto simp: draining_def settled_def at_rest_def)
    moreover have "ended i ?p'" "Suc (ring_len (queue ?p' i)) = ring_len (queue p i)"
      using q(2) popped_wf [OF wf(1) x] draining_len [OF q(1)] i same_slots_facts(3) [OF q(3)]
      by (auto simp: ended_def upd_queue_def worker_upd)
    ultimately show ?thesis by blast
  next
    case False
    have nd: "seq_dif (c_sequence (ring_cell ?r (r_dequeue_pos ?r))) (r_dequeue_pos ?r + 1) < 0"
      using deq_cell [OF ok] False by (auto split: list.splits option.splits)
    have ns: "c_sequence (ring_cell ?r (r_dequeue_pos ?r)) \<noteq> r_dequeue_pos ?r + 1" using nd by (auto simp: seq_dif_def)
    have "pop_pass id (v_cas W t) ?r = (Return (- 1), None, ?r)"
      using pop_pass_spec [OF ok, of id "v_cas W t"] False wf(2) ns
      by (auto simp: pop_pass_def split: list.splits option.splits)
    moreover have q2: "draining R p0 (v_act W (Suc t) ?q)" "ended i (v_act W (Suc t) ?q)"
      "same_slots ?r (queue (v_act W (Suc t) ?q) i)" using draining_act [OF W q(1)] i q(2) by auto
    ultimately have "queue_pop W me i s t p = Some (- 1, None, t + 2, v_act W (Suc t) ?q)"
      using nd ns same_slots_facts [OF q2(3)] by (subst queue_pop.simps) (simp add: Let_def)
    then show ?thesis using q2 by blast
  qed
qed

lemma drain_returns:
  assumes W: "fair_world W" "orderly W" and "draining R p0 p" and i: "i < size_of R" and "ended i p"
  shows "\<exists>t' p'. drain W me i dl t p = Some (t', p') \<and> draining R p0 p'"
  using assms(3,5)
proof (induction "ring_len (queue p i)" arbitrary: t p rule: less_induct)
  case less
  let ?q = "v_act W t p"
  have q: "draining R p0 ?q" "ended i ?q" "same_slots (queue p i) (queue ?q i)" using draining_act [OF W less.prems(1)] i less.prems(2) by auto
  obtain rc fo t1 p1 where pop: "queue_pop W me i 0 (Suc t) ?q = Some (rc, fo, t1, p1)" "draining R p0 p1" "ended i p1"
    "fo \<noteq> None \<longrightarrow> Suc (ring_len (queue p1 i)) = ring_len (queue ?q i)"
    using queue_pop_ended [OF W q(1) i q(2)] by blast
  consider "\<not> v_clk W t < dl" | "v_clk W t < dl" "fo = None \<or> rc \<noteq> 0" | f where "v_clk W t < dl" "fo = Some f" "rc = 0" by (cases fo) blast+
  then show ?case
  proof cases
    case 1
    then show ?thesis using q by (subst drain.simps) (simp add: Let_def)
  next
    case 2
    then show ?thesis using pop by (subst drain.simps) (auto simp: Let_def split: option.split)
  next
    case (3 f)
    obtain u fp where rel: "awp_frame_pool_release (v_frames W) 0 (Some (frames p1)) (Some f) = Some (u, fp)"
      using release_returns [of "v_frames W" 0] W(2) by (fastforce simp: orderly_def)
    let ?p2 = "p1\<lparr>abandoned := abandoned p1 + 1, frames := (case fp of Some p \<Rightarrow> p | None \<Rightarrow> frames p1)\<rparr>"
    have "ring_len (queue ?p2 i) < ring_len (queue p i)" using pop(4) 3 same_slots_facts(3) [OF q(3)] by simp
    then obtain t' p' where "drain W me i dl t1 ?p2 = Some (t', p')" "draining R p0 p'"
      using less.hyps [of ?p2 t1] pop(2,3) by auto
    then show ?thesis using 3 pop(1) rel by (subst drain.simps) (simp add: Let_def)
  qed
qed


section \<open>Joining the workers\<close>

lemma note_abort_eq: "note_abort (a, p) = (a + 1, p\<lparr>shutdown_aborts := shutdown_aborts p + 1\<rparr>)"
  by (simp add: note_abort_def)

lemma join_workers_returns:
  assumes W: "fair_world W" "orderly W" and dl: "passes W dl" and "draining R p0 p" and "\<forall>i \<in> set is. i < size_of R"
  shows "\<exists>a' t' p'. join_workers W E me dl is a t p = Some (a', t', p') \<and> draining R p0 p' \<and> a \<le> a'
    \<and> (a' = a \<longrightarrow> (\<forall>i \<in> set is. w_joined (worker p' i)))"
  using assms(4,5)
proof (induction "is" arbitrary: a t p p0)
  case (Cons i "is")
  have i: "i < size_of R" and rest: "\<forall>i \<in> set is. i < size_of R" using Cons.prems(2) by auto
  have j0: "w_joined (worker p i) \<longrightarrow> at_rest i p"
    using Cons.prems(1) draining_len [OF Cons.prems(1)] i by (simp add: draining_def settled_def)
  obtain rc ab t1 p1 where j: "awp_worker_join_deadline W (sh_wk E i) i dl t p = Some (rc, ab, t1, p1)" "draining R p0 p1"
    "rc = 0 \<and> \<not> ab \<and> w_joined (worker p1 i) \<or> rc = 1 \<and> ab \<and> (quarantined p1 \<or> w_joined (worker p1 i))" "at_rest i p1"
    using worker_join_returns [OF dl keeps_draining(1) [OF W] join_keeps_draining [OF i] Cons.prems(1)] keeps_draining(2) [OF W i] j0
    by blast
  let ?p2 = "if ab then p1\<lparr>shutdown_aborts := shutdown_aborts p1 + 1\<rparr> else p1" and ?a2 = "if ab then a + 1 else a"
  have c: "count_join rc ab (a, p1) = (?a2, ?p2)" using j(3) by (auto simp: count_join_def Let_def note_abort_eq)
  have d2: "draining R p0 ?p2" "at_rest i ?p2" "w_joined (worker ?p2 i) = w_joined (worker p1 i)" using j(2,4) by auto
  obtain t3 p3 where dr: "(if w_state (worker ?p2 i) \<noteq> AWP_W_QUARANTINED then drain W me i dl t1 ?p2 else Some (t1, ?p2)) = Some (t3, p3)"
    "draining R ?p2 p3"
  proof (cases "w_state (worker ?p2 i) = AWP_W_QUARANTINED")
    case True
    then show thesis using that draining_self [OF d2(1)] by simp
  next
    case False
    then have "ended i ?p2" using d2(2) by (cases "w_state (worker ?p2 i)") (auto simp: ended_def at_rest_def busy_def)
    then show thesis using drain_returns [OF W draining_self [OF d2(1)] i, of me dl t1] that False by auto
  qed
  have d3: "draining R p0 p3" by (rule draining_trans [OF dr(2) d2(1)])
  obtain a' t' p' where r: "join_workers W E me dl is ?a2 t3 p3 = Some (a', t', p')" "draining R p3 p'" "?a2 \<le> a'"
    "a' = ?a2 \<longrightarrow> (\<forall>i \<in> set is. w_joined (worker p' i))"
    using Cons.IH [OF draining_self [OF d3] rest] by blast
  have "join_workers W E me dl (i # is) a t p = Some (a', t', p')" using j(1) c dr(1) r(1) by simp
  moreover have "draining R p0 p'" by (rule draining_trans [OF r(2) d3])
  moreover have "w_joined (worker p' i)" if "a' = a"
  proof -
    have "w_joined (worker ?p2 i)" using that r(3) j(3) d2(3) by (auto split: if_splits)
    then show ?thesis using dr(2) r(2) i by (auto simp: draining_def later_def)
  qed
  ultimately show ?case using r(3,4) by (auto split: if_splits)
qed simp

section \<open>Sweeps over the workers\<close>

lemma fold_upd_worker:
  assumes "distinct is" and "\<forall>i \<in> set is. i < length (workers p)"
  shows "\<exists>ws. fold (\<lambda>i. upd_worker i (f i)) is p = p\<lparr>workers := ws\<rparr> \<and> length ws = length (workers p)
    \<and> (\<forall>j. ws ! j = (if j \<in> set is then f j (worker p j) else worker p j))"
  using assms
proof (induction "is" arbitrary: p)
  case Nil
  show ?case by (rule exI [of _ "workers p"]) (simp add: worker_def)
next
  case (Cons i "is")
  let ?p = "upd_worker i (f i) p"
  obtain ws where IH: "fold (\<lambda>i. upd_worker i (f i)) is ?p = ?p\<lparr>workers := ws\<rparr>" "length ws = length (workers ?p)"
    "\<forall>j. ws ! j = (if j \<in> set is then f j (worker ?p j) else worker ?p j)"
    using Cons.IH [of ?p] Cons.prems by auto
  have "?p\<lparr>workers := ws\<rparr> = p\<lparr>workers := ws\<rparr>" by (simp add: upd_worker_def)
  moreover have "worker ?p j = (if j = i then f i (worker p i) else worker p j)" for j
    using Cons.prems(2) by (simp add: worker_upd)
  ultimately show ?case using IH Cons.prems(1) by (intro exI [of _ ws]) auto
qed

text \<open>Workers replaced by ones with a well-formed queue.\<close>

lemma sweep_good:
  assumes "good R p" and "length ws = length (workers p)" and "\<And>j. j < size_of R \<Longrightarrow> queue_wf (w_queue (ws ! j))"
  shows "good R (p\<lparr>workers := ws\<rparr>)"
  using assms by (auto simp: good_def pool_wf_def wf_shard_map_def routing_def worker_def)

lemma sweep_workers:
  assumes g: "good R p" and wf: "\<And>i w. queue_wf (w_queue w) \<Longrightarrow> queue_wf (w_queue (f i w))"
  shows "\<exists>ws. fold (\<lambda>i. upd_worker i (f i)) [0..<n_wk p] p = p\<lparr>workers := ws\<rparr> \<and> length ws = size_of R
    \<and> (\<forall>j< size_of R. ws ! j = f j (worker p j)) \<and> good R (p\<lparr>workers := ws\<rparr>)"
proof -
  have n: "n_wk p = size_of R" "length (workers p) = size_of R" using g by (auto simp: good_def routing_def pool_wf_def)
  obtain ws where ws: "fold (\<lambda>i. upd_worker i (f i)) [0..<n_wk p] p = p\<lparr>workers := ws\<rparr>" "length ws = length (workers p)"
    "\<forall>j. ws ! j = (if j \<in> set [0..<n_wk p] then f j (worker p j) else worker p j)"
    using fold_upd_worker [of "[0..<n_wk p]" p f] n by auto
  have "queue_wf (w_queue (ws ! j))" if "j < size_of R" for j
    using that ws(3) n wf good_queue [OF g that] by auto
  then show ?thesis using ws n sweep_good [OF g ws(2)] by auto
qed

lemma close_rings_spec:
  assumes "good R p"
  shows "\<exists>ws. close_rings p = p\<lparr>workers := ws\<rparr> \<and> length ws = size_of R \<and> good R (p\<lparr>workers := ws\<rparr>)
    \<and> (\<forall>j< size_of R. ws ! j = (worker p j)\<lparr>w_queue := awp_ring_close (queue p j)\<rparr>)"
proof -
  have "(\<lambda>i. upd_queue i awp_ring_close) = (\<lambda>i. upd_worker i (\<lambda>w. w\<lparr>w_queue := awp_ring_close (w_queue w)\<rparr>))"
    by (simp add: upd_queue_def)
  then show ?thesis
    using sweep_workers [OF assms, of "\<lambda>_ w. w\<lparr>w_queue := awp_ring_close (w_queue w)\<rparr>"] by (auto simp: close_rings_def)
qed

lemma abandon_workers_spec:
  assumes "good R p"
  shows "\<exists>ws. abandon_workers p = awp_pool_mark_quarantined (p\<lparr>workers := ws\<rparr>) \<and> length ws = size_of R
    \<and> good R (p\<lparr>workers := ws\<rparr>) \<and> (\<forall>j< size_of R. r_closed (w_queue (ws ! j)) \<and> \<not> busy (w_state (ws ! j)))"
proof -
  let ?f = "\<lambda>w. w\<lparr>w_queue := awp_ring_close (w_queue w), w_state := (if busy (w_state w) then AWP_W_QUARANTINED else w_state w)\<rparr>"
  have "abandon_worker = (\<lambda>i. upd_worker i ?f)" by (simp add: abandon_worker_def fun_eq_iff)
  then obtain ws where ws: "fold abandon_worker [0..<n_wk p] p = p\<lparr>workers := ws\<rparr>" "length ws = size_of R"
    "\<forall>j < size_of R. ws ! j = ?f (worker p j)" "good R (p\<lparr>workers := ws\<rparr>)"
    using sweep_workers [OF assms, of "\<lambda>_. ?f"] by auto
  then show ?thesis by (intro exI [of _ ws]) (auto simp: abandon_workers_def busy_def)
qed


section \<open>The phases before the joins\<close>

definition quiet_in :: "awp_lifecycle \<Rightarrow> awp_config \<times> cstr option list \<times> u32 \<times> u32 \<times> u32 \<Rightarrow> awp_pool \<Rightarrow> bool" where
  "quiet_in l R p \<longleftrightarrow> good R p \<and> settled p \<and> lifecycle p = l"

lemma keeps_quiet: "fair_world W \<Longrightarrow> orderly W \<Longrightarrow> keeps W (quiet_in l R)"
  by (auto simp: keeps_def quiet_in_def orderly_def Let_def intro: good_act)

lemma quiet_sweep:
  assumes "quiet_in l R p" and "good R (p\<lparr>workers := ws\<rparr>)" and "length ws = size_of R"
    and "\<And>j. j < size_of R \<Longrightarrow> w_joined (ws ! j) = w_joined (worker p j)"
    and "\<And>j. j < size_of R \<Longrightarrow> \<not> busy (w_state (worker p j)) \<Longrightarrow> \<not> busy (w_state (ws ! j))"
  shows "quiet_in l R (p\<lparr>workers := ws\<rparr>)"
proof -
  have "length (workers p) = size_of R" using assms(1) by (auto simp: quiet_in_def good_def pool_wf_def routing_def)
  then show ?thesis using assms by (auto simp: quiet_in_def settled_def at_rest_def worker_def)
qed

lemma quiet_fields [simp]:
  "quiet_in l R (awp_pool_mark_quarantined p) = quiet_in l R p"
  "quiet_in l R (p\<lparr>shutdown_aborts := a\<rparr>) = quiet_in l R p"
  "quiet_in l R (p\<lparr>supervisor_joined := b\<rparr>) = quiet_in l R p"
  by (simp_all add: quiet_in_def good_mark settled_def at_rest_def)
    (auto simp: good_def pool_wf_def wf_shard_map_def routing_def worker_def)

lemma quiet_life: "quiet_in l R p \<Longrightarrow> quiet_in l' R (p\<lparr>lifecycle := l'\<rparr>)"
  "quiet_in l R p \<Longrightarrow> quiet_in l' R (set_life l' (p\<lparr>supervisor_stop := b\<rparr>))"
  by (auto simp: quiet_in_def set_life_def settled_def at_rest_def good_def pool_wf_def wf_shard_map_def routing_def worker_def)

interpretation ps: poll_loop W "poll_submits W d"
  "\<lambda>t p. if active_submits p > 0 \<and> v_clk W t < d then None else Some (Suc t, p)" for W d
  by unfold_locales (subst poll_submits.simps, simp add: Let_def)

interpretation pv: poll_loop W "poll_supervisor W d"
  "\<lambda>t p. if v_clk W t < d \<and> supervisor_phase p \<noteq> 3 \<and> \<not> (supervisor_phase p = 0 \<and> \<not> supervisor_alive p)
         then None else Some (Suc t, p)" for W d
  by unfold_locales (subst poll_supervisor.simps, auto simp: Let_def)

interpretation wt: poll_loop W "waiters_wait W"
  "\<lambda>t p. if shutdown_waiters p > 0 then None else Some (Suc t, p)" for W
  by unfold_locales (subst waiters_wait.simps, simp add: Let_def)

lemma poll_submits_returns:
  assumes "passes W d" and "keeps W I" and "I pool"
  shows "\<exists>t' p'. poll_submits W d t pool = Some (t', p') \<and> I p'"
proof -
  obtain n where n: "\<forall>t\<ge>n. d \<le> v_clk W t" using assms(1) by (auto simp: passes_def)
  show ?thesis
    using ps.returns [OF assms(2) _ assms(3), where n = n and d = d and t = t] n by (fastforce simp: not_less split: if_splits)
qed

lemma poll_supervisor_returns:
  assumes "passes W d" and "keeps W I" and "I pool"
  shows "\<exists>t' p'. poll_supervisor W d t pool = Some (t', p') \<and> I p'"
proof -
  obtain n where n: "\<forall>t\<ge>n. d \<le> v_clk W t" using assms(1) by (auto simp: passes_def)
  show ?thesis
    using pv.returns [OF assms(2) _ assms(3), where n = n and d = d and t = t] n by (fastforce simp: not_less split: if_splits)
qed

lemma give_up_eq: "give_up a p = (a + 1, False, (awp_pool_mark_quarantined p)\<lparr>shutdown_aborts := shutdown_aborts p + 1\<rparr>)"
  by (simp add: give_up_def note_abort_eq)

text \<open>The local counter and the flag that decides between joining and abandoning.\<close>

definition verdict :: "int \<Rightarrow> bool \<Rightarrow> bool" where
  "verdict aborts can_close \<longleftrightarrow> (if can_close then aborts = 0 else aborts > 0)"

lemma quiesce_returns:
  assumes W: "fair_world W" "orderly W" and d: "passes W d" and "quiet_in AWP_LIFE_QUIESCING R pool"
  shows "\<exists>a c t' p'. quiesce W d t pool = Some (a, c, t', p') \<and> quiet_in AWP_LIFE_DRAINING R p' \<and> verdict a c"
proof -
  obtain t1 p1 where s: "poll_submits W d t pool = Some (t1, p1)" "quiet_in AWP_LIFE_QUIESCING R p1"
    using poll_submits_returns [OF d keeps_quiet [OF W] assms(4)] by blast
  let ?q = "v_act W t1 p1"
  have q: "quiet_in AWP_LIFE_QUIESCING R ?q" by (rule keepsD [OF keeps_quiet [OF W] s(2)])
  let ?g = "(awp_pool_mark_quarantined ?q)\<lparr>shutdown_aborts := shutdown_aborts ?q + 1\<rparr>"
  have qg: "quiet_in AWP_LIFE_QUIESCING R ?g" using q by simp
  then obtain ws where ws: "close_rings ?g = ?g\<lparr>workers := ws\<rparr>" "length ws = size_of R" "good R (?g\<lparr>workers := ws\<rparr>)"
    "\<forall>j < size_of R. ws ! j = (worker ?g j)\<lparr>w_queue := awp_ring_close (queue ?g j)\<rparr>"
    using close_rings_spec [of R ?g] unfolding quiet_in_def by blast
  have "quiet_in AWP_LIFE_QUIESCING R (?g\<lparr>workers := ws\<rparr>)"
    by (rule quiet_sweep [OF qg ws(3,2)]) (use ws(4) in auto)
  from quiet_life(2) [OF this, of AWP_LIFE_DRAINING True] quiet_life(2) [OF q, of AWP_LIFE_DRAINING True]
  show ?thesis
    using s(1) ws(1) by (auto simp: quiesce_def Let_def give_up_eq verdict_def)
qed

lemma stop_supervisor_returns:
  assumes W: "fair_world W" "orderly W" and d: "passes W d" and "quiet_in AWP_LIFE_DRAINING R p" and v: "verdict a c"
  shows "\<exists>a' c' t' p'. stop_supervisor W E d a c t p = Some (a', c', t', p') \<and> quiet_in AWP_LIFE_DRAINING R p'
    \<and> verdict a' c' \<and> (c' \<longrightarrow> sup_gone p')"
proof (cases "sup_gone p")
  case True
  then show ?thesis using assms(4,5) by (auto simp: stop_supervisor_def sup_gone_def)
next
  case False
  have v': "verdict (a + 1) False" using v by (auto simp: verdict_def split: if_splits)
  obtain t1 p1 where s: "poll_supervisor W d t p = Some (t1, p1)" "quiet_in AWP_LIFE_DRAINING R p1"
    using poll_supervisor_returns [OF d keeps_quiet [OF W] assms(4)] by blast
  let ?q = "v_act W t1 p1"
  have q: "quiet_in AWP_LIFE_DRAINING R ?q" by (rule keepsD [OF keeps_quiet [OF W] s(2)])
  obtain rc t2 p2 where j: "awp_pthread_join_deadline W (sh_sup E) d (Suc t1) ?q = Some (rc, t2, p2)" "quiet_in AWP_LIFE_DRAINING R p2"
    using pthread_join_returns [OF d keeps_quiet [OF W] q] by blast
  have e: "stop_supervisor W E d a c t p =
      (if supervisor_phase ?q = 3 \<or> supervisor_phase ?q \<noteq> 1 \<and> supervisor_phase ?q \<noteq> 2 \<and> \<not> supervisor_alive ?q
       then if rc = 0 then Some (a, c, t2, p2\<lparr>supervisor_joined := True\<rparr>)
            else Some (a + 1, False, t2, (awp_pool_mark_quarantined p2)\<lparr>shutdown_aborts := shutdown_aborts p2 + 1\<rparr>)
       else Some (a + 1, False, Suc t1, (awp_pool_mark_quarantined ?q)\<lparr>shutdown_aborts := shutdown_aborts ?q + 1\<rparr>))"
    using False s(1) j(1) by (simp add: stop_supervisor_def sup_gone_def Let_def give_up_eq)
  have "sup_gone (p2\<lparr>supervisor_joined := True\<rparr>)" by (simp add: sup_gone_def)
  then show ?thesis unfolding e using v v' q j(2) by auto
qed

section \<open>The joins and the end\<close>

lemma stop_workers_returns:
  assumes W: "fair_world W" "orderly W" and d: "passes W d" and q: "quiet_in AWP_LIFE_DRAINING R p" and s: "sup_gone p"
  shows "\<exists>a' t' p'. stop_workers W E me d 0 t p = Some (a', t', p') \<and> draining R p' p' \<and> 0 \<le> a'
    \<and> (a' = 0 \<longrightarrow> (\<forall>i < size_of R. w_joined (worker p' i)))"
proof -
  have g: "good R p" using q by (simp add: quiet_in_def)
  obtain ws where ws: "close_rings p = p\<lparr>workers := ws\<rparr>" "length ws = size_of R" "good R (p\<lparr>workers := ws\<rparr>)"
    "\<forall>j < size_of R. ws ! j = (worker p j)\<lparr>w_queue := awp_ring_close (queue p j)\<rparr>"
    using close_rings_spec [OF g] by blast
  let ?p = "p\<lparr>workers := ws, frames := (frames p)\<lparr>p_closed := True, p_cv := []\<rparr>\<rparr>"
  have "quiet_in AWP_LIFE_DRAINING R (p\<lparr>workers := ws\<rparr>)" by (rule quiet_sweep [OF q ws(3,2)]) (use ws(4) in auto)
  then have "draining R ?p ?p"
    using s ws(2,4)
    by (auto simp: draining_def quiet_in_def settled_def at_rest_def good_def pool_wf_def wf_shard_map_def routing_def
        worker_def sup_gone_def)
  moreover have n: "n_wk ?p = size_of R" using g by (auto simp: good_def routing_def)
  ultimately obtain a' t' p' where "join_workers W E me d [0..<n_wk ?p] 0 t ?p = Some (a', t', p')" "draining R ?p p'" "0 \<le> a'"
    "a' = 0 \<longrightarrow> (\<forall>i \<in> set [0..<n_wk ?p]. w_joined (worker p' i))"
    using join_workers_returns [OF W d, of R ?p ?p "[0..<n_wk ?p]" E me 0 t] by auto
  then show ?thesis
    using ws(1) n draining_self by (auto simp: stop_workers_def Let_def awp_frame_pool_close_def)
qed

lemma finish_shutdown_spec:
  assumes "good R p" and "0 \<le> a"
  shows "\<exists>rc p'. finish_shutdown a p = (rc, p') \<and> good R p' \<and> lifecycle p' = AWP_LIFE_STOPPED \<and> worker p' = worker p
    \<and> 0 \<le> rc \<and> (quarantined p' \<longrightarrow> rc > 0) \<and> (quarantined p \<longrightarrow> quarantined p')
    \<and> (rc = 0 \<longrightarrow> a = 0 \<and> active_submits p' \<le> 0 \<and> \<not> any_worker_quarantined p') \<and> sup_gone p' = sup_gone p"
proof -
  define q where "q = (if any_worker_quarantined p \<or> active_submits p > 0 then awp_pool_mark_quarantined p else p)"
  define s where "s = set_life AWP_LIFE_STOPPED (persist_quarantine_abort q)"
  define b where "b = (if to_int (shutdown_aborts s) > a then to_int (shutdown_aborts s) else a)"
  have e: "finish_shutdown a p = (if b = 0 \<and> quarantined s then 1 else b, s)"
    by (simp add: finish_shutdown_def Let_def q_def s_def b_def)
  have g: "good R q" and f: "cfg q = cfg p" "worker q = worker p" "active_submits q = active_submits p"
    "supervisor_started q = supervisor_started p" "supervisor_joined q = supervisor_joined p" "quarantined p \<longrightarrow> quarantined q"
    using assms(1) by (simp_all add: good_mark q_def)
  have s: "cfg s = cfg q" "worker s = worker q" "active_submits s = active_submits q" "quarantined s = quarantined q"
    "lifecycle s = AWP_LIFE_STOPPED" "supervisor_started s = supervisor_started q" "supervisor_joined s = supervisor_joined q"
    by (simp_all add: s_def set_life_def persist_quarantine_abort_def worker_def fun_eq_iff)
  have gs: "good R s"
    using g by (auto simp: s_def set_life_def persist_quarantine_abort_def good_def pool_wf_def wf_shard_map_def routing_def worker_def)
  have u: "sup_gone s = sup_gone p" "any_worker_quarantined s = any_worker_quarantined p"
    using f s by (simp_all add: sup_gone_def any_worker_quarantined_def)
  have z: "\<not> any_worker_quarantined p \<and> active_submits p \<le> 0" if "\<not> quarantined s"
    using that s(4) by (auto simp: q_def split: if_splits)
  have "b = 0 \<longrightarrow> a = 0" "0 \<le> b" using assms(2) by (auto simp: b_def)
  then show ?thesis unfolding e using gs s f u z by auto
qed


lemma run_shutdown_returns:
  assumes W: "fair_world W" "orderly W" and d: "passes W (shutdown_deadline W t p)" and q: "quiet_in l R p"
  shows "\<exists>rc t' p'. run_shutdown W E me t p = Some (rc, t', p') \<and> good R p' \<and> lifecycle p' = AWP_LIFE_STOPPED
    \<and> 0 \<le> rc \<and> (quarantined p' \<longrightarrow> rc > 0)
    \<and> (rc = 0 \<longrightarrow> active_submits p' \<le> 0 \<and> sup_gone p' \<and> (\<forall>i < size_of R. w_joined (worker p' i) \<and> r_closed (queue p' i)))"
proof -
  let ?p0 = "p\<lparr>lifecycle := AWP_LIFE_QUIESCING\<rparr>" and ?d = "shutdown_deadline W t p"
  have dl: "shutdown_deadline W t ?p0 = ?d" by (simp add: shutdown_deadline_def)
  obtain a1 c1 t1 p1 where s1: "quiesce W ?d (Suc t) ?p0 = Some (a1, c1, t1, p1)" "quiet_in AWP_LIFE_DRAINING R p1" "verdict a1 c1"
    using quiesce_returns [OF W d quiet_life(1) [OF q]] by blast
  obtain a2 c2 t2 p2 where s2: "stop_supervisor W E ?d a1 c1 t1 p1 = Some (a2, c2, t2, p2)" "quiet_in AWP_LIFE_DRAINING R p2"
    "verdict a2 c2" "c2 \<longrightarrow> sup_gone p2" using stop_supervisor_returns [OF W d s1(2,3)] by blast
  obtain a3 t3 p3 where s3: "(if c2 then stop_workers W E me ?d a2 t2 p2 else Some (a2, Suc t2, abandon_workers (v_act W t2 p2))) = Some (a3, t3, p3)"
    "good R p3" "0 \<le> a3" "a3 = 0 \<longrightarrow> draining R p3 p3 \<and> (\<forall>i < size_of R. w_joined (worker p3 i))"
  proof (cases c2)
    case True
    then have "a2 = 0" "sup_gone p2" using s2(3,4) by (simp_all add: verdict_def)
    then show thesis using stop_workers_returns [OF W d s2(2), of E me t2] that True by (auto simp: draining_def)
  next
    case False
    have "good R (v_act W t2 p2)" using s2(2) by (intro good_act [OF W(1)]) (simp add: quiet_in_def)
    then obtain ws where "abandon_workers (v_act W t2 p2) = awp_pool_mark_quarantined ((v_act W t2 p2)\<lparr>workers := ws\<rparr>)"
      "good R ((v_act W t2 p2)\<lparr>workers := ws\<rparr>)" using abandon_workers_spec by blast
    then show thesis using that [of a2 "Suc t2" "abandon_workers (v_act W t2 p2)"] False s2(3) by (simp add: good_mark verdict_def)
  qed
  let ?q = "v_act W t3 p3"
  have gq: "good R ?q" by (rule good_act [OF W(1) s3(2)])
  obtain rc p4 where f: "finish_shutdown a3 ?q = (rc, p4)" "good R p4" "lifecycle p4 = AWP_LIFE_STOPPED" "worker p4 = worker ?q"
    "0 \<le> rc" "quarantined p4 \<longrightarrow> rc > 0" "rc = 0 \<longrightarrow> a3 = 0 \<and> active_submits p4 \<le> 0" "sup_gone p4 = sup_gone ?q"
    using finish_shutdown_spec [OF gq s3(3)] by blast
  have "run_shutdown W E me t p = Some (rc, Suc t3, p4)"
    using s1(1) s2(1) s3(1) f(1) by (cases c2) (auto simp: run_shutdown_def dl Let_def)
  moreover have "sup_gone p4 \<and> (\<forall>i < size_of R. w_joined (worker p4 i) \<and> r_closed (queue p4 i))" if "rc = 0"
  proof -
    have "draining R p3 p3" "\<forall>i < size_of R. w_joined (worker p3 i)" using s3(4) f(7) that by auto
    then have "draining R p3 ?q" using draining_act(1) [OF W] by blast
    then show ?thesis using f(4,8) \<open>\<forall>i < size_of R. w_joined (worker p3 i)\<close> by (auto simp: draining_def later_def)
  qed
  ultimately show ?thesis using f by blast
qed

lemma shutdown_loop_returns:
  assumes W: "fair_world W" "orderly W" and d: "passes W (shutdown_deadline W (t + 2) p)" and q: "quiet_in l R p"
    and l: "l = AWP_LIFE_RUNNING \<or> l = AWP_LIFE_INIT"
  shows "\<exists>rc t' p'. shutdown_loop W E me t p = Some (rc, t', p') \<and> good R p' \<and> lifecycle p' = AWP_LIFE_STOPPED
    \<and> 0 \<le> rc \<and> (quarantined p' \<longrightarrow> rc > 0)
    \<and> (rc = 0 \<longrightarrow> active_submits p' \<le> 0 \<and> sup_gone p' \<and> (\<forall>i < size_of R. w_joined (worker p' i) \<and> r_closed (queue p' i)))"
proof -
  let ?a = "v_act W t p" and ?b = "v_act W (Suc t) (v_act W t p)"
  have a: "quiet_in l R ?a" and b: "quiet_in l R ?b" by (intro keepsD [OF keeps_quiet [OF W]] q)+
  have "cfg ?b = cfg p" using b q by (auto simp: quiet_in_def good_def routing_def)
  then have "passes W (shutdown_deadline W (t + 2) ?b)" using d by (simp add: shutdown_deadline_def)
  moreover have "shutdown_loop W E me t p = run_shutdown W E me (t + 2) ?b"
    using a b l by (subst shutdown_loop.simps) (auto simp: quiet_in_def Let_def)
  ultimately show ?thesis using run_shutdown_returns [OF W _ b] by simp
qed

section \<open>Properties of shutdown and destruction\<close>

text \<open>C11. Shutdown ends: once the clock passes the deadline, \<open>awp_pool_shutdown\<close> of a running pool
  returns, whatever producers, workers and supervisor do, and leaves the pool stopped and well
  formed. Its result is honest: a quarantined pool never gives 0, and 0 means that no submit is
  active, the supervisor is gone, and every worker is joined and its queue closed.\<close>

theorem awp_pool_shutdown_outcome:
  assumes "fair_world W" and "orderly W" and "passes W (shutdown_deadline W (t + 2) pool)"
    and "pool_wf pool" and "settled pool" and "lifecycle pool = AWP_LIFE_RUNNING"
  shows "\<exists>rc t' p'. awp_pool_shutdown W E False me t (Some pool) = Some (rc, t', Some p')
    \<and> pool_wf p' \<and> lifecycle p' = AWP_LIFE_STOPPED \<and> 0 \<le> rc \<and> (quarantined p' \<longrightarrow> rc > 0)
    \<and> (rc = 0 \<longrightarrow> active_submits p' \<le> 0 \<and> sup_gone p'
         \<and> (\<forall>i<n_wk pool. w_joined (worker p' i) \<and> r_closed (queue p' i)))"
proof -
  have "quiet_in AWP_LIFE_RUNNING (routing pool) pool" using assms(4-6) by (simp add: quiet_in_def good_def)
  from shutdown_loop_returns [OF assms(1-3) this, of E me] obtain rc t' p' where
    "shutdown_loop W E me t pool = Some (rc, t', p')" "good (routing pool) p'" "lifecycle p' = AWP_LIFE_STOPPED"
    "0 \<le> rc" "quarantined p' \<longrightarrow> rc > 0"
    "rc = 0 \<longrightarrow> active_submits p' \<le> 0 \<and> sup_gone p' \<and> (\<forall>i < size_of (routing pool). w_joined (worker p' i) \<and> r_closed (queue p' i))"
    by blast
  moreover have "size_of (routing pool) = n_wk pool" by (simp add: routing_def)
  ultimately show ?thesis by (auto simp: awp_pool_shutdown_def good_def)
qed

text \<open>A world in which nobody moves and the clock jumps past the deadline.\<close>

definition patient :: world where
  "patient = still\<lparr>v_clk := (\<lambda>t. if t < 9 then 0 else 2 ^ 40)\<rparr>"

definition joiners :: shut_env where
  "joiners = \<lparr>sh_sup = no_help, sh_wk = (\<lambda>_. no_help)\<rparr>"

lemma patient_world: "fair_world patient" "orderly patient" "t < 9 \<Longrightarrow> passes patient (shutdown_deadline patient t mini_pool)"
proof -
  have a: "v_act patient t p = p" for t p by (simp add: patient_def)
  show "fair_world patient" by (simp add: fair_world_def a)
  have "same_slots r r" for r by (auto simp: same_slots_def intro!: exI [of _ "r_waiters r"] exI [of _ "r_cv r"])
  then show "orderly patient" by (simp add: orderly_def a patient_def alone_def)
  have "shutdown_deadline patient t mini_pool \<le> v_clk patient u" if "t < 9" "9 \<le> u" for u
    using that by (simp add: shutdown_deadline_def patient_def mini_pool_def mini_cfg_def demo_cfg_def)
  then show "t < 9 \<Longrightarrow> passes patient (shutdown_deadline patient t mini_pool)" unfolding passes_def by blast
qed

lemma mini_settled: "settled mini_pool" "lifecycle mini_pool = AWP_LIFE_RUNNING"
proof -
  have "w_joined (worker mini_pool i) = False" if "i < length (workers mini_pool)" for i
    using that by (auto simp: mini_pool_def mini_worker_def worker_def less_Suc_eq)
  then show "settled mini_pool" by (simp add: settled_def)
  show "lifecycle mini_pool = AWP_LIFE_RUNNING" by (simp add: mini_pool_def demo_pool_def)
qed

theorem awp_pool_shutdown_outcome_witness:
  "\<exists>rc t' p'. awp_pool_shutdown patient joiners False 1 0 (Some mini_pool) = Some (rc, t', Some p')
     \<and> lifecycle p' = AWP_LIFE_STOPPED \<and> 0 \<le> rc"
  using awp_pool_shutdown_outcome [OF patient_world(1,2) patient_world(3) mini_pool_wf(1) mini_settled, of 0 joiners 1] by auto

lemma waiters_wait_returns:
  assumes n: "\<forall>u\<ge>n. \<forall>p. shutdown_waiters (v_act W u p) \<le> 0" and "keeps W I" and "I p"
  shows "\<exists>t' p'. waiters_wait W t p = Some (t', p') \<and> I p'"
  using wt.returns [OF assms(2) _ assms(3), where n = n and t = t] n by (fastforce simp: not_less split: if_splits)

lemma refs_wait_keeps:
  assumes W: "keeps W I" and m: "\<And>p. I p \<Longrightarrow> I (awp_pool_mark_quarantined p)" and "I p"
  shows "I (snd (refs_wait n W t p))"
  using assms(3)
proof (induction n arbitrary: t p)
  case 0
  then show ?case using keepsD [OF W] m by (simp add: Let_def)
next
  case (Suc n)
  then show ?case using keepsD [OF W] by (subst refs_wait.simps) (auto simp: Let_def)
qed

text \<open>Freeing happens only with nothing left that could use the pool.\<close>

definition unused :: "awp_pool \<Rightarrow> bool" where
  "unused p \<longleftrightarrow> \<not> quarantined p \<and> active_submits p \<le> 0 \<and> api_refs p \<le> 0
     \<and> (supervisor_started p \<longrightarrow> supervisor_joined p)"

lemma unused_frees:
  "unused (destroy_rings n p) = unused p" "unused (p\<lparr>workers := ws, metrics_buf := ms\<rparr>) = unused p"
  "unused (destroy_frames p) = unused p" "unused (snd (free_broadcast_feeds p)) = unused p"
proof -
  have "unused (fold (\<lambda>i p. if w_joined (worker p i) then upd_queue i awp_ring_destroy p else p) is p) = unused p" for "is"
    by (induction "is" arbitrary: p) (simp_all add: unused_def upd_queue_def upd_worker_def)
  then show "unused (destroy_rings n p) = unused p" by (simp add: destroy_rings_def)
qed (simp_all add: unused_def destroy_frames_def awp_frame_pool_destroy_def free_broadcast_feeds_def)

lemma release_pool_cases:
  assumes g: "good R p"
  shows "case release_pool p of
      Kept q \<Rightarrow> may_be_in_use q
    | Gone ws q \<Rightarrow> unused q \<and> length ws = size_of R
        \<and> (\<forall>w \<in> set ws. w_joined w \<and> w_state w \<noteq> AWP_W_QUARANTINED \<and> no_storage (w_queue w))
        \<and> p_slab (frames q) = [] \<and> p_next (frames q) = [] \<and> broadcast_feeds q = [] \<and> workers q = []"
proof -
  have n: "n_wk p = size_of R" "length (workers p) = size_of R" using g by (auto simp: good_def routing_def pool_wf_def)
  let ?d = "destroy_rings (n_wk p) p"
  have d: "length (workers ?d) = size_of R" "\<And>j. worker ?d j = (if j < size_of R \<and> w_joined (worker p j)
      then (worker p j)\<lparr>w_queue := awp_ring_destroy (queue p j)\<rparr> else worker p j)"
    using destroy_rings_spec [of "n_wk p" p] n by auto
  show ?thesis
  proof (cases "may_be_in_use p \<or> list_ex (\<lambda>i. \<not> w_joined (worker p i) \<and> w_state (worker p i) \<noteq> AWP_W_QUARANTINED) [0..<n_wk p]")
    case True
    then show ?thesis by (auto simp: release_pool_def may_be_in_use_def)
  next
    case False
    have "w_joined (worker p j) \<and> w_state (worker p j) \<noteq> AWP_W_QUARANTINED" if "j < size_of R" for j
      using False that n by (auto simp: may_be_in_use_def any_worker_quarantined_def list_ex_iff)
    then have st: "\<forall>w \<in> set (workers ?d). w_joined w \<and> w_state w \<noteq> AWP_W_QUARANTINED \<and> no_storage (w_queue w)"
      using d by (auto simp: in_set_conv_nth worker_def no_storage_def awp_ring_destroy_def)
    moreover have "unused p" using False by (auto simp: may_be_in_use_def unused_def)
    ultimately have "case release_pool p of Kept q \<Rightarrow> False | Gone ws q \<Rightarrow> ws = workers ?d \<and> unused q"
      using False by (simp add: release_pool_def Let_def unused_frees)
    with st show ?thesis
      using False d(1)
      by (auto simp: release_pool_def Let_def free_broadcast_feeds_def destroy_frames_def awp_frame_pool_destroy_def zero_pool_def)
  qed
qed




section \<open>Late callers\<close>

interpretation sd: poll_loop W "stopped_wait W"
  "\<lambda>t p. if lifecycle p \<noteq> AWP_LIFE_STOPPED then None else Some (Suc t, p)" for W
  by unfold_locales (subst stopped_wait.simps, simp add: Let_def)

definition under_way :: "awp_pool \<Rightarrow> bool" where
  "under_way p \<longleftrightarrow> lifecycle p = AWP_LIFE_QUIESCING \<or> lifecycle p = AWP_LIFE_DRAINING \<or> lifecycle p = AWP_LIFE_STOPPED"

lemma sampled_quarantine: "quarantined p \<Longrightarrow> sampled_aborts p \<noteq> 0"
  by (simp add: sampled_aborts_def Let_def)


text \<open>The first caller publishes STOPPED at time 5, with one abort counted.\<close>

definition finishing :: world where
  "finishing = still\<lparr>v_act := (\<lambda>t p. if t < 5 then p else set_life AWP_LIFE_STOPPED (p\<lparr>quarantined := True\<rparr>))\<rparr>"


end
