(* ===== verification/Pipeline.thy ===== *)
theory Pipeline
  imports Pool_Spec
begin

text \<open>
  The components together: a pool is created, frames are submitted, a worker drains its queue.
  With nobody else moving, every submit is accepted as long as its queue has room, and the worker
  a frame is routed to processes it, in the order of submission.
\<close>

section \<open>A submit that finds room\<close>

record message =
  ms_feed :: "cstr option"
  ms_symbol :: "cstr option"
  ms_payload :: "u8 list option"
  ms_len :: u64
  ms_flags :: u32

definition message_ok :: "message \<Rightarrow> bool" where
  "message_ok m \<longleftrightarrow>
     args_ok (or_empty (ms_feed m)) (or_empty (ms_symbol m)) (payload_bytes (ms_payload m)) (ms_len m)"

definition carries :: "awp_frame \<Rightarrow> message \<Rightarrow> bool" where
  "carries f m \<longleftrightarrow>
     frame_holds f (or_empty (ms_feed m)) (or_empty (ms_symbol m)) (payload_bytes (ms_payload m)) (ms_len m) (ms_flags m)"

text \<open>The worker a message is routed to.\<close>

definition sent_to :: "awp_pool \<Rightarrow> message \<Rightarrow> nat" where
  "sent_to pool m = unat (submit_shard pool (ms_feed m) (ms_symbol m) (ms_flags m))"

abbreviation submit_one :: "nat \<Rightarrow> nat \<Rightarrow> awp_pool \<Rightarrow> message \<Rightarrow> (int \<times> nat \<times> awp_pool option) option" where
  "submit_one me t pool m \<equiv>
     awp_submit still False me t (Some pool) (ms_feed m) (ms_symbol m) (ms_payload m) (ms_len m) (ms_flags m)"

text \<open>What a worker has to do with a submit apart from its queue: nothing.\<close>

definition tallies :: "awp_worker \<Rightarrow> bool \<times> u64 \<times> u64" where
  "tallies w = (w_stop w, w_processed w, w_process_errors w)"

lemma hwm_still:
  obtains t' f where "hwm_loop still i d t p = Some (t', upd_worker i f p)"
    "\<And>w. w_queue (f w) = w_queue w" "\<And>w. tallies (f w) = tallies w"
proof (cases "ucast d > w_queue_hwm (worker p i)")
  case True
  then show thesis using that [of "Suc t" "\<lambda>w. w\<lparr>w_queue_hwm := ucast d\<rparr>"]
    by (simp add: hwm_loop.simps Let_def tallies_def)
next
  case False
  moreover have "upd_worker i (\<lambda>w. w) p = p" by (simp add: upd_worker_def)
  ultimately show thesis using that [of "Suc t" "\<lambda>w. w"] by (simp add: hwm_loop.simps Let_def)
qed

lemma length_queued: "length (queued r) = ring_len r"
  by (simp add: queued_def)

text \<open>An intake is a running pool whose queues are open and hold published frames.\<close>

definition intake :: "awp_config \<times> cstr option list \<times> u32 \<times> u32 \<times> u32 \<Rightarrow> nat \<Rightarrow> awp_pool \<Rightarrow> bool" where
  "intake R K p \<longleftrightarrow> good R p \<and> \<not> not_admitting p
     \<and> (\<forall>i<unat (n_workers (fst R)). \<not> r_closed (queue p i) \<and> ring_cap (queue p i) = K)"

lemma submit_alone:
  assumes I: "intake R K p" and m: "message_ok m" and room: "length (queued (queue p (sent_to p m))) < K"
  obtains t' p' f where "submit_one me t p m = Some (0, t', Some p')" "intake R K p'" "carries f m"
    "queued (queue p' (sent_to p m)) = queued (queue p (sent_to p m)) @ [Some f]"
    "\<And>j. j \<noteq> sent_to p m \<Longrightarrow> queue p' j = queue p j"
    "\<And>j. tallies (worker p' j) = tallies (worker p j)"
    "submitted p' = submitted p + 1" "process_errors p' = process_errors p"
    "api_refs p' = api_refs p" "active_submits p' = active_submits p"
proof -
  let ?sh = "submit_shard p (ms_feed m) (ms_symbol m) (ms_flags m)"
  let ?i = "sent_to p m" and ?p1 = "submit_begin (awp_api_enter p)"
  let ?wr = "\<lambda>sq. write_frame (or_empty (ms_feed m)) (or_empty (ms_symbol m)) (payload_bytes (ms_payload m)) (ms_len m)
      (ms_flags m) sq (v_clk still t) ?sh"
  have g: "good R p" and wf: "pool_wf p" using I by (auto simp: intake_def good_def)
  have "?sh < n_workers (cfg p)" by (rule shard_in_range [OF wf])
  then have sh: "?sh < n_workers (cfg p)" "?i < n_wk p" "?i < unat (n_workers (fst R))"
    using g by (auto simp: sent_to_def word_less_nat_alt good_def routing_def)
  have il: "?i < length (workers p)" using wf sh(2) by (simp add: pool_wf_def)
  let ?r = "queue p ?i"
  have q: "queue_wf ?r" "\<not> r_closed ?r" "ring_cap ?r = K" "ring_len ?r < ring_cap ?r"
    using I pool_wf_queue [OF wf sh(2)] sh(3) room by (auto simp: intake_def length_queued)
  have w1: "worker ?p1 = worker p" "n_workers (cfg ?p1) = n_workers (cfg p)" "workers ?p1 = workers p"
    by (simp_all add: submit_begin_def awp_api_enter_def worker_def fun_eq_iff)
  have na: "\<not> not_admitting ?p1" using I by (simp add: intake_def not_admitting_def submit_begin_def awp_api_enter_def)
  define r' where "r' = stored (?wr (seq ?p1)) ?r"
  define p2 where "p2 = upd_queue ?i (\<lambda>_. r') (?p1\<lparr>seq := seq ?p1 + 1\<rparr>)"
  have st: "submit_try ?wr ?i True ?p1 = (Stored, p2)"
    using submit_try_spec [of ?p1 ?i ?wr True] q na by (simp add: w1 p2_def r'_def)
  have l: "submit_loop ?wr still me (unat ?sh) 0 0 (Suc t) ?p1 = Some (Inr 0, Suc (Suc t), p2)"
    using st by (subst submit_loop.simps) (simp add: sent_to_def)
  obtain t' h where h: "hwm_loop still ?i (awp_ring_depth (queue p2 ?i)) (Suc (Suc t)) p2 = Some (t', upd_worker ?i h p2)"
    "\<And>w. w_queue (h w) = w_queue w" "\<And>w. tallies (h w) = tallies w" by (rule hwm_still) blast
  let ?p' = "submit_end ((upd_worker ?i h p2)\<lparr>submitted := submitted (upd_worker ?i h p2) + 1\<rparr>)"
  have "awp_compute_shard (Some ?p1) (Some (or_empty (ms_feed m))) (Some (or_empty (ms_symbol m))) (ms_flags m) = ?sh"
    using compute_shard_routing [of ?p1 p] by (simp add: submit_shard_def)
  moreover have "ms_len m = 0" if "ms_payload m = None" using that m by (simp add: message_ok_def args_ok_def payload_bytes_def unat_eq_0)
  ultimately have run: "submit_one me t p m = Some (0, t', Some ?p')"
    by (intro awp_submit_run [where ?p1.0 = ?p1 and sh = ?sh])
      (use l h(1) na sh(1) m w1 in \<open>auto simp: message_ok_def args_ok_def sent_to_def not_less not_le\<close>)
  have ok: "wf_frame (?wr s f)" "carries (?wr s f) m" if "wf_frame f" for s f
    using write_frame_spec that m by (auto simp: message_ok_def carries_def)
  note S = stored_spec [OF q(1,4), of "?wr (seq ?p1)", OF ok(1), folded r'_def]
  have "ring_geom ?r" using q(1) by (simp add: queue_wf_def ring_ok_def)
  from ring_index_less [OF this] ring_cap_bounds(3) [OF this] q(1)
  have f0: "wf_frame (r_frames ?r ! ring_index ?r (r_enqueue_pos ?r))" by (simp add: queue_wf_def)
  have W: "worker ?p' j = (if j = ?i then h ((worker p ?i)\<lparr>w_queue := r'\<rparr>) else worker p j)" for j
    using il by (simp add: p2_def submit_end_def awp_api_leave_def upd_queue_def upd_worker_def worker_def w1)
  have fr: "routing ?p' = routing p" "not_admitting ?p' = not_admitting p" "length (workers ?p') = length (workers p)"
    "submitted ?p' = submitted p + 1" "process_errors ?p' = process_errors p" "api_refs ?p' = api_refs p"
    "active_submits ?p' = active_submits p" "wf_shard_map ?p' = wf_shard_map p" "n_wk ?p' = n_wk p"
    by (simp_all add: p2_def submit_end_def awp_api_leave_def upd_queue_def upd_worker_def submit_begin_def awp_api_enter_def
        routing_def not_admitting_def wf_shard_map_def)
  have "pool_wf ?p'" using wf S(1) W h(2) unfolding pool_wf_def fr by simp
  then have "intake R K ?p'" using I S(4,5) q W h(2) fr(1,2) by (auto simp: intake_def good_def)
  moreover have "tallies (worker ?p' j) = tallies (worker p j)" for j
    using W [of j] h(3) by (simp add: tallies_def)
  ultimately show thesis
    using that [OF run _ ok(2) [OF f0]] S(2) W h(2) fr(4-7) by simp
qed

section \<open>A sequence of submits\<close>

fun submit_all :: "nat \<Rightarrow> nat \<Rightarrow> awp_pool \<Rightarrow> message list \<Rightarrow> (int list \<times> nat \<times> awp_pool) option" where
  "submit_all me t pool [] = Some ([], t, pool)"
| "submit_all me t pool (m # ms) =
     do { (rc, t, po) \<leftarrow> submit_one me t pool m;
          pool \<leftarrow> po;
          (rcs, t, pool) \<leftarrow> submit_all me t pool ms;
          Some (rc # rcs, t, pool) }"

lemma sent_to_routing: "routing p = routing q \<Longrightarrow> sent_to p = sent_to q"
  using compute_shard_routing [of p q] by (simp add: sent_to_def submit_shard_def fun_eq_iff)

lemma intake_routing: "intake R K p \<Longrightarrow> intake R K q \<Longrightarrow> sent_to p = sent_to q"
  by (rule sent_to_routing) (simp add: intake_def good_def)

definition backlog :: "awp_pool \<Rightarrow> nat \<Rightarrow> awp_frame option list" where
  "backlog p i = queued (queue p i)"

lemma submit_all_accepts:
  assumes "intake R K p" and "\<forall>m \<in> set ms. message_ok m"
    and "\<forall>i. length (backlog p i) + length (filter (\<lambda>m. sent_to p m = i) ms) \<le> K \<or> filter (\<lambda>m. sent_to p m = i) ms = []"
  shows "\<exists>t' p' fs. submit_all me t p ms = Some (replicate (length ms) 0, t', p') \<and> intake R K p'
    \<and> (\<forall>i. backlog p' i = backlog p i @ map Some (fs i) \<and> list_all2 carries (fs i) (filter (\<lambda>m. sent_to p m = i) ms)
          \<and> tallies (worker p' i) = tallies (worker p i))
    \<and> submitted p' = submitted p + of_nat (length ms) \<and> process_errors p' = process_errors p
    \<and> api_refs p' = api_refs p \<and> active_submits p' = active_submits p"
  using assms
proof (induction ms arbitrary: t p)
  case Nil
  then show ?case by (intro exI [of _ t] exI [of _ p] exI [of _ "\<lambda>_. []"]) simp
next
  case (Cons m ms)
  let ?i = "sent_to p m"
  have "message_ok m" and "length (queued (queue p ?i)) < K"
    using Cons.prems(2,3) spec [OF Cons.prems(3), of ?i] by (auto simp: backlog_def)
  from submit_alone [OF Cons.prems(1) this, of me t] obtain t1 p1 f where
    s: "submit_one me t p m = Some (0, t1, Some p1)" "intake R K p1" "carries f m"
    "queued (queue p1 ?i) = queued (queue p ?i) @ [Some f]" "\<And>j. j \<noteq> ?i \<Longrightarrow> queue p1 j = queue p j"
    "\<And>j. tallies (worker p1 j) = tallies (worker p j)" "submitted p1 = submitted p + 1" "process_errors p1 = process_errors p"
    "api_refs p1 = api_refs p" "active_submits p1 = active_submits p" by metis
  have r: "sent_to p1 = sent_to p" by (rule intake_routing [OF s(2) Cons.prems(1)])
  have b: "backlog p1 j = (if j = ?i then backlog p j @ [Some f] else backlog p j)" for j
    using s(4,5) by (simp add: backlog_def)
  have room: "\<forall>i. length (backlog p1 i) + length (filter (\<lambda>m. sent_to p1 m = i) ms) \<le> K \<or> filter (\<lambda>m. sent_to p1 m = i) ms = []"
    using Cons.prems(3) by (auto simp: r b split: if_splits)
  from Cons.IH [OF s(2) _ room, of t1] Cons.prems(2) obtain t' p' fs where
    R: "submit_all me t1 p1 ms = Some (replicate (length ms) 0, t', p')" "intake R K p'"
    "\<And>i. backlog p' i = backlog p1 i @ map Some (fs i)" "\<And>i. list_all2 carries (fs i) (filter (\<lambda>m. sent_to p m = i) ms)"
    "\<And>i. tallies (worker p' i) = tallies (worker p1 i)" "submitted p' = submitted p1 + of_nat (length ms)"
    "process_errors p' = process_errors p1" "api_refs p' = api_refs p1" "active_submits p' = active_submits p1"
    unfolding r by auto
  show ?case
    by (intro exI [of _ t'] exI [of _ p'] exI [of _ "fs(?i := f # fs ?i)"]) (use s R b in auto)
qed

section \<open>From creation to the callback\<close>

lemma created_intake:
  assumes "valid_config c" and "create_env_ok A c" and "few_feeds c"
  obtains p where "awp_pool_create A still t (Some c) True = (0, Created p)"
    "intake (routing p) (unat (awp_round_up_pow2 (queue_capacity c))) p" "cfg p = c"
    "\<And>i. i < unat (n_workers c) \<Longrightarrow> backlog p i = [] \<and> tallies (worker p i) = (False, 0, 0)"
    "api_refs p = 0" "active_submits p = 0"
proof -
  obtain p0 ws where p0: "ready_pool c p0" "length ws = unat (n_workers c)"
    "\<forall>i<unat (n_workers c). ws ! i = started_worker (worker p0 i)"
    "awp_pool_create A still t (Some c) True = (0, Created (running_pool c ws p0))" "pool_wf (running_pool c ws p0)"
    using create_alone [OF assms, of still t] by auto
  let ?p = "running_pool c ws p0"
  have w: "worker ?p i = started_worker (worker p0 i)" "idle_worker c i (worker p0 i)" if "i < unat (n_workers c)" for i
    using p0(1,3) that by (simp_all add: running_pool_def worker_def ready_pool_def)
  have c: "cfg ?p = c" "\<not> not_admitting ?p" "api_refs ?p = 0" "active_submits ?p = 0"
    using p0(1) by (simp_all add: running_pool_def ready_pool_def not_admitting_def)
  have "intake (routing ?p) (unat (awp_round_up_pow2 (queue_capacity c))) ?p"
    using w c(1,2) p0(5) by (auto simp: intake_def good_def routing_def started_worker_def idle_worker_def fresh_queue_def open_ring_def)
  moreover have "backlog ?p i = [] \<and> tallies (worker ?p i) = (False, 0, 0)" if "i < unat (n_workers c)" for i
    using w [OF that] by (simp add: backlog_def tallies_def started_worker_def idle_worker_def fresh_queue_def)
  ultimately show thesis using that [OF p0(4)] c by blast
qed

lemma close_and_drain:
  assumes g: "good R q" and i: "i < unat (n_workers (fst R))" and "cfg_process (fst R)"
    and "tallies (worker q i) = (False, 0, 0)" and "queued (queue q i) = map Some fs"
  shows "\<exists>t' w. awp_worker_main (\<lambda>_. proc) still me i t (upd_queue i awp_ring_close q) = Some (t', w)
    \<and> w_state (worker w i) = AWP_W_EXITED \<and> queued (queue w i) = []
    \<and> w_processed (worker w i) = of_nat (length fs) \<and> w_process_errors (worker w i) = errs proc fs
    \<and> process_errors w = process_errors q + errs proc fs"
proof -
  let ?q = "upd_queue i awp_ring_close q"
  have il: "i < length (workers q)" using good_index [OF g i] by simp
  have gq: "good R ?q" by (rule good_upd_queue [OF g i]) (use good_queue [OF g i] in simp)
  have w: "worker ?q i = (worker q i)\<lparr>w_queue := awp_ring_close (queue q i)\<rparr>" "process_errors ?q = process_errors q"
    using il by (simp_all add: upd_queue_def upd_worker_def worker_def)
  have "queued (queue ?q i) = map Some fs"
    using assms(5) w(1) by (simp add: queued_def awp_ring_close_def awp_ring_wake_all_def)
  moreover have "r_closed (queue ?q i)" "\<not> w_stop (worker ?q i)" "w_processed (worker ?q i) = 0" "w_process_errors (worker ?q i) = 0"
    using assms(4) w(1) by (simp_all add: tallies_def)
  ultimately show ?thesis using worker_main_drains [OF gq i assms(3), of fs proc me t] w(2) by auto
qed

text \<open>The whole path, as a lemma for the programs that use it.\<close>

lemma frames_processed:
  assumes "valid_config c" and "create_env_ok A c" and "few_feeds c"
  shows "\<exists>p. awp_pool_create A still t0 (Some c) True = (0, Created p) \<and>
    (\<forall>ms. (\<forall>m \<in> set ms. message_ok m)
        \<and> (\<forall>i. length (filter (\<lambda>m. sent_to p m = i) ms) \<le> unat (awp_round_up_pow2 (queue_capacity c))) \<longrightarrow>
      (\<exists>t1 q. submit_all me t p ms = Some (replicate (length ms) 0, t1, q)
        \<and> submitted q = submitted p + of_nat (length ms) \<and> api_refs q = 0 \<and> active_submits q = 0
        \<and> (\<forall>i<unat (n_workers c). \<exists>fs t2 w.
              queued (queue q i) = map Some fs \<and> list_all2 carries fs (filter (\<lambda>m. sent_to p m = i) ms)
              \<and> awp_worker_main (\<lambda>_. proc) still me i t1 (upd_queue i awp_ring_close q) = Some (t2, w)
              \<and> w_state (worker w i) = AWP_W_EXITED \<and> queued (queue w i) = []
              \<and> w_processed (worker w i) = of_nat (length fs) \<and> w_process_errors (worker w i) = errs proc fs
              \<and> process_errors w = process_errors p + errs proc fs)))"
proof -
  let ?K = "unat (awp_round_up_pow2 (queue_capacity c))" and ?N = "unat (n_workers c)"
  obtain p where p: "awp_pool_create A still t0 (Some c) True = (0, Created p)" "intake (routing p) ?K p" "cfg p = c"
    "\<And>i. i < ?N \<Longrightarrow> backlog p i = [] \<and> tallies (worker p i) = (False, 0, 0)" "api_refs p = 0" "active_submits p = 0"
    using created_intake [OF assms, of t0] by metis
  have wf: "pool_wf p" using p(2) by (simp add: intake_def good_def)
  have idx: "sent_to p m < ?N" for m
    using shard_in_range [OF wf] p(3) by (simp add: sent_to_def word_less_nat_alt)
  show ?thesis
  proof (intro exI [of _ p] conjI p(1) allI impI, elim conjE)
    fix ms assume ms: "\<forall>m \<in> set ms. message_ok m" "\<forall>i. length (filter (\<lambda>m. sent_to p m = i) ms) \<le> ?K"
    have "length (backlog p i) + length (filter (\<lambda>m. sent_to p m = i) ms) \<le> ?K \<or> filter (\<lambda>m. sent_to p m = i) ms = []" for i
    proof (cases "i < ?N")
      case False
      then show ?thesis using idx by (auto simp: filter_empty_conv)
    qed (use p(4) ms(2) in simp)
    then obtain t1 q fs where q: "submit_all me t p ms = Some (replicate (length ms) 0, t1, q)" "intake (routing p) ?K q"
      "\<And>i. backlog q i = backlog p i @ map Some (fs i)" "\<And>i. list_all2 carries (fs i) (filter (\<lambda>m. sent_to p m = i) ms)"
      "\<And>i. tallies (worker q i) = tallies (worker p i)" "submitted q = submitted p + of_nat (length ms)"
      "process_errors q = process_errors p" "api_refs q = api_refs p" "active_submits q = active_submits p"
      using submit_all_accepts [OF p(2) ms(1), of me t] by metis
    have g: "good (routing p) q" using q(2) by (simp add: intake_def)
    have R: "unat (n_workers (fst (routing p))) = ?N" "cfg_process (fst (routing p))"
      using p(3) assms(1) by (simp_all add: routing_def valid_config_def)
    have "tallies (worker q i) = (False, 0, 0)" "queued (queue q i) = map Some (fs i)" if "i < ?N" for i
      using q(3,5) p(4) [OF that] by (simp_all add: backlog_def)
    note D = close_and_drain [where proc = proc and me = me and t = t1, OF g _ R(2) this, unfolded R(1) q(7)]
    show "\<exists>t1 q. submit_all me t p ms = Some (replicate (length ms) 0, t1, q)
        \<and> submitted q = submitted p + of_nat (length ms) \<and> api_refs q = 0 \<and> active_submits q = 0
        \<and> (\<forall>i<?N. \<exists>fs t2 w.
              queued (queue q i) = map Some fs \<and> list_all2 carries fs (filter (\<lambda>m. sent_to p m = i) ms)
              \<and> awp_worker_main (\<lambda>_. proc) still me i t1 (upd_queue i awp_ring_close q) = Some (t2, w)
              \<and> w_state (worker w i) = AWP_W_EXITED \<and> queued (queue w i) = []
              \<and> w_processed (worker w i) = of_nat (length fs) \<and> w_process_errors (worker w i) = errs proc fs
              \<and> process_errors w = process_errors p + errs proc fs)"
      using q(1,4,6,8,9) p(4-6) D q(3) by (intro exI [of _ t1] exI [of _ q]) (auto simp: backlog_def)
  qed
qed

text \<open>C6. From submission to the callback: on a freshly created pool every sequence of valid
  submits that no queue overflows is accepted in full. Each worker's queue then holds the messages
  routed to that worker, with their content, in the order of submission; the worker, once its
  queue is closed, hands exactly these frames to \<open>process\<close> and counts them and their failures.\<close>

theorem submitted_frames_processed:
  assumes "valid_config c" and "create_env_ok A c" and "few_feeds c"
  shows "\<exists>p. awp_pool_create A still t0 (Some c) True = (0, Created p) \<and>
    (\<forall>ms. (\<forall>m \<in> set ms. message_ok m)
        \<and> (\<forall>i. length (filter (\<lambda>m. sent_to p m = i) ms) \<le> unat (awp_round_up_pow2 (queue_capacity c))) \<longrightarrow>
      (\<exists>t1 q. submit_all me t p ms = Some (replicate (length ms) 0, t1, q)
        \<and> submitted q = submitted p + of_nat (length ms) \<and> api_refs q = 0 \<and> active_submits q = 0
        \<and> (\<forall>i<unat (n_workers c). \<exists>fs t2 w.
              queued (queue q i) = map Some fs \<and> list_all2 carries fs (filter (\<lambda>m. sent_to p m = i) ms)
              \<and> awp_worker_main (\<lambda>_. proc) still me i t1 (upd_queue i awp_ring_close q) = Some (t2, w)
              \<and> w_state (worker w i) = AWP_W_EXITED \<and> queued (queue w i) = []
              \<and> w_processed (worker w i) = of_nat (length fs) \<and> w_process_errors (worker w i) = errs proc fs
              \<and> process_errors w = process_errors p + errs proc fs)))"
  by (rule frames_processed [OF assms])

definition hello :: message where
  "hello = \<lparr>ms_feed = Some [116, 0], ms_symbol = Some [66, 0], ms_payload = Some [1, 2], ms_len = 2, ms_flags = 0\<rparr>"

theorem submitted_frames_processed_witness:
  "\<exists>p t1 q. awp_pool_create willing_create still 0 (Some demo_cfg) True = (0, Created p)
     \<and> submit_all 1 0 p [hello, hello] = Some ([0, 0], t1, q)
     \<and> (\<exists>fs. queued (queue q 3) = map Some fs \<and> list_all2 carries fs (filter (\<lambda>m. sent_to p m = 3) [hello, hello]))"
proof -
  have ok: "message_ok hello"
    by (simp add: message_ok_def hello_def args_ok_def or_empty_def payload_bytes_def strlen_def content_def limit_defs)
  have K: "2 \<le> unat (awp_round_up_pow2 (queue_capacity demo_cfg))"
    using round_up_pow2_cases [of 256] by (auto simp: demo_cfg_def)
  have "length (filter P [hello, hello]) \<le> unat (awp_round_up_pow2 (queue_capacity demo_cfg))" for P
    using K length_filter_le [of P "[hello, hello]"] by simp
  then have "(\<forall>m \<in> set [hello, hello]. message_ok m)
      \<and> (\<forall>i. length (filter (\<lambda>m. sent_to p m = i) [hello, hello]) \<le> unat (awp_round_up_pow2 (queue_capacity demo_cfg)))" for p
    using ok K by simp
  moreover have "length [hello, hello] = 2" and "3 < unat (n_workers demo_cfg)" by (simp_all add: demo_cfg_def)
  moreover obtain p where "awp_pool_create willing_create still 0 (Some demo_cfg) True = (0, Created p)"
    and "\<And>ms. (\<forall>m \<in> set ms. message_ok m)
        \<and> (\<forall>i. length (filter (\<lambda>m. sent_to p m = i) ms) \<le> unat (awp_round_up_pow2 (queue_capacity demo_cfg))) \<Longrightarrow>
      \<exists>t1 q. submit_all 1 0 p ms = Some (replicate (length ms) 0, t1, q)
        \<and> (\<forall>i<unat (n_workers demo_cfg). \<exists>fs. queued (queue q i) = map Some fs \<and> list_all2 carries fs (filter (\<lambda>m. sent_to p m = i) ms))"
    using submitted_frames_processed [OF demo_create(1,3,2), of 0 1 0 "\<lambda>_. 0"] by meson
  moreover have "replicate 2 (0 :: int) = [0, 0]" by (simp add: numeral_2_eq_2)
  ultimately show ?thesis by metis
qed

end
