(* ===== verification/Pool_Examples.thy ===== *)
theory Pool_Examples
  imports Pipeline
begin

text \<open>
  The example programs that use a pool: \<open>example_spsc.c\<close>, \<open>example_mpsc.c\<close>, \<open>simple_publish.c\<close> and
  \<open>demo_pool\<close> of \<open>example_mpmc.c\<close>. Each configures and creates a pool, lets one or more threads
  submit a fixed sequence of messages and waits until its callback has counted all of them.
  Modelled are the configurations and the messages of each thread. Calls of \<open>awp_submit\<close> of several
  threads are interleaved as a whole, and the workers run after the submits; sleeping and
  printing are left out.
\<close>

section \<open>Configurations and messages\<close>

text \<open>\<open>c0\<close> is the uninitialised structure that \<open>awp_config_init\<close> overwrites.\<close>

definition spsc_config :: "awp_config \<Rightarrow> awp_config" where
  "spsc_config c0 = (the (awp_config_init (Some c0)))
     \<lparr>n_workers := 4, queue_capacity := 64, frame_pool_size := 256, ring_mode := AWP_RING_SPSC,
      enable_supervisor := False, cfg_process := True\<rparr>"

definition mpsc_config :: "awp_config \<Rightarrow> awp_config" where
  "mpsc_config c0 = (the (awp_config_init (Some c0)))
     \<lparr>n_workers := 8, queue_capacity := 64, frame_pool_size := 256, ring_mode := AWP_RING_MPSC, cfg_process := True\<rparr>"

definition publish_config :: "awp_config \<Rightarrow> awp_config" where
  "publish_config c0 = (the (awp_config_init (Some c0)))
     \<lparr>n_workers := 8, queue_capacity := 64, frame_pool_size := 256, cfg_process := True, enable_supervisor := True\<rparr>"

definition demo_pool_config :: "awp_config \<Rightarrow> awp_config" where
  "demo_pool_config c0 = (the (awp_config_init (Some c0)))
     \<lparr>n_workers := 4, queue_capacity := 64, frame_pool_size := 256, ring_mode := AWP_RING_MPMC,
      enable_supervisor := False, cfg_process := True\<rparr>"

definition c_string :: "string \<Rightarrow> cstr" where
  "c_string s = c_bytes s @ [0]"

definition syms :: "cstr list" where
  "syms = [c_string ''BTCUSDT'', c_string ''ETHUSDT'', c_string ''SOLUSDT'']"

text \<open>\<open>snprintf(payload, sizeof(payload), ...)\<close> and a submit of \<open>payload\<close> with \<open>strlen(payload)\<close>.\<close>

definition text_message :: "cstr \<Rightarrow> u8 list \<Rightarrow> message" where
  "text_message symb payload =
     \<lparr>ms_feed = Some (c_string ''trades''), ms_symbol = Some symb, ms_payload = Some payload, ms_len = strlen payload, ms_flags = 0\<rparr>"

definition spsc_messages :: "message list" where
  "spsc_messages = map (\<lambda>i. text_message (syms ! (i mod 3)) (snprintf (replicate 32 0) (decimal i))) [0..<12]"

definition venue_main :: "nat \<Rightarrow> message list" where
  "venue_main v =
     map (\<lambda>i. text_message (syms ! ((v + i) mod 3)) (snprintf (replicate 32 0) (c_bytes ''v'' @ decimal v @ c_bytes ''-'' @ decimal i)))
       [0..<6]"

definition venue_reader :: "message list" where
  "venue_reader =
     map (\<lambda>i. text_message (syms ! (i mod 3))
            (snprintf (replicate 64 0) (c_bytes [CHR ''{'', CHR 0x22, CHR ''p'', CHR ''x'', CHR 0x22, CHR '':''] @ decimal (1000 + i) @ c_bytes ''}'')))
       [0..<10]"

definition pool_submitter :: "nat \<Rightarrow> message list" where
  "pool_submitter k =
     map (\<lambda>j. \<lparr>ms_feed = Some (c_string ''trades''), ms_symbol = Some (snprintf (replicate 16 0) (c_bytes ''T'' @ decimal k)),
               ms_payload = Some (c_string ''x''), ms_len = 1, ms_flags = 0\<rparr>) [0..<10]"

text \<open>The orders in which several threads may get their submits done.\<close>

fun interleavings :: "'a list list \<Rightarrow> 'a list set" where
  "interleavings [] = {[]}"
| "interleavings (xs # xss) = (\<Union>ys \<in> interleavings xss. shuffles xs ys)"

text \<open>A program, the messages it submits, and the count its main thread waits for.\<close>

definition pool_program :: "awp_config \<Rightarrow> message list \<Rightarrow> nat \<Rightarrow> bool" where
  "pool_program c ms expect \<longleftrightarrow>
     (\<exists>c0. c = spsc_config c0 \<and> ms = spsc_messages \<and> expect = 12
       \<or> c = mpsc_config c0 \<and> ms \<in> interleavings (map venue_main [0..<3]) \<and> expect = 18
       \<or> c = publish_config c0 \<and> ms \<in> interleavings [venue_reader, venue_reader] \<and> expect = 20
       \<or> c = demo_pool_config c0 \<and> ms \<in> interleavings (map pool_submitter [0..<4]) \<and> expect = 40)"

section \<open>Their messages are valid\<close>

lemma interleavings_set: "ms \<in> interleavings xss \<Longrightarrow> set ms = (\<Union>xs \<in> set xss. set xs)"
  by (induction xss arbitrary: ms) (auto dest: set_shuffles)

lemma interleavings_length: "ms \<in> interleavings xss \<Longrightarrow> length ms = sum_list (map length xss)"
  by (induction xss arbitrary: ms) (auto dest: length_shuffles)

lemma snprintf_length: "buf \<noteq> [] \<Longrightarrow> length (snprintf buf s) = length buf"
  by (simp add: snprintf_def Let_def)

lemma strlen_le: "unat (strlen s) \<le> length s"
  using content_length_le [of s] by (simp add: strlen_def unat_of_nat take_bit_nat_less_eq_self order_trans)

lemma text_ok:
  assumes "length feed \<le> 64" and "length symb \<le> 64" and "length payload \<le> 4096" and "unat n \<le> length payload"
  shows "message_ok \<lparr>ms_feed = Some feed, ms_symbol = Some symb, ms_payload = Some payload, ms_len = n, ms_flags = flags\<rparr>"
proof -
  have "length (content feed) < 2 ^ 64" "length (content symb) < 2 ^ 64"
    using assms(1,2) content_length_le [of feed] content_length_le [of symb] by simp_all
  then show ?thesis
    using assms strlen_le [of feed] strlen_le [of symb]
    by (auto simp: message_ok_def args_ok_def or_empty_def payload_bytes_def limit_defs word_le_nat_alt)
qed

lemma text_message_ok: "length symb \<le> 64 \<Longrightarrow> length payload \<le> 4096 \<Longrightarrow> message_ok (text_message symb payload)"
  unfolding text_message_def by (rule text_ok) (simp_all add: strlen_le c_string_def c_bytes_def)

lemma syms_length: "i < 3 \<Longrightarrow> length (syms ! i) \<le> 64"
  by (auto simp: syms_def c_string_def c_bytes_def less_Suc_eq numeral_3_eq_3)

lemma messages_ok:
  "m \<in> set spsc_messages \<Longrightarrow> message_ok m" "m \<in> set (venue_main v) \<Longrightarrow> message_ok m" "m \<in> set venue_reader \<Longrightarrow> message_ok m"
  by (auto simp: spsc_messages_def venue_main_def venue_reader_def snprintf_length intro!: text_message_ok syms_length)

lemma submitter_ok: "m \<in> set (pool_submitter k) \<Longrightarrow> message_ok m"
  by (auto simp: pool_submitter_def snprintf_length c_string_def c_bytes_def intro!: text_ok)

lemma messages_length:
  "length spsc_messages = 12" "length (venue_main v) = 6" "length venue_reader = 10" "length (pool_submitter k) = 10"
  by (simp_all add: spsc_messages_def venue_main_def venue_reader_def pool_submitter_def)

lemma interleaved_ok:
  assumes "ms \<in> interleavings xss" and "\<And>xs m. xs \<in> set xss \<Longrightarrow> m \<in> set xs \<Longrightarrow> message_ok m"
    and "\<And>xs. xs \<in> set xss \<Longrightarrow> length xs = n"
  shows "(\<forall>m \<in> set ms. message_ok m) \<and> length ms = length xss * n"
proof -
  have "sum_list (map length xss) = length xss * n" using assms(3) by (induction xss) auto
  then show ?thesis using interleavings_set [OF assms(1)] interleavings_length [OF assms(1)] assms(2) by auto
qed

lemma pool_program_messages:
  assumes "pool_program c ms expect" shows "(\<forall>m \<in> set ms. message_ok m) \<and> length ms = expect \<and> expect \<le> 64"
proof -
  consider "ms = spsc_messages" "expect = 12" | "ms \<in> interleavings (map venue_main [0..<3])" "expect = 18"
    | "ms \<in> interleavings [venue_reader, venue_reader]" "expect = 20" | "ms \<in> interleavings (map pool_submitter [0..<4])" "expect = 40"
    using assms unfolding pool_program_def by blast
  then show ?thesis
  proof cases
    case 1
    then show ?thesis by (simp add: messages_ok messages_length)
  next
    case 2
    have "(\<forall>m \<in> set ms. message_ok m) \<and> length ms = length (map venue_main [0..<3]) * 6"
      by (rule interleaved_ok [OF 2(1)]) (auto simp: messages_ok messages_length)
    then show ?thesis using 2(2) by simp
  next
    case 3
    have "(\<forall>m \<in> set ms. message_ok m) \<and> length ms = length ([venue_reader, venue_reader]) * 10"
      by (rule interleaved_ok [OF 3(1)]) (auto simp: messages_ok messages_length)
    then show ?thesis using 3(2) by simp
  next
    case 4
    have "(\<forall>m \<in> set ms. message_ok m) \<and> length ms = length (map pool_submitter [0..<4]) * 10"
      by (rule interleaved_ok [OF 4(1)]) (auto simp: submitter_ok messages_length)
    then show ?thesis using 4(2) by simp
  qed
qed

lemma pool_program_config:
  assumes "pool_program c ms expect" shows "valid_config c" and "few_feeds c" and "queue_capacity c = 64"
proof -
  have k: "awp_round_up_pow2 64 \<noteq> 0" by (rule round_up_pow2_small) simp_all
  consider c0 where "c = spsc_config c0" | c0 where "c = mpsc_config c0" | c0 where "c = publish_config c0"
    | c0 where "c = demo_pool_config c0" using assms unfolding pool_program_def by blast
  then have "valid_config c \<and> few_feeds c \<and> queue_capacity c = 64"
    by cases (use k in \<open>simp_all add: valid_config_def few_feeds_def spsc_config_def mpsc_config_def publish_config_def
        demo_pool_config_def awp_config_init_def\<close>)
  then show "valid_config c" "few_feeds c" "queue_capacity c = 64" by auto
qed

section \<open>All of them are processed\<close>

lemma filter_partition:
  assumes "\<And>m. f m < (n :: nat)"
  shows "(\<Sum>i<n. length (filter (\<lambda>m. f m = i) ms)) = length ms"
proof (induction ms)
  case (Cons m ms)
  have "(\<Sum>i<n. length (filter (\<lambda>m. f m = i) (m # ms))) = (\<Sum>i<n. (if f m = i then 1 else 0) + length (filter (\<lambda>m. f m = i) ms))"
    by (rule sum.cong) auto
  also have "\<dots> = 1 + length ms" using assms [of m] Cons by (simp add: sum.distrib)
  finally show ?case by simp
qed simp



end
