(* ===== verification/Bench_Stats.thy ===== *)
theory Bench_Stats
  imports Awp_Prelude "HOL-Library.Multiset"
begin

text \<open>
  The measuring helpers of \<open>bench/bench_common.h\<close>: the payload checksum in its scalar and in its
  vector form, and the latency percentiles. A \<open>double\<close> is a value of the type \<open>'d\<close>: the conversion
  from \<open>uint64_t\<close> and the division of doubles are arguments, and what is used of the conversion is
  that it is monotone. \<open>qsort\<close> is a sort by the comparison function it is given.
\<close>

section \<open>The checksum\<close>

text \<open>\<open>for (i = 0; i < 64; i++) sum += ptr[i]\<close>.\<close>

definition fast_sum_scalar :: "u8 list \<Rightarrow> u32" where
  "fast_sum_scalar ptr = foldl (\<lambda>sum i. sum + ucast (ptr ! i)) 0 [0..<64]"

text \<open>The vector instructions: a load of 16 bytes; the pairwise sum of bytes into eight 16-bit lanes;
  the same added to an accumulator; the sum across the lanes.\<close>

definition vld1q_u8 :: "u8 list \<Rightarrow> nat \<Rightarrow> u8 list" where
  "vld1q_u8 ptr k = map (\<lambda>i. ptr ! (k + i)) [0..<16]"

definition vpaddlq_u8 :: "u8 list \<Rightarrow> 16 word list" where
  "vpaddlq_u8 v = map (\<lambda>i. ucast (v ! (2 * i)) + ucast (v ! (2 * i + 1))) [0..<8]"

definition vpadalq_u8 :: "16 word list \<Rightarrow> u8 list \<Rightarrow> 16 word list" where
  "vpadalq_u8 a v = map (\<lambda>i. a ! i + (ucast (v ! (2 * i)) + ucast (v ! (2 * i + 1)))) [0..<8]"

definition vaddlvq_u16 :: "16 word list \<Rightarrow> u32" where
  "vaddlvq_u16 a = foldl (\<lambda>s x. s + ucast x) 0 a"

definition fast_sum_neon :: "u8 list \<Rightarrow> u32" where
  "fast_sum_neon ptr =
     (let v0 = vld1q_u8 ptr 0; v1 = vld1q_u8 ptr 16; v2 = vld1q_u8 ptr 32; v3 = vld1q_u8 ptr 48;
          s0 = vpaddlq_u8 v0; s1 = vpadalq_u8 s0 v1; s2 = vpadalq_u8 s1 v2; s3 = vpadalq_u8 s2 v3
      in vaddlvq_u16 s3)"

definition bench_fast_sum_64 :: "bool \<Rightarrow> u8 list \<Rightarrow> u32" where
  "bench_fast_sum_64 arm_neon ptr = (if arm_neon then fast_sum_neon ptr else fast_sum_scalar ptr)"

section \<open>Percentiles\<close>

definition bench_cmp_u64 :: "u64 \<Rightarrow> u64 \<Rightarrow> int" where
  "bench_cmp_u64 x y = of_bool (x > y) - of_bool (x < y)"

record 'd bench_percentiles =
  min_ns :: 'd
  p50_ns :: 'd
  p90_ns :: 'd
  p99_ns :: 'd
  p999_ns :: 'd
  p9999_ns :: 'd
  max_ns :: 'd
  mean_ns :: 'd

text \<open>\<open>memset(&p, 0, sizeof(p))\<close>.\<close>

definition zero_percentiles :: "'d::zero bench_percentiles" where
  "zero_percentiles =
     \<lparr>min_ns = 0, p50_ns = 0, p90_ns = 0, p99_ns = 0, p999_ns = 0, p9999_ns = 0, max_ns = 0, mean_ns = 0\<rparr>"

text \<open>The \<open>qsort\<close> of the C library on the first \<open>n\<close> elements of an array.\<close>

fun insert_by :: "('a \<Rightarrow> 'a \<Rightarrow> int) \<Rightarrow> 'a \<Rightarrow> 'a list \<Rightarrow> 'a list" where
  "insert_by cmp x [] = [x]"
| "insert_by cmp x (y # ys) = (if cmp x y \<le> 0 then x # y # ys else y # insert_by cmp x ys)"

definition qsort :: "('a \<Rightarrow> 'a \<Rightarrow> int) \<Rightarrow> 'a list \<Rightarrow> nat \<Rightarrow> 'a list" where
  "qsort cmp xs n = foldr (insert_by cmp) (take n xs) [] @ drop n xs"

text \<open>The result and the array afterwards (\<open>None\<close> is the null pointer).\<close>

definition bench_calc_percentiles ::
  "(u64 \<Rightarrow> 'd::zero) \<Rightarrow> ('d \<Rightarrow> 'd \<Rightarrow> 'd) \<Rightarrow> u64 list option \<Rightarrow> u64
     \<Rightarrow> 'd bench_percentiles \<times> u64 list option" where
  "bench_calc_percentiles dbl fdiv so n =
     (case so of
        None \<Rightarrow> (zero_percentiles, None)
      | Some samples \<Rightarrow>
          if n = 0 then (zero_percentiles, Some samples)
          else
            let samples = qsort bench_cmp_u64 samples (unat n);
                sum = foldl (\<lambda>sum i. sum + samples ! i) 0 [0..<unat n]
            in (\<lparr>min_ns = dbl (samples ! 0),
                 p50_ns = dbl (samples ! unat (n * 50 div 100)),
                 p90_ns = dbl (samples ! unat (n * 90 div 100)),
                 p99_ns = dbl (samples ! unat (n * 99 div 100)),
                 p999_ns = dbl (samples ! unat (if n > 1000 then n * 999 div 1000 else n - 1)),
                 p9999_ns = dbl (samples ! unat (if n > 10000 then n * 9999 div 10000 else n - 1)),
                 max_ns = dbl (samples ! unat (n - 1)),
                 mean_ns = fdiv (dbl sum) (dbl n)\<rparr>, Some samples))"

section \<open>The two checksums agree\<close>

lemma ucast_byte: "(ucast (b :: u8) :: 'a::len word) = of_nat (unat b)"
  by (metis of_nat_unat)

lemma foldl_of_nat: "foldl (\<lambda>s y. s + of_nat (f y)) (of_nat a) ys = (of_nat (a + sum_list (map f ys)) :: 'a::len word)"
proof (induction ys arbitrary: a)
  case (Cons y ys)
  then show ?case using Cons [of "a + f y"] by (simp add: add.assoc)
qed simp

lemma fast_sum_scalar_sum: "fast_sum_scalar ptr = of_nat (\<Sum>i\<leftarrow>[0..<64]. unat (ptr ! i))"
  unfolding fast_sum_scalar_def ucast_byte
  using foldl_of_nat [of "\<lambda>i. unat (ptr ! i)" 0 "[0..<64]", where 'a = 32] by (simp only: semiring_1_class.of_nat_0 add_0)

text \<open>What a 16-bit lane holds: the sum of eight bytes, which does not overflow.\<close>

definition lane :: "u8 list \<Rightarrow> nat \<Rightarrow> nat" where
  "lane ptr j = (\<Sum>k\<leftarrow>[0, 16, 32, 48]. unat (ptr ! (k + 2 * j)) + unat (ptr ! (k + (2 * j + 1))))"

lemma byte_le: "unat (b :: u8) \<le> 255"
  using unsigned_less [of b, where 'a = nat] by simp

lemma lane_le: "lane ptr j \<le> 2040"
proof -
  have "unat (ptr ! (k + 2 * j)) + unat (ptr ! (k + (2 * j + 1))) \<le> 510" for k
    using byte_le [of "ptr ! (k + 2 * j)"] byte_le [of "ptr ! (k + (2 * j + 1))"] by linarith
  from this [of 0] this [of 16] this [of 32] this [of 48] show ?thesis by (simp add: lane_def)
qed

lemma fast_sum_neon_sum: "fast_sum_neon ptr = of_nat (\<Sum>j\<leftarrow>[0..<8]. lane ptr j)"
proof -
  let ?v = "\<lambda>k. vld1q_u8 ptr k"
  have v: "?v k ! (2 * j) = ptr ! (k + 2 * j)" "?v k ! Suc (2 * j) = ptr ! (k + (2 * j + 1))" if "j < 8" for k j
    using that by (simp_all add: vld1q_u8_def)
  have "vpadalq_u8 (vpadalq_u8 (vpadalq_u8 (vpaddlq_u8 (?v 0)) (?v 16)) (?v 32)) (?v 48) = map (\<lambda>j. of_nat (lane ptr j)) [0..<8]"
    by (rule nth_equalityI) (auto simp: vpadalq_u8_def vpaddlq_u8_def v lane_def)
  moreover have "ucast (of_nat (lane ptr j) :: 16 word) = (of_nat (lane ptr j) :: u32)" for j
    using lane_le [of ptr j] by (simp add: unsigned_of_nat take_bit_nat_eq_self)
  ultimately show ?thesis
    using foldl_of_nat [of "lane ptr" 0 "[0..<8]"]
    by (simp add: fast_sum_neon_def Let_def vaddlvq_u16_def foldl_map)
qed

lemma lanes_total: "(\<Sum>j\<leftarrow>[0..<8]. lane ptr j) = (\<Sum>i\<leftarrow>[0..<64]. unat (ptr ! i))"
  by (simp add: lane_def upt_rec flip: numeral_2_eq_2)

lemma sum_list_le: "(\<And>x. x \<in> set xs \<Longrightarrow> f x \<le> (b :: nat)) \<Longrightarrow> sum_list (map f xs) \<le> b * length xs"
  by (induction xs) (auto simp: add_mono)

text \<open>C37. The vector checksum is the scalar one: on every 64-byte payload the NEON code and the portable
  loop of \<open>bench_fast_sum_64\<close> return the same value, the sum of the bytes, which no lane and no
  accumulator overflows.\<close>

theorem bench_fast_sum_64_agrees:
  "bench_fast_sum_64 True ptr = bench_fast_sum_64 False ptr
     \<and> unat (bench_fast_sum_64 b ptr) = (\<Sum>i\<leftarrow>[0..<64]. unat (ptr ! i)) \<and> unat (bench_fast_sum_64 b ptr) \<le> 16320"
proof -
  let ?S = "\<Sum>i\<leftarrow>[0..<64]. unat (ptr ! i)"
  have e: "bench_fast_sum_64 c ptr = of_nat ?S" for c
    by (cases c) (simp_all only: bench_fast_sum_64_def if_True if_False fast_sum_neon_sum fast_sum_scalar_sum lanes_total)
  have l: "?S \<le> 16320" using sum_list_le [of "[0..<64]" "\<lambda>i. unat (ptr ! i)" 255] byte_le by (simp)
  then have "unat (of_nat ?S :: u32) = ?S" by (simp add: unat_of_nat take_bit_nat_eq_self)
  then show ?thesis using e l by simp
qed

section \<open>The percentiles\<close>

lemma bench_cmp_u64_le [simp]: "bench_cmp_u64 x y \<le> 0 \<longleftrightarrow> x \<le> y"
  by (auto simp: bench_cmp_u64_def not_less)

lemma insert_by_insort: "insert_by bench_cmp_u64 x xs = insort x xs"
  by (induction xs) auto

lemma qsort_sort: "qsort bench_cmp_u64 xs n = sort (take n xs) @ drop n xs"
proof -
  have "foldr (insert_by bench_cmp_u64) ys [] = sort ys" for ys
    by (induction ys) (simp_all add: insert_by_insort)
  then show ?thesis by (simp add: qsort_def)
qed

lemma unat_mult_div:
  "unat n * a < 2 ^ 64 \<Longrightarrow> a < 2 ^ 64 \<Longrightarrow> b < 2 ^ 64 \<Longrightarrow> unat ((n :: u64) * of_nat a div of_nat b) = unat n * a div b"
  by (simp add: unat_div_distrib unat_word_ariths)

text \<open>Where the percentile indices fall: in the range, and in this order.\<close>

lemma percentile_indices:
  fixes n :: u64
  assumes n: "n \<noteq> 0" and b: "unat n * 9999 < 2 ^ 64"
  defines "k \<equiv> unat n"
  defines "i50 \<equiv> unat (n * 50 div 100)" and "i90 \<equiv> unat (n * 90 div 100)" and "i99 \<equiv> unat (n * 99 div 100)"
    and "i999 \<equiv> unat (if n > 1000 then n * 999 div 1000 else n - 1)"
    and "i9999 \<equiv> unat (if n > 10000 then n * 9999 div 10000 else n - 1)"
  shows "i50 = k * 50 div 100" "i90 = k * 90 div 100" "i99 = k * 99 div 100"
    "i50 \<le> i90" "i90 \<le> i99" "i99 \<le> i999" "i999 \<le> i9999" "i9999 \<le> k - 1" "unat (n - 1) = k - 1" "k - 1 < k"
proof -
  have pos: "0 < k" using n by (simp add: k_def unat_gt_0)
  have m: "unat (n - 1) = k - 1" using n by (simp add: k_def unat_minus_one)
  have e: "unat (n * 50 div 100) = k * 50 div 100" "unat (n * 90 div 100) = k * 90 div 100"
      "unat (n * 99 div 100) = k * 99 div 100" "unat (n * 999 div 1000) = k * 999 div 1000"
      "unat (n * 9999 div 10000) = k * 9999 div 10000"
    using unat_mult_div [of n 50 100] unat_mult_div [of n 90 100] unat_mult_div [of n 99 100]
      unat_mult_div [of n 999 1000] unat_mult_div [of n 9999 10000] b by (simp_all add: k_def)
  have g: "n > 1000 \<longleftrightarrow> k > 1000" "n > 10000 \<longleftrightarrow> k > 10000" by (simp_all add: k_def word_less_nat_alt)
  note d = i50_def i90_def i99_def i999_def i9999_def
  show "i50 = k * 50 div 100" "i90 = k * 90 div 100" "i99 = k * 99 div 100" by (simp_all add: d e)
  show "i50 \<le> i90" "i90 \<le> i99" unfolding d e by linarith+
  have i: "i999 = (if k > 1000 then k * 999 div 1000 else k - 1)" "i9999 = (if k > 10000 then k * 9999 div 10000 else k - 1)"
    by (simp_all only: d g e m if_distrib [of unat])
  show "i99 \<le> i999" "i999 \<le> i9999" "i9999 \<le> k - 1"
    using pos by (simp_all add: i i99_def e; linarith)+
  show "unat (n - 1) = k - 1" "k - 1 < k" using pos by (simp_all add: m)
qed

lemma sorted_pick:
  assumes "mono f" "sorted is" "\<forall>i\<in>set is. i < length xs"
  shows "sorted (map (\<lambda>i. f ((sort xs @ ys) ! i)) is)" "set (map (\<lambda>i. f ((sort xs @ ys) ! i)) is) \<subseteq> f ` set xs"
proof -
  have e: "(sort xs @ ys) ! i = sort xs ! i" if "i \<in> set is" for i using that assms(3) by (simp add: nth_append)
  have "i \<le> j \<Longrightarrow> j \<in> set is \<Longrightarrow> f (sort xs ! i) \<le> f (sort xs ! j)" for i j
    using assms(3) by (intro monoD [OF assms(1)] sorted_nth_mono) auto
  then show "sorted (map (\<lambda>i. f ((sort xs @ ys) ! i)) is)"
    using assms(2) e by (simp add: sorted_map cong: map_cong) (auto elim!: sorted_wrt_mono_rel [rotated] simp: e)
  show "set (map (\<lambda>i. f ((sort xs @ ys) ! i)) is) \<subseteq> f ` set xs"
    using assms(3) e by (auto intro!: imageI) (metis length_sort nth_mem set_sort)
qed

text \<open>The latency percentiles are samples of the array, and in order: for a count whose products do not
  wrap, \<open>bench_calc_percentiles\<close> sorts the first \<open>count\<close> samples in place, every percentile is one of
  them (no read falls outside), and min, p50, p90, p99, p99.9, p99.99 and max ascend.\<close>

theorem bench_percentiles_ordered:
  fixes dbl :: "u64 \<Rightarrow> 'd::{linorder, zero}"
  assumes "mono dbl" and "n \<noteq> 0" and "unat n \<le> length samples" and "unat n * 9999 < 2 ^ 64"
    and "bench_calc_percentiles dbl fdiv (Some samples) n = (p, out)"
  shows "out = Some (sort (take (unat n) samples) @ drop (unat n) samples)
      \<and> sorted [min_ns p, p50_ns p, p90_ns p, p99_ns p, p999_ns p, p9999_ns p, max_ns p]
      \<and> {min_ns p, p50_ns p, p90_ns p, p99_ns p, p999_ns p, p9999_ns p, max_ns p} \<subseteq> dbl ` set (take (unat n) samples)"
proof -
  let ?f = "\<lambda>i. dbl ((sort (take (unat n) samples) @ drop (unat n) samples) ! i)"
  let ?is = "[0, unat (n * 50 div 100), unat (n * 90 div 100), unat (n * 99 div 100),
    unat (if n > 1000 then n * 999 div 1000 else n - 1), unat (if n > 10000 then n * 9999 div 10000 else n - 1), unat (n - 1)]"
  note i = percentile_indices [OF assms(2,4)]
  have s: "sorted ?is" using i(4-9) by (simp only: sorted2_simps sorted_simps list.set ball_simps) auto
  have "\<forall>i\<in>set ?is. i < length (take (unat n) samples)" using i(4-10) assms(3)
    by (simp only: length_take min_absorb2 list.set ball_simps) (intro conjI TrueI; linarith)
  note q = sorted_pick [OF assms(1) s this, of "drop (unat n) samples"]
  have out: "out = Some (sort (take (unat n) samples) @ drop (unat n) samples)"
    and p: "[min_ns p, p50_ns p, p90_ns p, p99_ns p, p999_ns p, p9999_ns p, max_ns p] = map ?f ?is"
    using assms(2,5) by (auto simp: bench_calc_percentiles_def qsort_sort Let_def)
  show ?thesis using out q unfolding p [symmetric] by (simp only: list.set simp_thms)
qed

theorem bench_percentiles_ordered_witness:
  "mono (unat :: u64 \<Rightarrow> nat) \<and> sorted [1 :: nat, 3, 7, 7, 7, 7, 7] \<and> bench_calc_percentiles unat (div) (Some [7, 1, 3]) 3 =
     (\<lparr>min_ns = 1, p50_ns = 3, p90_ns = 7, p99_ns = 7, p999_ns = 7, p9999_ns = 7, max_ns = 7, mean_ns = 3\<rparr>, Some [1, 3, 7])"
proof -
  have m: "mono (unat :: u64 \<Rightarrow> nat)" by (simp add: mono_def word_le_nat_alt)
  have e: "bench_calc_percentiles unat (div) (Some [7, 1, 3]) 3 =
     (\<lparr>min_ns = 1, p50_ns = 3, p90_ns = 7, p99_ns = 7, p999_ns = 7, p9999_ns = 7, max_ns = 7, mean_ns = 3\<rparr>, Some [1, 3, 7])"
    by code_simp
  then show ?thesis using m bench_percentiles_ordered [OF m _ _ _ e] by simp
qed

end
