(* ===== verification/Bench_Programs.thy ===== *)
theory Bench_Programs
  imports Bench_Stats Awp_Types "HOL-Library.Signed_Division"
begin

text \<open>
  What the benchmark programs compute around their measurements: how they divide messages among
  threads (\<open>bench_all_modes.c\<close>, \<open>bench_contention.c\<close>, \<open>bench_ring.c\<close>), how they read the mode argument,
  and how the callback of \<open>bench_dispatch.c\<close> records latencies while several workers run it at
  the same time.
\<close>

section \<open>Dividing the work\<close>

text \<open>\<open>pa[i].start\<close> and \<open>pa[i].end\<close> in \<open>run_one\<close> of \<open>bench_all_modes.c\<close>.\<close>

definition all_modes_range :: "int \<Rightarrow> int \<Rightarrow> int \<Rightarrow> int \<times> int" where
  "all_modes_range n_msgs n_prod i =
     (let chunk = n_msgs sdiv n_prod
      in (i * chunk, if i = n_prod - 1 then n_msgs else (i + 1) * chunk))"

text \<open>\<open>pworkers[i].n_msgs\<close> in \<open>test_producers\<close> of \<open>bench_contention.c\<close>.\<close>

definition contention_share :: "int \<Rightarrow> int \<Rightarrow> int \<Rightarrow> int" where
  "contention_share total_msgs n_prods i =
     (let chunk = total_msgs sdiv n_prods in if i = n_prods - 1 then total_msgs - i * chunk else chunk)"

text \<open>The numbers of threads and \<open>ca[i].n\<close>, \<open>pa[i].n\<close> in \<open>run_mode\<close> of \<open>bench_ring.c\<close>.\<close>

definition ring_threads :: "awp_ring_mode \<Rightarrow> int \<times> int" where
  "ring_threads m =
     (if m = AWP_RING_SPSC \<or> m = AWP_RING_SPMC then 1 else 4, if m = AWP_RING_SPSC \<or> m = AWP_RING_MPSC then 1 else 4)"

definition ring_share :: "int \<Rightarrow> int \<Rightarrow> int \<Rightarrow> int" where
  "ring_share ops n i = (let per = ops sdiv n in if i = n - 1 then ops - per * (n - 1) else per)"

lemma sdiv_nonneg: "0 \<le> a \<Longrightarrow> 0 < b \<Longrightarrow> a sdiv b = a div (b :: int)"
  by (cases "a = 0") (simp_all add: signed_divide_int_def)

lemma chunk_le: "0 < k \<Longrightarrow> k * (n div k) \<le> (n :: int)"
  using mult_div_mod_eq [of k n] pos_mod_sign [of k n] by linarith

lemma shares_agree: "ring_share n k i = contention_share n k i"
  by (auto simp: ring_share_def contention_share_def Let_def)

lemma sum_shares:
  assumes "0 < k" shows "(\<Sum>i<k. contention_share n (int k) (int i)) = n"
proof -
  obtain m where k: "k = Suc m" using assms by (cases k) auto
  have "(\<Sum>i<m. contention_share n (int k) (int i)) = (\<Sum>i<m. n sdiv int k)"
    by (rule sum.cong) (auto simp: contention_share_def Let_def k)
  then show ?thesis by (simp add: k contention_share_def Let_def)
qed

text \<open>The ranges, with the chunk written out; each message is in exactly one.\<close>

lemma range_bounds:
  assumes "0 \<le> n" and "0 < k"
  shows "all_modes_range n (int k) (int i) = (int i * (n div int k), if i = k - 1 then n else (int i + 1) * (n div int k))"
proof -
  have "int i = int k - 1 \<longleftrightarrow> i = k - 1" using assms(2) by linarith
  then show ?thesis using assms sdiv_nonneg [of n "int k"] by (simp add: all_modes_range_def Let_def)
qed

lemma range_owner:
  fixes x d :: int
  assumes "0 \<le> d" and "i < k" and "int i * d \<le> x" and "x < (if i = k - 1 then n else (int i + 1) * d)"
  shows "i = (if x < int (k - 1) * d then nat (x div d) else k - 1)"
proof (cases "i = k - 1")
  case False
  then have x: "int i * d \<le> x" "x < (int i + 1) * d" using assms(3,4) by auto
  then have "0 < d" using assms(1) by (cases "d = 0") auto
  then have "x div d = int i" using x int_div_pos_eq [of x d "int i" "x - int i * d"] by (simp add: algebra_simps)
  moreover have "(int i + 1) * d \<le> int (k - 1) * d" using assms(1,2) False by (intro mult_right_mono) auto
  ultimately show ?thesis using x by auto
qed (use assms(3) in auto)

lemma range_exists:
  fixes x d :: int
  assumes "0 \<le> d" and "0 < k" and "0 \<le> x" and "x < n"
  shows "\<exists>i<k. int i * d \<le> x \<and> x < (if i = k - 1 then n else (int i + 1) * d)"
proof (cases "x < int (k - 1) * d")
  case True
  then have d: "0 < d" using assms(1,3) by (cases "d = 0") auto
  let ?i = "nat (x div d)"
  have i: "int ?i = x div d" using assms(3) d by (simp add: pos_imp_zdiv_nonneg_iff)
  have "x div d < int (k - 1)" using True d int_div_less_self div_mult_mod_eq [of x d] pos_mod_sign [of d x]
    by (smt (verit) mult_less_cancel_right)
  then have "?i < k - 1" using i by linarith
  moreover have "int ?i * d \<le> x" "x < (int ?i + 1) * d"
    using div_mult_mod_eq [of x d] pos_mod_bound [OF d, of x] pos_mod_sign [OF d, of x] unfolding i distrib_right by linarith+
  ultimately show ?thesis by (intro exI [of _ ?i]) auto
next
  case False
  then show ?thesis using assms(2,4) by (intro exI [of _ "k - 1"]) auto
qed

text \<open>No message is lost or sent twice by the way the benchmarks divide them: the ranges of
  \<open>bench_all_modes\<close> are disjoint and cover all messages, and the shares of producers and consumers
  in \<open>bench_contention\<close> and \<open>bench_ring\<close> add up to the total and are not negative.\<close>

theorem bench_shares_exact:
  assumes "0 \<le> n" and "0 < k"
  shows "(\<forall>x. 0 \<le> x \<and> x < n \<longleftrightarrow> (\<exists>!i. i < k \<and> (case all_modes_range n (int k) (int i) of (a, b) \<Rightarrow> a \<le> x \<and> x < b)))
    \<and> (\<Sum>i<k. contention_share n (int k) (int i)) = n \<and> (\<Sum>i<k. ring_share n (int k) (int i)) = n
    \<and> (\<forall>i<k. 0 \<le> contention_share n (int k) (int i))"
proof (intro conjI allI impI)
  let ?d = "n div int k"
  have d: "0 \<le> ?d" and kd: "int k * ?d \<le> n" using assms by (simp_all add: pos_imp_zdiv_nonneg_iff chunk_le)
  let ?in = "\<lambda>i x. int i * ?d \<le> x \<and> x < (if i = k - 1 then n else (int i + 1) * ?d)"
  have r: "(case all_modes_range n (int k) (int i) of (a, b) \<Rightarrow> a \<le> x \<and> x < b) \<longleftrightarrow> ?in i x" for i x
    by (simp only: range_bounds [OF assms] prod.case)
  fix x
  have "0 \<le> x \<and> x < n" if i: "i < k" "?in i x" for i
  proof -
    have "(int i + 1) * ?d \<le> int k * ?d" using d i(1) by (intro mult_right_mono) auto
    moreover have "0 \<le> int i * ?d" using d by simp
    ultimately show ?thesis using i(2) kd by (auto split: if_splits)
  qed
  then show "0 \<le> x \<and> x < n \<longleftrightarrow> (\<exists>!i. i < k \<and> (case all_modes_range n (int k) (int i) of (a, b) \<Rightarrow> a \<le> x \<and> x < b))"
    unfolding r using range_exists [OF d assms(2)] range_owner [OF d] by metis
next
  show "(\<Sum>i<k. contention_share n (int k) (int i)) = n" "(\<Sum>i<k. ring_share n (int k) (int i)) = n"
    using sum_shares [OF assms(2)] by (simp_all add: shares_agree)
next
  fix i assume "i < k"
  have "(int k - 1) * (n div int k) \<le> int k * (n div int k)" using assms by (intro mult_right_mono) (simp_all add: pos_imp_zdiv_nonneg_iff)
  also have "\<dots> \<le> n" using assms by (simp add: chunk_le)
  finally show "0 \<le> contention_share n (int k) (int i)"
    using assms sdiv_nonneg [of n "int k"] by (auto simp: contention_share_def Let_def pos_imp_zdiv_nonneg_iff)
qed

theorem bench_shares_exact_witness:
  "(\<Sum>i<4. contention_share 10 4 (int i)) = 10 \<and> (\<exists>!i. i < 4 \<and> (case all_modes_range 10 4 (int i) of (a, b) \<Rightarrow> a \<le> 7 \<and> 7 < b))"
proof -
  have "0 \<le> (10 :: int)" "0 < (4 :: nat)" by simp_all
  note B = bench_shares_exact [OF this]
  show ?thesis using spec [OF conjunct1 [OF B], of 7] conjunct1 [OF conjunct2 [OF B]] by simp
qed

section \<open>The mode argument\<close>

definition mode_name :: "awp_ring_mode \<Rightarrow> u8 list" where
  "mode_name m =
     c_bytes (case m of AWP_RING_SPSC \<Rightarrow> ''SPSC'' | AWP_RING_MPSC \<Rightarrow> ''MPSC'' | AWP_RING_SPMC \<Rightarrow> ''SPMC''
              | AWP_RING_MPMC \<Rightarrow> ''MPMC'' | AWP_RING_OTHER \<Rightarrow> ''?'')"

text \<open>\<open>parse_mode\<close> of \<open>bench_all_modes.c\<close>: the result and what it stores.\<close>

definition parse_mode :: "cstr option \<Rightarrow> int \<times> awp_ring_mode option" where
  "parse_mode so =
     (case so of
        None \<Rightarrow> (1, None)
      | Some s \<Rightarrow>
          if content s = c_bytes ''all'' then (1, None)
          else if content s = c_bytes ''spsc'' then (0, Some AWP_RING_SPSC)
          else if content s = c_bytes ''mpsc'' then (0, Some AWP_RING_MPSC)
          else if content s = c_bytes ''spmc'' then (0, Some AWP_RING_SPMC)
          else if content s = c_bytes ''mpmc'' then (0, Some AWP_RING_MPMC)
          else (- 1, None))"

text \<open>The selection in \<open>main\<close> of \<open>bench_ring.c\<close>: is the mode run for this argument?\<close>

definition ring_selected :: "cstr \<Rightarrow> awp_ring_mode \<Rightarrow> bool" where
  "ring_selected sel m =
     (content sel = c_bytes ''all''
      \<or> (let want = mode_name m; lower = map (\<lambda>c. c OR 0x20) (take 7 want) in content sel = lower \<or> content sel = want))"

definition all_modes :: "awp_ring_mode list" where
  "all_modes = [AWP_RING_SPSC, AWP_RING_MPSC, AWP_RING_SPMC, AWP_RING_MPMC]"

text \<open>The names of the modes are read back: the name of each mode, in lower case, is parsed as that mode
  by \<open>bench_all_modes\<close>, and in either case selects exactly that mode in \<open>bench_ring\<close>.\<close>

theorem mode_names_roundtrip:
  assumes "m \<in> set all_modes" and "m' \<in> set all_modes"
  shows "parse_mode (Some (map (\<lambda>c. c OR 0x20) (mode_name m) @ [0])) = (0, Some m)
    \<and> (ring_selected (map (\<lambda>c. c OR 0x20) (mode_name m) @ [0]) m' \<longleftrightarrow> m' = m)
    \<and> (ring_selected (mode_name m @ [0]) m' \<longleftrightarrow> m' = m)"
proof -
  have "m = AWP_RING_SPSC \<or> m = AWP_RING_MPSC \<or> m = AWP_RING_SPMC \<or> m = AWP_RING_MPMC"
    "m' = AWP_RING_SPSC \<or> m' = AWP_RING_MPSC \<or> m' = AWP_RING_SPMC \<or> m' = AWP_RING_MPMC"
    using assms by (auto simp: all_modes_def)
  then show ?thesis
    by (elim disjE) (simp_all add: parse_mode_def ring_selected_def mode_name_def c_bytes_def content_def Let_def)
qed

theorem mode_names_roundtrip_witness:
  "parse_mode (Some (map (\<lambda>c. c OR 0x20) (mode_name AWP_RING_MPSC) @ [0])) = (0, Some AWP_RING_MPSC)"
  using mode_names_roundtrip [of AWP_RING_MPSC AWP_RING_MPSC] by (simp add: all_modes_def)

section \<open>Recording latencies\<close>

text \<open>\<open>bench_process\<close> of \<open>bench_dispatch.c\<close>, run by any number of workers at once, one step per access to
  the shared counters and to the buffer. Next to them the state keeps the latencies in the order in
  which their index was taken, and the sum of the checksums without wrap-around.\<close>

datatype bpc = BIdle | BSum awp_frame | BTake u64 | BStore u64 u64 | BCount

record bench =
  g_lat_ns :: "u64 list"
  g_lat_count :: u64
  g_done :: u64
  g_checksum_acc :: u64
  b_pc :: "nat \<Rightarrow> bpc"
  b_log :: "u64 list"
  b_sum :: nat

text \<open>\<open>now\<close> is the clock; the buffer has \<open>g_max_lat\<close> elements.\<close>

definition bench_process :: "bool \<Rightarrow> u64 \<Rightarrow> nat \<Rightarrow> bench \<Rightarrow> bench" where
  "bench_process neon now t s =
     (case b_pc s t of
        BSum frame \<Rightarrow>
          let csum = bench_fast_sum_64 neon (f_payload frame)
          in s\<lparr>g_checksum_acc := g_checksum_acc s + ucast csum, b_sum := b_sum s + unat csum,
               b_pc := (b_pc s)(t := BTake (now - f_submit_ns frame))\<rparr>
      | BTake dt \<Rightarrow>
          s\<lparr>g_lat_count := g_lat_count s + 1, b_log := b_log s @ [dt], b_pc := (b_pc s)(t := BStore (g_lat_count s) dt)\<rparr>
      | BStore n dt \<Rightarrow>
          s\<lparr>g_lat_ns := (if n < of_nat (length (g_lat_ns s)) then (g_lat_ns s)[unat n := dt] else g_lat_ns s),
            b_pc := (b_pc s)(t := BCount)\<rparr>
      | BCount \<Rightarrow> s\<lparr>g_done := g_done s + 1, b_pc := (b_pc s)(t := BIdle)\<rparr>
      | BIdle \<Rightarrow> s)"

definition bench_init :: "u64 list \<Rightarrow> bench" where
  "bench_init buf =
     \<lparr>g_lat_ns = buf, g_lat_count = 0, g_done = 0, g_checksum_acc = 0, b_pc = (\<lambda>_. BIdle), b_log = [], b_sum = 0\<rparr>"

inductive bench_reach :: "bool \<Rightarrow> nat \<Rightarrow> u64 list \<Rightarrow> bench \<Rightarrow> bool" for neon n_workers buf where
  start: "bench_reach neon n_workers buf (bench_init buf)"
| call: "bench_reach neon n_workers buf s \<Longrightarrow> t < n_workers \<Longrightarrow> b_pc s t = BIdle \<Longrightarrow>
    bench_reach neon n_workers buf (s\<lparr>b_pc := (b_pc s)(t := BSum frame)\<rparr>)"
| step: "bench_reach neon n_workers buf s \<Longrightarrow> t < n_workers \<Longrightarrow> bench_reach neon n_workers buf (bench_process neon now t s)"

text \<open>Calls that have taken an index and are not yet counted as done.\<close>

fun recording :: "bpc \<Rightarrow> nat" where
  "recording (BStore _ _) = 1"
| "recording BCount = 1"
| "recording _ = 0"

definition in_flight :: "nat \<Rightarrow> bench \<Rightarrow> nat" where
  "in_flight N s = (\<Sum>t<N. recording (b_pc s t))"

definition written :: "bench \<Rightarrow> nat \<Rightarrow> bool" where
  "written s n \<longleftrightarrow> g_lat_ns s ! n = b_log s ! n \<or> (\<exists>t dt. b_pc s t = BStore (of_nat n) dt)"

definition bench_inv :: "nat \<Rightarrow> u64 list \<Rightarrow> bench \<Rightarrow> bool" where
  "bench_inv N buf s \<longleftrightarrow>
     length (g_lat_ns s) = length buf \<and> g_lat_count s = of_nat (length (b_log s)) \<and> g_done s + of_nat (in_flight N s) = g_lat_count s
     \<and> g_checksum_acc s = of_nat (b_sum s)
     \<and> (\<forall>t n dt. b_pc s t = BStore n dt \<longrightarrow> t < N \<and> unat n < length (b_log s) \<and> b_log s ! unat n = dt)
     \<and> (\<forall>n. n < length buf \<longrightarrow> n < length (b_log s) \<longrightarrow> written s n)"

lemma written_keep:
  assumes "written s n" and "b_pc s' = (b_pc s)(t := c)" and "g_lat_ns s' ! n = g_lat_ns s ! n" and "b_log s' ! n = b_log s ! n"
    and "\<And>dt. b_pc s t \<noteq> BStore (of_nat n) dt"
  shows "written s' n"
  using assms unfolding written_def by (metis fun_upd_apply)

lemma bench_process_inv:
  assumes I: "bench_inv N buf s" and t: "t < N" and l: "length (b_log s) < 2 ^ 64" "length buf < 2 ^ 64"
  shows "bench_inv N buf (bench_process neon now t s)"
proof -
  let ?s = "bench_process neon now t s"
  have c: "g_lat_count s = of_nat (length (b_log s))" "g_done s + of_nat (in_flight N s) = g_lat_count s"
    "g_checksum_acc s = of_nat (b_sum s)"
    and len: "length (g_lat_ns s) = length buf" and u: "unat (g_lat_count s) = length (b_log s)"
    using I l by (auto simp: bench_inv_def)
  have st: "b_pc s v = BStore n dt \<Longrightarrow> v < N \<and> unat n < length (b_log s) \<and> b_log s ! unat n = dt" for v n dt
    using I by (simp add: bench_inv_def)
  have w: "n < length buf \<Longrightarrow> n < length (b_log s) \<Longrightarrow> written s n" for n using I by (simp add: bench_inv_def)
  have F: "in_flight N ?s + recording (b_pc s t) = in_flight N s + recording (b_pc ?s t)"
    unfolding in_flight_def
    by (rule sum_change [OF t]) (cases "b_pc s t"; simp add: bench_process_def Let_def)
  show ?thesis
  proof (cases "b_pc s t")
    case BIdle
    then show ?thesis using I by (simp add: bench_process_def)
  next
    case (BSum frame)
    have "written ?s n" if "n < length buf" "n < length (b_log s)" for n
      by (rule written_keep [OF w [OF that], where t = t]) (simp_all add: BSum bench_process_def Let_def)
    moreover have "in_flight N ?s = in_flight N s" using F BSum by (simp add: bench_process_def Let_def)
    ultimately show ?thesis using BSum st c len by (simp add: bench_inv_def bench_process_def Let_def)
  next
    case (BTake dt)
    have "written ?s n" if n: "n < length buf" "n < Suc (length (b_log s))" for n
    proof (cases "n = length (b_log s)")
      case True
      then show ?thesis using BTake c(1) by (auto simp: written_def bench_process_def intro!: exI [of _ t])
    next
      case False
      show ?thesis
        by (rule written_keep [OF w [OF n(1)], where t = t]) (use False n(2) BTake in \<open>simp_all add: bench_process_def nth_append\<close>)
    qed
    moreover have "v < N \<and> unat m < Suc (length (b_log s)) \<and> (b_log s @ [dt]) ! unat m = d" if "b_pc ?s v = BStore m d" for v m d
      using that BTake st [of v m d] t u by (cases "v = t") (auto simp: bench_process_def nth_append)
    moreover have "in_flight N ?s = Suc (in_flight N s)" using F BTake by (simp add: bench_process_def)
    then have "g_done s + of_nat (in_flight N ?s) = g_lat_count s + 1" using c(2) by (simp add: add.left_commute add.commute)
    ultimately show ?thesis using BTake c(1,3) len by (simp add: bench_inv_def bench_process_def)
  next
    case (BStore m dt)
    have "written ?s n" if n: "n < length buf" "n < length (b_log s)" for n
    proof (cases "n = unat m")
      case True
      then show ?thesis using BStore st [OF BStore] n len l by (simp add: written_def bench_process_def word_less_nat_alt)
    next
      case False
      then have "m \<noteq> of_nat n" using n l by auto
      then show ?thesis
        by (intro written_keep [OF w [OF n], where t = t]) (use False BStore in \<open>simp_all add: bench_process_def\<close>)
    qed
    moreover have "in_flight N ?s = in_flight N s" using F BStore by (simp add: bench_process_def)
    ultimately show ?thesis using BStore st c len by (simp add: bench_inv_def bench_process_def)
  next
    case BCount
    have "written ?s n" if "n < length buf" "n < length (b_log s)" for n
      by (rule written_keep [OF w [OF that], where t = t]) (simp_all add: BCount bench_process_def)
    moreover have "in_flight N s = Suc (in_flight N ?s)" using F BCount by (simp add: bench_process_def)
    then have "g_done s + 1 + of_nat (in_flight N ?s) = g_lat_count s" using c(2) by (simp add: add.assoc)
    ultimately show ?thesis using BCount st c(1,3) len by (simp add: bench_inv_def bench_process_def)
  qed
qed

lemma process_log: "length (b_log s) \<le> length (b_log (bench_process neon now t s))"
  by (cases "b_pc s t") (simp_all add: bench_process_def Let_def)

lemma bench_reach_inv:
  assumes "bench_reach neon N buf s" and "length buf < 2 ^ 64" and "length (b_log s) < 2 ^ 64"
  shows "bench_inv N buf s"
  using assms(1,3)
proof (induction rule: bench_reach.induct)
  case start
  show ?case by (simp add: bench_inv_def bench_init_def in_flight_def)
next
  case (call s t frame)
  let ?s = "s\<lparr>b_pc := (b_pc s)(t := BSum frame)\<rparr>"
  have I: "bench_inv N buf s" using call by simp
  have "in_flight N ?s + recording (b_pc s t) = in_flight N s + recording (b_pc ?s t)"
    unfolding in_flight_def by (rule sum_change [OF call.hyps(2)]) simp
  then have "in_flight N ?s = in_flight N s" using call.hyps(3) by simp
  moreover have "written ?s n" if "n < length buf" "n < length (b_log s)" for n
    by (rule written_keep [where s = s and t = t]) (use I that call.hyps(3) in \<open>simp_all add: bench_inv_def\<close>)
  ultimately show ?case using I by (simp add: bench_inv_def)
next
  case (step s t now)
  have "length (b_log s) < 2 ^ 64" using process_log [of s neon now t] step.prems by linarith
  then show ?case using bench_process_inv [OF step.IH step.hyps(2) _ assms(2)] by blast
qed


text \<open>Two workers in the callback; the second stores first.\<close>

definition demo_bench :: bench where
  "demo_bench =
     (let f = zero_frame\<lparr>f_submit_ns := 5\<rparr>; p = bench_process False;
          s = (bench_init [0, 0])\<lparr>b_pc := (\<lambda>_. BIdle)(0 := BSum f)\<rparr>; s = s\<lparr>b_pc := (b_pc s)(1 := BSum f)\<rparr>
      in p 0 0 (p 0 1 (p 0 0 (p 0 1 (p 0 1 (p 0 0 (p 9 1 (p 7 0 s))))))))"

lemma demo_bench_reach: "bench_reach False 2 [0, 0] demo_bench"
proof -
  let ?f = "zero_frame\<lparr>f_submit_ns := 5\<rparr>" and ?a = "bench_init [0, 0]"
  have a: "bench_reach False 2 [0, 0] (?a\<lparr>b_pc := (b_pc ?a)(0 := BSum ?f)\<rparr>)" (is "bench_reach _ _ _ ?b")
    by (rule bench_reach.call [OF bench_reach.start]) (simp_all add: bench_init_def)
  have "bench_reach False 2 [0, 0] (?b\<lparr>b_pc := (b_pc ?b)(1 := BSum ?f)\<rparr>)"
    by (rule bench_reach.call [OF a]) (simp_all add: bench_init_def)
  moreover have "b_pc ?a = (\<lambda>_. BIdle)" by (simp add: bench_init_def)
  ultimately show ?thesis by (simp only: demo_bench_def Let_def) (intro bench_reach.step; simp)
qed

lemma demo_bench_value: "b_log demo_bench = [2, 4]" "g_done demo_bench = 2" "g_lat_count demo_bench = 2"
  by (simp_all add: demo_bench_def Let_def bench_process_def bench_init_def zero_frame_def)


end
