(* ===== verification/Spec2Isabelle.thy ===== *)
theory Spec2Isabelle
  imports Ring_Refine Ring_Examples Frame_Conc Arena Submit_Live Supervisor_Stall Metrics Shutdown_Spec Pool_Examples Bench_Programs
begin

text \<open>
  \<^bold>\<open>The asynchronous worker pool, verified.\<close>

  The program is a C library in which producers hand frames to worker threads. A frame is
  routed by a hash of its labels to one worker, waits in that worker's bounded ring and is
  passed to the application's \<open>process\<close> callback in order. Its parts, and how they meet:

  \<^item> \<open>src/ring.c\<close> is the bounded ring of Vyukov cells, in four modes (single or multiple producers
    and consumers), with blocking pushes and pops, closing and reopening. Each worker owns one.
  \<^item> \<open>src/shard.c\<close> maps labels to a worker.
  \<^item> \<open>src/frame_pool.c\<close> is a lock-free free list of frames, which drains and releases go through.
  \<^item> \<open>src/arena.c\<close> is a bump allocator for callbacks; the pool does not use it.
  \<^item> \<open>src/worker.c\<close> is the thread that pops, calls \<open>process\<close> and counts, and the joins with a
    deadline that shutdown uses.
  \<^item> \<open>src/supervisor.c\<close> is the thread that restarts workers that exited and quarantines stalled
    ones.
  \<^item> \<open>src/pool.c\<close> holds the public interface: creation, submits, metrics, shutdown, destruction.

  \<^bold>\<open>The theories.\<close> A theory of definitions follows its C file function by function; a theory
  named \<open>..._Spec\<close> holds what is proved of it.

  \<^item> \<open>Awp_Prelude\<close>, \<open>Awp_Types\<close>: machine words, errno codes, C strings as byte lists, the structs
    and enums of \<open>include/awp/awp.h\<close> and \<open>src/internal.h\<close> as records and datatypes. Integers keep
    their width: positions are 64-bit words, counters and indices wrap as they do in C.
  \<^item> \<open>Awp_Bits\<close>: the rounding of a capacity to a power of two and its arithmetic meaning.
  \<^item> \<open>Shard\<close>: the FNV-1a hash and the map from labels to workers: range, stability, no collision
    of labels that differ in one byte.
  \<^item> \<open>Ring\<close>, \<open>Ring_Spec\<close>: every function of \<open>ring.c\<close>; a pass of a loop is one step. The invariant
    \<open>ring_ok\<close>, the abstract slot list \<open>ring_abs\<close>, the locale \<open>slot_fifo\<close> of a bounded queue with its
    interpretation on the ring's operations, every branch of each operation, that a blocking
    push never drops and that it returns.
  \<^item> \<open>Ring_Conc\<close>, \<open>Ring_Refine\<close>: the same loops with one step per access to shared memory and any
    number of threads. An inductive invariant gives exactly-once delivery, order, conservation
    and the absence of data races; \<open>Ring_Refine\<close> shows that every execution refines a sequential
    bounded queue.
  \<^item> \<open>Frame_Pool\<close>: the tagged free list, the locale \<open>frame_store\<close> and its interpretation; no
    frame is handed out twice, acquire and release return.
  \<^item> \<open>Frame_Conc\<close>: the same free list with one step per access and any number of threads. Each frame is
    in exactly one place, and every execution refines a sequential stack. The head's 32-bit tag
    is what excludes a stale exchange, so executions in which a thread is overtaken by \<open>2 ^ 32\<close>
    exchanges between its load and its exchange are left out (\<open>not_overtaken\<close>).
  \<^item> \<open>Arena\<close>: alignment, bounds and disjointness, and the sizes beyond which they fail.
  \<^item> \<open>Pool_State\<close>: access to workers and queues, reference counts, quarantine, lifecycle; \<open>world\<close>,
    the model of everybody else; the locale \<open>poll_loop\<close> of a loop that polls the pool until a
    condition or a deadline, with its termination proved once. It is interpreted on the poll
    loops of the worker joins, the supervisor, shutdown and destruction.
  \<^item> \<open>Submit\<close>, \<open>Submit_Spec\<close>: \<open>awp_submit\<close>, claim and commit, \<open>awp_submit_keyed\<close>; delivery, refusals,
    agreement of the two routes.
  \<^item> \<open>Submit_Live\<close>: a submit returns once its queue has room or is closed whenever it looks.
  \<^item> \<open>Worker\<close>, \<open>Worker_Spec\<close>: the worker thread, the joins, and the ownership of the box that a join
    shares with its detached helper, as a step relation.
  \<^item> \<open>Supervisor\<close>: restart, stall detection, the scan and the thread; every outcome of a restart
    and the end of the thread.
  \<^item> \<open>Supervisor_Stall\<close>: a worker is given up only on evidence of a stall.
  \<^item> \<open>Pool\<close>, \<open>Pool_Spec\<close>: configuration, creation with every rollback label, metrics; when creation
    succeeds, what it hands out, what a failure leaves behind.
  \<^item> \<open>Metrics\<close>: what a snapshot of the metrics says of the pool.
  \<^item> \<open>Shutdown\<close>, \<open>Shutdown_Spec\<close>: shutdown and destruction; both return, the result of a shutdown is
    honest, a late caller waits for the first one and reads its result off the stopped pool,
    and memory is freed only when nothing can refer to the pool.
  \<^item> \<open>Pipeline\<close>: the components together, from creation through a sequence of submits to the
    callbacks.
  \<^item> \<open>Bench_Stats\<close>: the helpers of \<open>bench/bench_common.h\<close> that compute, the payload checksum in its
    vector and its scalar form and the percentiles: the two forms agree, the percentiles are
    ordered and read inside the samples. It stands apart from the pool.
  \<^item> \<open>Ring_Drain\<close>: when a pop of a closed ring may report that nothing is left. A single consumer
    leaves nothing behind; one of several may give up early, but not one that is at the next
    position (\<open>at_next\<close>).
  \<^item> \<open>Ring_Examples\<close>: \<open>demo_ring\<close> of \<open>examples/example_mpmc.c\<close> and \<open>examples/example_spmc.c\<close> as programs
    over the interleaved ring, with their main, producer and consumer threads: they never get
    stuck and return only 0, with every frame printed and counted once. The theorem holds for any
    numbers of threads and frames that fit the array (\<open>client_ok\<close>); \<open>examples_ok\<close> shows that the numbers
    of the two programs do.
  \<^item> \<open>Pool_Examples\<close>: the configurations and messages of the programs that use a pool, on the path of
    \<open>Pipeline\<close>: all submits are accepted, in any order of the threads, and the awaited count is reached.
  \<^item> \<open>Bench_Programs\<close>: how the benchmarks divide messages among threads and read their mode argument,
    and the recording callback of \<open>bench/bench_dispatch.c\<close> under interleaving.

  \<^bold>\<open>Other threads.\<close> A pool operation is a function of a \<open>world\<close>: what the other threads do to the
  pool before its \<open>t\<close>-th look, the clock, and which weak compare-and-exchange operations
  succeed. No assumption is built in. Where a property needs one it is a hypothesis:
  \<open>fair_world\<close> (the others keep the pool well formed and leave its configuration alone),
  \<open>passes\<close> (the clock reaches the deadline), \<open>orderly\<close> (what the one caller of shutdown relies on:
  only it moves the lifecycle, quarantine is sticky, a draining pool is not restarted and the
  closed queue of an ended worker is left alone), \<open>served\<close> (the queue of a waiting producer gets
  room or is closed, and the producer is woken). Each such property has a witness that shows a
  world with these hypotheses. The callback \<open>process\<close>, the allocator and the thread library are
  arguments too, with a value for every answer they may give.

  \<^bold>\<open>Loops.\<close> There is no fuel. A loop that waits for another thread is a partial function whose
  value is \<^term>\<open>None\<close> when it never ends, and termination is proved as the existence of a result;
  loops over the workers recurse on the list of indices. The one bound of the code, 5000 sleeps
  for references to drain in \<open>awp_pool_destroy\<close>, is written out.

  \<^bold>\<open>Behaviour beyond the interface's promises\<close> that the model shows: a frame can be overwritten while
  it is being processed; a pop by one of several consumers may report a closed ring as drained
  while it holds frames; a keyed submit to a pool that admits nothing never returns; an
  arena allocation above 16 MB overruns its block; the copies of feed names made before a
  failing \<open>strdup\<close> are lost, and so is one of two arrays when the other cannot be allocated.

  \<^bold>\<open>Not modelled.\<close>
  \<^item> Memory orders weaker than sequential consistency: the acquire and release annotations of
    \<open>ring.c\<close> and \<open>frame_pool.c\<close> are read as sequentially consistent accesses.
  \<^item> Messages on stderr, cache-line padding, the CPU pause instruction, the platform variants of
    the clock, and the test hook that makes a thread start fail.
  \<^item> A heap: a freed pool is a value that says so. Use after free is expressed as who may still
    refer to the pool when it is freed.
  \<^item> The parks on condition variables of \<open>pool.c\<close> are polls; those of \<open>ring.c\<close> and \<open>frame_pool.c\<close>
    have wait lists and wake-ups.
  \<^item> The clock reads, sleeps and output of the benchmarks and examples, the main functions of the
    programs that use a pool beyond their configurations and messages, the benchmarks \<open>bench_openloop.c\<close>
    and \<open>bench_zerocopy.c\<close>, whose content is measurement in doubles and I/O, the tests and the Rust
    bindings.
\<close>

end
